(* ===== verification/Wisp_Prelude.thy ===== *)
theory Wisp_Prelude
  imports Main "HOL-Library.Word" "HOL-Library.Multiset"
begin

text \<open>
  Shared ground of the development: the machine integers of the Rust sources, the result of an
  \<^verbatim>\<open>async\<close> function as an outcome over an explicit state, the decimal and hexadecimal
  renderings behind \<^verbatim>\<open>format!\<close>, big-endian byte strings, and the generic argument
  that an invariant of every step holds in every reachable state.
\<close>

named_theorems io_simps \<open>unfolding rules of the outcome monad\<close>
named_theorems inbox_simps \<open>what each client operation does to the unread events\<close>

section \<open>Machine integers and strings\<close>

type_synonym u8 = "8 word"
type_synonym u16 = "16 word"
type_synonym u32 = "32 word"
type_synonym u64 = "64 word"

text \<open>
  A Rust \<^verbatim>\<open>String\<close> is its UTF-8 byte sequence; a HOL \<^typ>\<open>char\<close> is one byte of it.
\<close>

definition as_bytes :: "string \<Rightarrow> u8 list" where
  "as_bytes s = map of_char s"

definition of_bytes :: "u8 list \<Rightarrow> string" where
  "of_bytes bs = map (\<lambda>b. char_of (unat b)) bs"

definition digit_char :: "nat \<Rightarrow> char" where
  "digit_char d = (if d < 10 then char_of (48 + d) else char_of (87 + d))"

definition upper_digit_char :: "nat \<Rightarrow> char" where
  "upper_digit_char d = (if d < 10 then char_of (48 + d) else char_of (55 + d))"

text \<open>The rendering \<^verbatim>\<open>{n}\<close> of an unsigned integer, and \<^verbatim>\<open>{b:02x}\<close> of a byte.\<close>

fun show_nat :: "nat \<Rightarrow> string" where
  "show_nat n = (if n < 10 then [digit_char n] else show_nat (n div 10) @ [digit_char (n mod 10)])"

declare show_nat.simps [simp del]

definition hex2 :: "u8 \<Rightarrow> string" where
  "hex2 b = [digit_char (unat b div 16), digit_char (unat b mod 16)]"

definition hex2_upper :: "u8 \<Rightarrow> string" where
  "hex2_upper b = [upper_digit_char (unat b div 16), upper_digit_char (unat b mod 16)]"

text \<open>Big-endian byte strings, as \<^verbatim>\<open>to_be_bytes\<close> and \<^verbatim>\<open>from_be_bytes\<close> use them.\<close>

fun be_bytes :: "nat \<Rightarrow> nat \<Rightarrow> u8 list" where
  "be_bytes 0 n = []"
| "be_bytes (Suc k) n = be_bytes k (n div 256) @ [of_nat (n mod 256)]"

definition from_be :: "u8 list \<Rightarrow> nat" where
  "from_be bs = foldl (\<lambda>acc b. acc * 256 + unat b) 0 bs"

section \<open>Outcomes of asynchronous functions\<close>

text \<open>
  An \<^verbatim>\<open>async fn\<close> returning \<^verbatim>\<open>Result\<close> either completes with a value, completes with an error,
  panics, or is left pending because what it awaits never happens. The state it works on is
  threaded explicitly, so the state at the point of an early return is kept.
\<close>

datatype ('e, 'a) outcome = Return 'a | Raise 'e | Panic | Pending

type_synonym ('s, 'e, 'a) io = "'s \<Rightarrow> ('e, 'a) outcome \<times> 's"

definition return_io :: "'a \<Rightarrow> ('s, 'e, 'a) io" where
  "return_io a s = (Return a, s)"

definition raise_io :: "'e \<Rightarrow> ('s, 'e, 'a) io" where
  "raise_io e s = (Raise e, s)"

definition panic_io :: "('s, 'e, 'a) io" where
  "panic_io s = (Panic, s)"

definition bind_io :: "('s, 'e, 'a) io \<Rightarrow> ('a \<Rightarrow> ('s, 'e, 'b) io) \<Rightarrow> ('s, 'e, 'b) io" where
  "bind_io m f s = (case m s of
      (Return a, t) \<Rightarrow> f a t
    | (Raise e, t) \<Rightarrow> (Raise e, t)
    | (Panic, t) \<Rightarrow> (Panic, t)
    | (Pending, t) \<Rightarrow> (Pending, t))"

text \<open>The operator \<^verbatim>\<open>?\<close> on a plain \<^verbatim>\<open>Result\<close>.\<close>

definition try_io :: "'e + 'a \<Rightarrow> ('s, 'e, 'a) io" where
  "try_io r s = (case r of Inl e \<Rightarrow> (Raise e, s) | Inr a \<Rightarrow> (Return a, s))"

text \<open>Running an operation on one component of a larger state.\<close>

definition zoom_io :: "('t \<Rightarrow> 's) \<Rightarrow> ('s \<Rightarrow> 't \<Rightarrow> 't) \<Rightarrow> ('s, 'e, 'a) io \<Rightarrow> ('t, 'e, 'a) io" where
  "zoom_io get put m t = (case m (get t) of (r, s) \<Rightarrow> (r, put s t))"

section \<open>Reachable states of a transition system\<close>

inductive reachable :: "('s \<Rightarrow> bool) \<Rightarrow> ('s \<Rightarrow> 'l \<Rightarrow> 's \<Rightarrow> bool) \<Rightarrow> 's \<Rightarrow> bool"
  for init :: "'s \<Rightarrow> bool" and step :: "'s \<Rightarrow> 'l \<Rightarrow> 's \<Rightarrow> bool" where
  reach_init: "init s \<Longrightarrow> reachable init step s"
| reach_step: "reachable init step s \<Longrightarrow> step s l t \<Longrightarrow> reachable init step t"

inductive steps :: "('s \<Rightarrow> 'l \<Rightarrow> 's \<Rightarrow> bool) \<Rightarrow> 's \<Rightarrow> 'l list \<Rightarrow> 's \<Rightarrow> bool"
  for step :: "'s \<Rightarrow> 'l \<Rightarrow> 's \<Rightarrow> bool" where
  steps_nil: "steps step s [] s"
| steps_cons: "step s l t \<Longrightarrow> steps step t ls u \<Longrightarrow> steps step s (l # ls) u"

inductive_cases steps_NilE: "steps step s [] t"
inductive_cases steps_ConsE: "steps step s (l # ls) t"

section \<open>Lemmas\<close>

subsection \<open>The outcome monad\<close>

lemma bind_return [io_simps]: "bind_io (return_io a) f s = f a s"
  by (simp add: bind_io_def return_io_def)

lemma bind_Return [io_simps]: "m s = (Return a, t) \<Longrightarrow> bind_io m f s = f a t"
  by (simp add: bind_io_def)

lemma bind_Raise [io_simps]: "m s = (Raise e, t) \<Longrightarrow> bind_io m f s = (Raise e, t)"
  by (simp add: bind_io_def)

lemma bind_Pending [io_simps]: "m s = (Pending, t) \<Longrightarrow> bind_io m f s = (Pending, t)"
  by (simp add: bind_io_def)

lemma bind_Panic [io_simps]: "m s = (Panic, t) \<Longrightarrow> bind_io m f s = (Panic, t)"
  by (simp add: bind_io_def)

lemma bind_io_cong [fundef_cong]:
  assumes "s = t" "m t = n t" "\<And>a u. n t = (Return a, u) \<Longrightarrow> f a u = g a u"
  shows "bind_io m f s = bind_io n g t"
  using assms by (auto simp: bind_io_def split: prod.splits outcome.splits)

lemma bind_assoc: "bind_io (bind_io m f) g = bind_io m (\<lambda>a. bind_io (f a) g)"
  by (rule ext) (simp add: bind_io_def split: prod.splits outcome.splits)

lemma bind_Return_iff:
  "bind_io m f s = (Return b, u) \<longleftrightarrow> (\<exists>a t. m s = (Return a, t) \<and> f a t = (Return b, u))"
  by (cases "m s") (auto simp: bind_io_def split: outcome.splits)

lemma bind_Raise_iff:
  "bind_io m f s = (Raise e, u) \<longleftrightarrow>
     m s = (Raise e, u) \<or> (\<exists>a t. m s = (Return a, t) \<and> f a t = (Raise e, u))"
  by (cases "m s") (auto simp: bind_io_def split: outcome.splits)

lemma bind_Panic_iff:
  "bind_io m f s = (Panic, u) \<longleftrightarrow>
     m s = (Panic, u) \<or> (\<exists>a t. m s = (Return a, t) \<and> f a t = (Panic, u))"
  by (cases "m s") (auto simp: bind_io_def split: outcome.splits)

lemma return_io_iff [simp]: "return_io a s = (r, t) \<longleftrightarrow> r = Return a \<and> t = s"
  by (auto simp: return_io_def)

lemma raise_io_iff [simp]: "raise_io e s = (r, t) \<longleftrightarrow> r = Raise e \<and> t = s"
  by (auto simp: raise_io_def)

lemma panic_io_iff [simp]: "panic_io s = (r, t) \<longleftrightarrow> r = Panic \<and> t = s"
  by (auto simp: panic_io_def)

lemma try_io_Inl [simp]: "try_io (Inl e) = raise_io e"
  by (rule ext) (simp add: try_io_def raise_io_def)

lemma try_io_Inr [simp]: "try_io (Inr a) = return_io a"
  by (rule ext) (simp add: try_io_def return_io_def)

subsection \<open>Big-endian bytes\<close>

lemma length_be_bytes [simp]: "length (be_bytes k n) = k"
  by (induction k arbitrary: n) auto

lemma from_be_snoc: "from_be (bs @ [b]) = from_be bs * 256 + unat b"
  by (simp add: from_be_def)

lemma from_be_Nil [simp]: "from_be [] = 0"
  by (simp add: from_be_def)

lemma from_be_be_bytes: "from_be (be_bytes k n) = n mod 256 ^ k"
proof (induction k arbitrary: n)
  case 0
  then show ?case by simp
next
  case (Suc k)
  have byte: "unat (of_nat (n mod 256) :: u8) = n mod 256"
    by (simp add: unat_of_nat)
  have "from_be (be_bytes (Suc k) n) = (n div 256 mod 256 ^ k) * 256 + n mod 256"
    using byte by (simp add: from_be_snoc Suc.IH)
  also have "\<dots> = n mod (256 * 256 ^ k)"
    by (simp add: mod_mult2_eq)
  finally show ?case by simp
qed

lemma from_be_be_bytes_id: "n < 256 ^ k \<Longrightarrow> from_be (be_bytes k n) = n"
  by (simp add: from_be_be_bytes)

subsection \<open>Bytes and characters\<close>

lemma length_as_bytes [simp]: "length (as_bytes s) = length s"
  by (simp add: as_bytes_def)

lemma as_bytes_append [simp]: "as_bytes (s @ t) = as_bytes s @ as_bytes t"
  by (simp add: as_bytes_def)

lemma as_bytes_Nil [simp]: "as_bytes [] = []"
  by (simp add: as_bytes_def)

lemma unat_of_char [simp]: "unat (of_char c :: u8) = of_char c"
proof -
  have "(of_char c :: u8) = of_nat (of_char c)"
    by (simp add: of_nat_of_char)
  then show ?thesis
    by (simp add: unat_of_nat)
qed

lemma of_bytes_as_bytes [simp]: "of_bytes (as_bytes s) = s"
  by (simp add: of_bytes_def as_bytes_def comp_def)

lemma as_bytes_inject: "as_bytes s = as_bytes t \<longleftrightarrow> s = t"
  by (metis of_bytes_as_bytes)

subsection \<open>Reachability\<close>

lemma steps_reachable:
  "steps step s ls t \<Longrightarrow> reachable init step s \<Longrightarrow> reachable init step t"
  by (induction rule: steps.induct) (auto intro: reachable.reach_step)

lemma steps_append:
  "steps step s ls t \<Longrightarrow> steps step t ms u \<Longrightarrow> steps step s (ls @ ms) u"
  by (induction rule: steps.induct) (auto intro: steps.intros)

lemma steps_snoc: "steps step s ls t \<Longrightarrow> step t l u \<Longrightarrow> steps step s (ls @ [l]) u"
  by (blast intro: steps_append steps.intros)

text \<open>
  The interface of an inductive invariant: what holds initially and is kept by every step
  holds in every reachable state.
\<close>

locale inductive_invariant =
  fixes init :: "'s \<Rightarrow> bool"
    and step :: "'s \<Rightarrow> 'l \<Rightarrow> 's \<Rightarrow> bool"
    and inv :: "'s \<Rightarrow> bool"
  assumes inv_init: "init s \<Longrightarrow> inv s"
    and inv_step: "inv s \<Longrightarrow> step s l t \<Longrightarrow> inv t"
begin

lemma reachable_inv: "reachable init step s \<Longrightarrow> inv s"
  by (induction rule: reachable.induct) (auto intro: inv_init inv_step)

lemma steps_inv: "steps step s ls t \<Longrightarrow> inv s \<Longrightarrow> inv t"
  by (induction rule: steps.induct) (auto intro: inv_step)

end

subsection \<open>Runs that always come to their end\<close>

text \<open>
  The interface of a system that cannot help finishing: under an invariant it can move unless it is over,
  and every move uses up some work.
\<close>

locale completing_system = inductive_invariant init step inv
  for init :: "'s \<Rightarrow> bool" and step :: "'s \<Rightarrow> 'l \<Rightarrow> 's \<Rightarrow> bool" and inv :: "'s \<Rightarrow> bool" +
  fixes over :: "'s \<Rightarrow> bool"
    and work :: "'s \<Rightarrow> nat"
  assumes progress: "inv s \<Longrightarrow> \<not> over s \<Longrightarrow> \<exists>l t. step s l t"
    and work_step: "inv s \<Longrightarrow> step s l t \<Longrightarrow> work t < work s"
begin

lemma steps_bounded: "steps step s ls t \<Longrightarrow> inv s \<Longrightarrow> length ls + work t \<le> work s"
proof (induction rule: steps.induct)
  case (steps_cons s l t ls u)
  then show ?case using work_step [of s l t] inv_step [of s l t] by fastforce
qed simp

lemma completes: "inv s \<Longrightarrow> \<exists>ls t. steps step s ls t \<and> over t"
proof (induction "work s" arbitrary: s rule: less_induct)
  case less
  show ?case
  proof (cases "over s")
    case True
    then show ?thesis by (blast intro: steps_nil)
  next
    case False
    then obtain l t where "step s l t" using progress less.prems by blast
    moreover from this obtain ls u where "steps step t ls u" "over u"
      using less.hyps work_step inv_step less.prems by blast
    ultimately show ?thesis by (blast intro: steps_cons)
  qed
qed

end

subsection \<open>Actions that only move a state forward\<close>

text \<open>
  A preorder on states and the actions that never leave it: composing such actions gives such an
  action, so a whole command keeps what each of its steps keeps.
\<close>

locale io_preorder =
  fixes le :: "'s \<Rightarrow> 's \<Rightarrow> bool"
  assumes le_refl: "le s s"
    and le_trans: "le s t \<Longrightarrow> le t u \<Longrightarrow> le s u"
begin

definition keeps :: "('s, 'e, 'a) io \<Rightarrow> bool" where
  "keeps m \<longleftrightarrow> (\<forall>s r t. m s = (r, t) \<longrightarrow> le s t)"

lemma keepsI: "(\<And>s r t. m s = (r, t) \<Longrightarrow> le s t) \<Longrightarrow> keeps m"
  by (simp add: keeps_def)

lemma keepsD: "keeps m \<Longrightarrow> m s = (r, t) \<Longrightarrow> le s t"
  by (simp add: keeps_def)

lemma keeps_return: "keeps (return_io a)"
  by (auto simp: keeps_def le_refl)

lemma keeps_raise: "keeps (raise_io e)"
  by (auto simp: keeps_def le_refl)

lemma keeps_panic: "keeps panic_io"
  by (auto simp: keeps_def le_refl)

lemma keeps_try: "keeps (try_io r)"
  by (cases r) (simp_all add: keeps_return keeps_raise)

lemma keeps_bind:
  assumes "keeps m" "\<And>a. keeps (f a)"
  shows "keeps (bind_io m f)"
proof (rule keepsI)
  fix s r u
  assume "bind_io m f s = (r, u)"
  then obtain q t where m: "m s = (q, t)" and k: "t = u \<or> (\<exists>a. f a t = (r, u))"
    by (cases "m s") (auto simp: bind_io_def split: outcome.splits)
  have "le t u" using k assms(2) keepsD le_refl by blast
  with keepsD [OF assms(1) m] show "le s u" by (rule le_trans)
qed

lemma le_bind:
  assumes "keeps m" "\<And>a t. m s = (Return a, t) \<Longrightarrow> le t (snd (f a t))"
  shows "le s (snd (bind_io m f s))"
proof -
  obtain q t where m: "m s = (q, t)" by (cases "m s")
  then have "le t (snd (bind_io m f s))"
    using assms(2) le_refl by (auto simp: bind_io_def split: outcome.splits)
  with keepsD [OF assms(1) m] show ?thesis by (rule le_trans)
qed

lemma keeps_bind_value:
  assumes "keeps m" "\<And>s a t. m s = (Return a, t) \<Longrightarrow> keeps (f a)"
  shows "keeps (bind_io m f)"
proof (rule keepsI)
  fix s r u
  assume "bind_io m f s = (r, u)"
  moreover have "le s (snd (bind_io m f s))"
    by (rule le_bind [OF assms(1)]) (metis assms(2) keepsD prod.collapse)
  ultimately show "le s u" by simp
qed

lemma keeps_le: "(\<And>s. le s (snd (m s))) \<Longrightarrow> keeps m"
  by (rule keepsI) (metis snd_conv)

lemma le_stop: "le s (snd (return_io a s))" "le s (snd (raise_io e s))" "le s (snd (try_io r s))"
  using keeps_return keeps_raise keeps_try by (metis keepsD prod.collapse)+

lemmas keeps_intros = keeps_return keeps_raise keeps_panic keeps_try keeps_bind

end

end
