(* ===== verification/Protocol_Types.thy ===== *)
theory Protocol_Types
  imports Wisp_Prelude
begin

text \<open>
  The boundary to the crate \<^verbatim>\<open>wispmq-protocol\<close>, whose code is not part of the repository. Its
  data appears with the fields and variants the sources construct or match; its functions are
  the fields of a record \<open>protocol_crate\<close> that every definition using them takes as an argument.
  The byte stream to the broker is the script of what the crate's \<^verbatim>\<open>read_packet\<close> and
  \<^verbatim>\<open>write_packet\<close> return: a theorem for every script is a theorem for every broker.
\<close>

section \<open>Data of the protocol crate\<close>

datatype protocol_version = V3_1 | V3_1_1 | V5

datatype qos = AtMostOnce | AtLeastOnce | ExactlyOnce

text \<open>
  A \<^verbatim>\<open>ReasonCode\<close> is carried as the byte \<^verbatim>\<open>as_u8\<close> gives for it, an \<^verbatim>\<open>MqttError\<close> and an
  \<^verbatim>\<open>io::Error\<close> as the text they display: the sources observe nothing else of them.
\<close>

type_synonym reason_code = u8
type_synonym io_error = string

datatype mqtt_error = Mqtt_Error string

record properties =
  p_maximum_packet_size :: "u32 option"
  p_receive_maximum :: "u16 option"
  p_user_properties :: "(string \<times> string) list"
  p_message_expiry_interval :: "u32 option"
  p_content_type :: "string option"
  p_payload_format_indicator :: "u8 option"
  p_response_topic :: "string option"

definition properties_new :: properties where
  "properties_new = \<lparr>p_maximum_packet_size = None, p_receive_maximum = None,
     p_user_properties = [], p_message_expiry_interval = None, p_content_type = None,
     p_payload_format_indicator = None, p_response_topic = None\<rparr>"

record will_message =
  will_msg_qos :: qos
  will_msg_retain :: bool
  will_msg_properties :: properties
  will_msg_topic :: string
  will_msg_payload :: "u8 list"

record connect_packet =
  con_protocol_name :: string
  con_protocol_version :: u8
  con_clean_start :: bool
  con_keep_alive :: u16
  con_properties :: properties
  con_client_id :: string
  con_will :: "will_message option"
  con_username :: "string option"
  con_password :: "u8 list option"

record connack_packet =
  cack_session_present :: bool
  cack_reason_code :: reason_code
  cack_properties :: properties

record publish_packet =
  pub_dup :: bool
  pub_qos :: qos
  pub_retain :: bool
  pub_topic :: string
  pub_packet_id :: "u16 option"
  pub_properties :: properties
  pub_payload :: "u8 list"

record pub_ack =
  ack_packet_id :: u16
  ack_reason_code :: reason_code

datatype retain_handling = SendAtSubscribe | Other_Handling u8

record topic_filter =
  tf_filter :: string
  tf_qos :: qos
  tf_no_local :: bool
  tf_retain_as_published :: bool
  tf_retain_handling :: retain_handling

record subscribe_packet =
  sub_packet_id :: u16
  sub_properties :: properties
  sub_filters :: "topic_filter list"

record suback_packet =
  suback_packet_id :: u16
  suback_reason_codes :: "reason_code list"

text \<open>The control packets the sources name; every other one is only ever met by a wildcard arm.\<close>

datatype packet =
    Connect connect_packet
  | Connack connack_packet
  | Publish publish_packet
  | Puback pub_ack
  | Pubrec pub_ack
  | Pubrel pub_ack
  | Pubcomp pub_ack
  | Subscribe subscribe_packet
  | Suback suback_packet
  | Pingreq
  | Pingresp
  | Disconnect reason_code
  | Other_Packet string

abbreviation pub_ack_new :: "u16 \<Rightarrow> reason_code \<Rightarrow> pub_ack" where
  "pub_ack_new i c \<equiv> \<lparr>ack_packet_id = i, ack_reason_code = c\<rparr>"

section \<open>Functions of the protocol crate\<close>

record protocol_crate =
  qos_from_u8 :: "u8 \<Rightarrow> mqtt_error + qos"
  qos_as_u8 :: "qos \<Rightarrow> u8"
  version_level :: "protocol_version \<Rightarrow> u8"
  has_properties :: "protocol_version \<Rightarrow> bool"
  rc_success :: reason_code
  rc_is_error :: "reason_code \<Rightarrow> bool"
  rc_debug :: "reason_code \<Rightarrow> string"
  packet_name :: "packet \<Rightarrow> string"
  protocol_error :: "string \<Rightarrow> mqtt_error"
  io_to_mqtt :: "io_error \<Rightarrow> mqtt_error"
  mqtt_display :: "mqtt_error \<Rightarrow> string"

text \<open>
  What the sources rely on, as the MQTT specifications document it: Success is not an error
  code; only version 5 carries properties; 0, 1 and 2 are the three QoS levels.
\<close>

definition success_ok :: "protocol_crate \<Rightarrow> bool" where
  "success_ok P \<longleftrightarrow> \<not> rc_is_error P (rc_success P)"

definition properties_v5_only :: "protocol_crate \<Rightarrow> bool" where
  "properties_v5_only P \<longleftrightarrow> (\<forall>v. has_properties P v \<longleftrightarrow> v = V5)"

definition qos_levels :: "protocol_crate \<Rightarrow> bool" where
  "qos_levels P \<longleftrightarrow> qos_from_u8 P 0 = Inr AtMostOnce \<and> qos_from_u8 P 1 = Inr AtLeastOnce \<and>
     qos_from_u8 P 2 = Inr ExactlyOnce"

text \<open>A concrete crate with the documented behaviour, at which hypotheses are shown satisfiable.\<close>

definition mqtt_documented :: protocol_crate where
  "mqtt_documented = \<lparr>
     qos_from_u8 = (\<lambda>b. if b = 0 then Inr AtMostOnce else if b = 1 then Inr AtLeastOnce
        else if b = 2 then Inr ExactlyOnce else Inl (Mqtt_Error ''malformed'')),
     qos_as_u8 = (\<lambda>q. case q of AtMostOnce \<Rightarrow> 0 | AtLeastOnce \<Rightarrow> 1 | ExactlyOnce \<Rightarrow> 2),
     version_level = (\<lambda>v. case v of V3_1 \<Rightarrow> 3 | V3_1_1 \<Rightarrow> 4 | V5 \<Rightarrow> 5),
     has_properties = (\<lambda>v. v = V5),
     rc_success = 0,
     rc_is_error = (\<lambda>c. 128 \<le> unat c),
     rc_debug = (\<lambda>c. ''ReasonCode''),
     packet_name = (\<lambda>p. case p of Other_Packet n \<Rightarrow> n | _ \<Rightarrow> ''PACKET''),
     protocol_error = Mqtt_Error,
     io_to_mqtt = Mqtt_Error,
     mqtt_display = (\<lambda>e. case e of Mqtt_Error m \<Rightarrow> m)\<rparr>"

section \<open>The stream to the broker\<close>

text \<open>
  \<open>inbox\<close> is what the reads still to come will find: a packet, a quiet half keep-alive interval,
  the end of the stream, or a transport or codec error. An exhausted inbox leaves a read pending.
  \<open>write_fault\<close> says which of the numbered writes fail. \<open>calls\<close> logs the successful writes and
  the parameters of every read, oldest first.
\<close>

datatype net_event = Arrives packet | Quiet | Closed | Broken mqtt_error

datatype io_call = Wrote packet protocol_version | Read_with u32 protocol_version

datatype read_outcome = Got packet | Eof

record stream =
  inbox :: "net_event list"
  write_fault :: "nat \<Rightarrow> mqtt_error option"
  attempts :: nat
  calls :: "io_call list"

definition write_packet :: "packet \<Rightarrow> protocol_version \<Rightarrow> (stream, mqtt_error, unit) io" where
  "write_packet p v s = (case write_fault s (attempts s) of
      Some e \<Rightarrow> (Raise e, s\<lparr>attempts := Suc (attempts s)\<rparr>)
    | None \<Rightarrow> (Return (), s\<lparr>attempts := Suc (attempts s), calls := calls s @ [Wrote p v]\<rparr>))"

text \<open>A read with no time limit waits through quiet intervals; the end of the stream stays.\<close>

fun next_event :: "net_event list \<Rightarrow> (mqtt_error, read_outcome) outcome \<times> net_event list" where
  "next_event [] = (Pending, [])"
| "next_event (Arrives p # es) = (Return (Got p), es)"
| "next_event (Quiet # es) = next_event es"
| "next_event (Closed # es) = (Return Eof, Closed # es)"
| "next_event (Broken e # es) = (Raise e, es)"

definition read_packet :: "u32 \<Rightarrow> protocol_version \<Rightarrow> (stream, mqtt_error, read_outcome) io" where
  "read_packet m v s = (case next_event (inbox s) of
     (r, es) \<Rightarrow> (r, s\<lparr>inbox := es, calls := calls s @ [Read_with m v]\<rparr>))"

text \<open>
  A read under \<^verbatim>\<open>timeout\<close>: \<open>None\<close> when the interval elapses first. The cancelled read is taken
  to leave the stream as it was.
\<close>

definition read_packet_timeout ::
  "u32 \<Rightarrow> protocol_version \<Rightarrow> (stream, mqtt_error, read_outcome option) io" where
  "read_packet_timeout m v s = (case inbox s of
      Quiet # es \<Rightarrow> (Return None, s\<lparr>inbox := es, calls := calls s @ [Read_with m v]\<rparr>)
    | _ \<Rightarrow> bind_io (read_packet m v) (\<lambda>r. return_io (Some r)) s)"

text \<open>The packets written so far.\<close>

definition sent_packets :: "stream \<Rightarrow> packet list" where
  "sent_packets s = List.map_filter (\<lambda>c. case c of Wrote p v \<Rightarrow> Some p | Read_with m v \<Rightarrow> None) (calls s)"

section \<open>Lemmas\<close>

lemma success_ok_documented [simp]: "success_ok mqtt_documented"
  by (simp add: success_ok_def mqtt_documented_def)

lemma properties_v5_only_documented [simp]: "properties_v5_only mqtt_documented"
  by (simp add: properties_v5_only_def mqtt_documented_def)

lemma qos_levels_documented [simp]: "qos_levels mqtt_documented"
  by (simp add: qos_levels_def mqtt_documented_def)

lemma documented_simps [simp]:
  "qos_from_u8 mqtt_documented 0 = Inr AtMostOnce" "qos_from_u8 mqtt_documented 1 = Inr AtLeastOnce"
  "qos_from_u8 mqtt_documented 2 = Inr ExactlyOnce" "has_properties mqtt_documented v = (v = V5)"
  "rc_success mqtt_documented = 0" "rc_is_error mqtt_documented c = (128 \<le> unat c)"
  by (simp_all add: mqtt_documented_def)

lemma qos_from_u8_small:
  assumes "qos_levels P" "unat b \<le> 2"
  shows "\<exists>q. qos_from_u8 P b = Inr q"
proof -
  have "unat b = 0 \<or> unat b = 1 \<or> unat b = 2" using assms(2) by arith
  then have "b = 0 \<or> b = 1 \<or> b = 2" by (simp add: word_unat_eq_iff [of b])
  with assms(1) show ?thesis by (auto simp: qos_levels_def)
qed

lemma write_packet_inbox [inbox_simps]: "write_packet p v s = (r, t) \<Longrightarrow> inbox t = inbox s"
  by (auto simp: write_packet_def split: option.splits)

lemma write_packet_not_Panic [simp]: "write_packet p v s \<noteq> (Panic, t)"
  by (auto simp: write_packet_def split: option.splits)

lemma write_packet_not_Pending [simp]: "write_packet p v s \<noteq> (Pending, t)"
  by (auto simp: write_packet_def split: option.splits)

lemma write_packet_ok:
  "write_fault s (attempts s) = None \<Longrightarrow>
     write_packet p v s = (Return (), s\<lparr>attempts := Suc (attempts s), calls := calls s @ [Wrote p v]\<rparr>)"
  by (simp add: write_packet_def)

lemma next_event_Got: "next_event es = (Return (Got p), fs) \<Longrightarrow> length fs < length es"
  by (induction es rule: next_event.induct) auto

lemma read_packet_Got:
  "read_packet m v s = (Return (Got p), t) \<Longrightarrow> length (inbox t) < length (inbox s)"
  by (auto simp: read_packet_def split: prod.splits dest: next_event_Got)

lemma read_packet_timeout_Got:
  "read_packet_timeout m v s = (Return (Some (Got p)), t) \<Longrightarrow> length (inbox t) < length (inbox s)"
  by (auto simp: read_packet_timeout_def bind_Return_iff
      split: list.splits net_event.splits dest: read_packet_Got)

lemma read_packet_timeout_None:
  "read_packet_timeout m v s = (Return None, t) \<Longrightarrow> length (inbox t) < length (inbox s)"
  by (auto simp: read_packet_timeout_def bind_Return_iff split: list.splits net_event.splits)

lemma sent_packets_write: "sent_packets (s\<lparr>calls := calls s @ [Wrote p v]\<rparr>) = sent_packets s @ [p]"
  by (simp add: sent_packets_def List.map_filter_def)

lemma write_packet_cases:
  obtains (ok) st' where "write_packet p v st = (Return (), st')" "sent_packets st' = sent_packets st @ [p]"
      "inbox st' = inbox st" "write_fault st' = write_fault st"
  | (fault) e st' where "write_packet p v st = (Raise e, st')" "sent_packets st' = sent_packets st"
      "inbox st' = inbox st" "write_fault st' = write_fault st" "write_fault st (attempts st) = Some e"
proof (cases "write_fault st (attempts st)")
  case None
  have "sent_packets (st\<lparr>attempts := Suc (attempts st), calls := calls st @ [Wrote p v]\<rparr>) = sent_packets st @ [p]"
    by (simp add: sent_packets_def List.map_filter_def)
  with write_packet_ok [OF None, of p v] show ?thesis by (rule ok) simp_all
next
  case (Some e)
  have "write_packet p v st = (Raise e, st\<lparr>attempts := Suc (attempts st)\<rparr>)" using Some by (simp add: write_packet_def)
  then show ?thesis by (rule fault) (simp_all add: sent_packets_def Some)
qed

lemma read_packet_frame:
  "read_packet m v st = (r, st') \<Longrightarrow> sent_packets st' = sent_packets st \<and> write_fault st' = write_fault st
     \<and> next_event (inbox st) = (r, inbox st')"
  by (auto simp: read_packet_def sent_packets_def List.map_filter_def split: prod.splits)

end
