(* ===== verification/Client_Error.thy ===== *)
theory Client_Error
  imports Protocol_Types
begin

text \<open>
  The error type of the client tools (\<^verbatim>\<open>src/error.rs\<close>): its variants, the conversions the
  operator \<^verbatim>\<open>?\<close> applies, and what the user reads of each.
\<close>

datatype error =
    Usage string
  | Rejected string reason_code
  | Disconnected string
  | Unsupported string
  | Mqtt mqtt_error

definition display_error :: "protocol_crate \<Rightarrow> error \<Rightarrow> string" where
  "display_error P e = (case e of
      Usage m \<Rightarrow> m
    | Rejected what code \<Rightarrow>
        what @ '' rejected by broker: '' @ rc_debug P code @ '' (0x'' @ hex2_upper code @ '')''
    | Disconnected m \<Rightarrow> ''broker closed the connection '' @ m
    | Unsupported m \<Rightarrow> m
    | Mqtt m \<Rightarrow> mqtt_display P m)"

definition from_mqtt :: "mqtt_error \<Rightarrow> error" where
  "from_mqtt e = Mqtt e"

definition from_io :: "protocol_crate \<Rightarrow> io_error \<Rightarrow> error" where
  "from_io P e = Mqtt (io_to_mqtt P e)"

text \<open>The conversion of \<^verbatim>\<open>?\<close> applied to an operation that fails with an \<^typ>\<open>mqtt_error\<close>.\<close>

definition lift_mqtt :: "('s, mqtt_error, 'a) io \<Rightarrow> ('s, error, 'a) io" where
  "lift_mqtt m s = (case m s of
      (Return a, t) \<Rightarrow> (Return a, t)
    | (Raise e, t) \<Rightarrow> (Raise (from_mqtt e), t)
    | (Panic, t) \<Rightarrow> (Panic, t)
    | (Pending, t) \<Rightarrow> (Pending, t))"

lemma lift_mqtt_Return_iff [simp]: "lift_mqtt m s = (Return a, t) \<longleftrightarrow> m s = (Return a, t)"
  by (cases "m s") (auto simp: lift_mqtt_def split: outcome.splits)

lemma lift_mqtt_Raise_iff:
  "lift_mqtt m s = (Raise e, t) \<longleftrightarrow> (\<exists>x. m s = (Raise x, t) \<and> e = from_mqtt x)"
  by (cases "m s") (auto simp: lift_mqtt_def split: outcome.splits)

lemma lift_mqtt_Panic_iff [simp]: "lift_mqtt m s = (Panic, t) \<longleftrightarrow> m s = (Panic, t)"
  by (cases "m s") (auto simp: lift_mqtt_def split: outcome.splits)

lemma lift_mqtt_Pending_iff [simp]: "lift_mqtt m s = (Pending, t) \<longleftrightarrow> m s = (Pending, t)"
  by (cases "m s") (auto simp: lift_mqtt_def split: outcome.splits)

end
