(* ===== verification/Wisp_Float.thy ===== *)
theory Wisp_Float
  imports Complex_Main Wisp_Prelude
begin

text \<open>
  The IEEE 754 binary64 arithmetic behind Rust's \<^verbatim>\<open>f64\<close>, as far as the benchmark uses it:
  every operation computes the exact rational result and rounds it to 53 significant bits,
  nearest value, ties to even, with gradual underflow below and infinity above. The sign of
  zero is not kept, since no computation of the sources can see it.
\<close>

datatype f64 = Fin rat | PInf | NInf | NaN

section \<open>Rounding\<close>

text \<open>The length of a positive integer in bits.\<close>

function bit_len :: "int \<Rightarrow> nat" where
  "bit_len n = (if n \<le> 0 then 0 else Suc (bit_len (n div 2)))"
  by pat_completeness auto
termination
  by (relation "measure nat") auto

declare bit_len.simps [simp del]

text \<open>The exponent of the binade of a positive fraction: \<open>2 ^ k \<le> x < 2 ^ (k + 1)\<close>.\<close>

definition ilog2 :: "rat \<Rightarrow> int" where
  "ilog2 x = (case quotient_of x of (a, b) \<Rightarrow>
     let k = int (bit_len a) - int (bit_len b)
     in if 2 powi k \<le> x then k else k - 1)"

text \<open>Nearest integer, ties to even.\<close>

definition round_even :: "rat \<Rightarrow> int" where
  "round_even y = (let f = \<lfloor>y\<rfloor>; d = y - of_int f in
     if d < 1 / 2 then f else if 1 / 2 < d then f + 1 else if even f then f else f + 1)"

text \<open>The weight of the last significand bit of a number of the size of \<open>x\<close>.\<close>

definition ulp_exp :: "rat \<Rightarrow> int" where
  "ulp_exp x = max (- 1074) (ilog2 x - 52)"

definition fl_pos :: "rat \<Rightarrow> rat" where
  "fl_pos x = of_int (round_even (x / 2 powi (ulp_exp x))) * 2 powi (ulp_exp x)"

definition fl :: "rat \<Rightarrow> rat" where
  "fl x = (if x = 0 then 0 else if 0 < x then fl_pos x else - fl_pos (- x))"

definition round_f64 :: "rat \<Rightarrow> f64" where
  "round_f64 x = (let y = fl x in
     if 2 powi 1024 \<le> y then PInf else if y \<le> - (2 powi 1024) then NInf else Fin y)"

section \<open>Operations\<close>

definition is_finite :: "f64 \<Rightarrow> bool" where
  "is_finite a \<longleftrightarrow> (case a of Fin x \<Rightarrow> True | _ \<Rightarrow> False)"

definition f64_of_nat :: "nat \<Rightarrow> f64" where
  "f64_of_nat n = round_f64 (of_nat n)"

fun f64_neg :: "f64 \<Rightarrow> f64" where
  "f64_neg (Fin x) = Fin (- x)"
| "f64_neg PInf = NInf"
| "f64_neg NInf = PInf"
| "f64_neg NaN = NaN"

fun f64_add :: "f64 \<Rightarrow> f64 \<Rightarrow> f64" where
  "f64_add (Fin x) (Fin y) = round_f64 (x + y)"
| "f64_add NaN b = NaN"
| "f64_add a NaN = NaN"
| "f64_add PInf NInf = NaN"
| "f64_add NInf PInf = NaN"
| "f64_add PInf b = PInf"
| "f64_add NInf b = NInf"
| "f64_add (Fin x) b = b"

fun signed_inf :: "rat \<Rightarrow> f64" where
  "signed_inf x = (if 0 < x then PInf else if x < 0 then NInf else NaN)"

fun f64_mul :: "f64 \<Rightarrow> f64 \<Rightarrow> f64" where
  "f64_mul (Fin x) (Fin y) = round_f64 (x * y)"
| "f64_mul NaN b = NaN"
| "f64_mul a NaN = NaN"
| "f64_mul PInf (Fin y) = signed_inf y"
| "f64_mul NInf (Fin y) = signed_inf (- y)"
| "f64_mul (Fin x) PInf = signed_inf x"
| "f64_mul (Fin x) NInf = signed_inf (- x)"
| "f64_mul PInf PInf = PInf"
| "f64_mul PInf NInf = NInf"
| "f64_mul NInf PInf = NInf"
| "f64_mul NInf NInf = PInf"

fun f64_div :: "f64 \<Rightarrow> f64 \<Rightarrow> f64" where
  "f64_div (Fin x) (Fin y) = (if y = 0 then signed_inf x else round_f64 (x / y))"
| "f64_div NaN b = NaN"
| "f64_div a NaN = NaN"
| "f64_div PInf (Fin y) = (if 0 \<le> y then PInf else NInf)"
| "f64_div NInf (Fin y) = (if 0 \<le> y then NInf else PInf)"
| "f64_div (Fin x) b = Fin 0"
| "f64_div a b = NaN"

fun f64_less :: "f64 \<Rightarrow> f64 \<Rightarrow> bool" where
  "f64_less (Fin x) (Fin y) = (x < y)"
| "f64_less NaN b = False"
| "f64_less a NaN = False"
| "f64_less NInf b = (b \<noteq> NInf)"
| "f64_less a PInf = (a \<noteq> PInf)"
| "f64_less a b = False"

fun f64_le :: "f64 \<Rightarrow> f64 \<Rightarrow> bool" where
  "f64_le (Fin x) (Fin y) = (x \<le> y)"
| "f64_le NaN b = False"
| "f64_le a NaN = False"
| "f64_le NInf b = True"
| "f64_le a PInf = True"
| "f64_le a b = False"

fun f64_ceil :: "f64 \<Rightarrow> f64" where
  "f64_ceil (Fin x) = Fin (of_int \<lceil>x\<rceil>)"
| "f64_ceil a = a"

text \<open>The saturating cast \<^verbatim>\<open>as usize\<close> of a 64-bit target.\<close>

fun f64_to_usize :: "f64 \<Rightarrow> nat" where
  "f64_to_usize (Fin x) =
     (if x \<le> 0 then 0 else if 2 ^ 64 \<le> \<lfloor>x\<rfloor> then 2 ^ 64 - 1 else nat \<lfloor>x\<rfloor>)"
| "f64_to_usize PInf = 2 ^ 64 - 1"
| "f64_to_usize a = 0"

section \<open>Properties of the rounding\<close>

lemma bit_len_bounds: "0 < n \<Longrightarrow> 2 ^ bit_len n \<le> 2 * n \<and> n < 2 ^ bit_len n"
proof (induction n rule: bit_len.induct)
  case (1 n)
  show ?case
  proof (cases "n = 1")
    case True
    then show ?thesis by (simp add: bit_len.simps)
  next
    case False
    with "1.prems" have pos: "0 < n div 2" by auto
    with 1 have "2 ^ bit_len (n div 2) \<le> 2 * (n div 2) \<and> n div 2 < 2 ^ bit_len (n div 2)" by auto
    moreover have "bit_len n = Suc (bit_len (n div 2))"
      using "1.prems" by (subst bit_len.simps) simp
    moreover have "2 * (n div 2) \<le> n" "n < 2 * (n div 2) + 2" by auto
    ultimately show ?thesis by auto
  qed
qed

lemma bit_len_bounds_rat:
  assumes "0 < n"
  shows "2 powi int (bit_len n) \<le> 2 * (of_int n :: rat)" and "of_int n < (2 powi int (bit_len n) :: rat)"
proof -
  have "of_int (2 ^ bit_len n) \<le> (of_int (2 * n) :: rat)" "of_int n < (of_int (2 ^ bit_len n) :: rat)"
    using bit_len_bounds [OF assms] by (simp_all only: of_int_le_iff of_int_less_iff)
  then show "2 powi int (bit_len n) \<le> 2 * (of_int n :: rat)" and "of_int n < (2 powi int (bit_len n) :: rat)"
    by simp_all
qed

lemma ilog2_bounds:
  assumes "0 < x"
  shows "2 powi ilog2 x \<le> x" and "x < 2 powi (ilog2 x + 1)"
proof -
  obtain a b where q: "quotient_of x = (a, b)" by (cases "quotient_of x")
  then have b: "0 < b" and x: "x = of_int a / of_int b"
    using quotient_of_denom_pos quotient_of_div by blast+
  with assms have a: "0 < a" by (simp add: zero_less_divide_iff)
  let ?la = "int (bit_len a)" and ?lb = "int (bit_len b)"
  have A: "2 powi ?la \<le> 2 * (of_int a :: rat)" "of_int a < (2 powi ?la :: rat)"
    using bit_len_bounds_rat [OF a] by auto
  have B: "2 powi ?lb \<le> 2 * (of_int b :: rat)" "of_int b < (2 powi ?lb :: rat)"
    using bit_len_bounds_rat [OF b] by auto
  define k where "k = ?la - ?lb"
  have pk: "2 powi k * (2 powi ?lb) = (2 powi ?la :: rat)"
    unfolding k_def by (simp add: power_int_diff)
  have bq: "0 < (of_int b :: rat)" using b by simp
  have up: "x < 2 powi k * 2"
  proof -
    have "of_int a < 2 powi k * (2 powi ?lb :: rat)" using A(2) pk by simp
    also have "\<dots> \<le> 2 powi k * (2 * of_int b)" using B(1) by (simp add: mult_left_mono)
    finally show ?thesis using bq by (simp add: x field_simps)
  qed
  have low: "2 powi k \<le> 2 * x"
  proof -
    have "2 powi k * of_int b \<le> 2 powi k * (2 powi ?lb :: rat)" using B(2) by (simp add: mult_left_mono)
    also have "\<dots> \<le> 2 * of_int a" using A(1) pk by simp
    finally show ?thesis using bq by (simp add: x field_simps)
  qed
  have il: "ilog2 x = (if 2 powi k \<le> x then k else k - 1)"
    by (simp add: ilog2_def q k_def Let_def)
  have half: "(2 powi (k - 1) :: rat) * 2 = 2 powi k"
    by (simp add: power_int_diff)
  show "2 powi ilog2 x \<le> x" using il low half by auto
  show "x < 2 powi (ilog2 x + 1)"
    using il up half by (auto simp: power_int_add)
qed

lemma two_powi_less: "(2 powi j :: rat) < 2 powi k \<Longrightarrow> j < k"
  by (rule ccontr) (use power_int_increasing [of k j "2 :: rat"] in auto)

lemma two_powi_le: "(2 powi j :: rat) \<le> 2 powi k \<Longrightarrow> j \<le> k"
  by (rule ccontr) (use power_int_strict_increasing [of k j "2 :: rat"] in auto)

lemma round_even_mono: "x \<le> y \<Longrightarrow> round_even x \<le> round_even y"
proof -
  assume xy: "x \<le> y"
  then have fl: "\<lfloor>x\<rfloor> \<le> \<lfloor>y\<rfloor>" by (rule floor_mono)
  show ?thesis
  proof (cases "\<lfloor>x\<rfloor> = \<lfloor>y\<rfloor>")
    case True
    then show ?thesis using xy by (auto simp: round_even_def Let_def)
  next
    case False
    with fl have "\<lfloor>x\<rfloor> + 1 \<le> \<lfloor>y\<rfloor>" by linarith
    then show ?thesis by (auto simp: round_even_def Let_def)
  qed
qed

lemma round_even_of_int [simp]: "round_even (of_int n) = n"
  by (simp add: round_even_def)

lemma round_even_error: "\<bar>of_int (round_even y) - y\<bar> \<le> 1 / 2"
proof -
  have "of_int \<lfloor>y\<rfloor> \<le> y" "y < of_int \<lfloor>y\<rfloor> + 1" by linarith+
  then show ?thesis by (auto simp: round_even_def Let_def abs_le_iff)
qed


lemma ilog2_mono:
  assumes "0 < x" "x \<le> y"
  shows "ilog2 x \<le> ilog2 y"
proof -
  have "(2 powi ilog2 x :: rat) < 2 powi (ilog2 y + 1)"
    using ilog2_bounds [of x] ilog2_bounds [of y] assms by linarith
  then have "ilog2 x < ilog2 y + 1"
    by (rule two_powi_less)
  then show ?thesis by simp
qed

lemma two_powi_split: "e \<le> k \<Longrightarrow> (2 powi k :: rat) = of_int (2 ^ nat (k - e)) * 2 powi e"
proof -
  assume "e \<le> k"
  then have "k = int (nat (k - e)) + e" by simp
  also have "(2 powi \<dots> :: rat) = 2 powi int (nat (k - e)) * 2 powi e"
    by (rule power_int_add) simp
  finally show ?thesis using \<open>e \<le> k\<close> by (simp add: power_int_def)
qed

lemma fl_pos_le:
  assumes "x \<le> of_int n * 2 powi e" "e = ulp_exp x"
  shows "fl_pos x \<le> of_int n * 2 powi e"
proof -
  have "x / 2 powi e \<le> of_int n"
    using assms(1) by (simp add: divide_le_eq)
  then have "round_even (x / 2 powi e) \<le> n"
    using round_even_mono by fastforce
  then show ?thesis
    unfolding fl_pos_def assms(2) [symmetric] by (simp add: mult_right_mono)
qed

lemma fl_pos_ge:
  assumes "of_int n * 2 powi e \<le> x" "e = ulp_exp x"
  shows "of_int n * 2 powi e \<le> fl_pos x"
proof -
  have "of_int n \<le> x / 2 powi e"
    using assms(1) by (simp add: le_divide_eq)
  then have "n \<le> round_even (x / 2 powi e)"
    using round_even_mono by fastforce
  then show ?thesis
    unfolding fl_pos_def assms(2) [symmetric] by (simp add: mult_right_mono)
qed

lemma fl_pos_mono:
  assumes "0 < x" "x \<le> y"
  shows "fl_pos x \<le> fl_pos y"
proof (cases "ulp_exp x = ulp_exp y")
  case True
  have "round_even (x / 2 powi ulp_exp y) \<le> round_even (y / 2 powi ulp_exp y)"
    using assms(2) by (intro round_even_mono divide_right_mono) auto
  then show ?thesis
    by (simp add: fl_pos_def True mult_right_mono)
next
  case False
  define k where "k = ilog2 y"
  have lt: "ilog2 x < k" and ey: "ulp_exp y = k - 52" and ex: "ulp_exp x \<le> k"
    using False ilog2_mono [OF assms] by (auto simp: ulp_exp_def k_def)
  have "(2 powi (ilog2 x + 1) :: rat) \<le> 2 powi k"
    using lt by (intro power_int_increasing) auto
  then have "x \<le> 2 powi k"
    using ilog2_bounds(2) [OF assms(1)] by linarith
  then have "fl_pos x \<le> 2 powi k"
    using fl_pos_le [of x "2 ^ nat (k - ulp_exp x)" "ulp_exp x"] two_powi_split [OF ex] by simp
  also have "2 powi k \<le> fl_pos y"
    using fl_pos_ge [of "2 ^ nat (k - ulp_exp y)" "ulp_exp y" y] two_powi_split [of "ulp_exp y" k]
      ilog2_bounds(1) [of y] assms ey by (simp add: k_def)
  finally show ?thesis .
qed

lemma fl_pos_error: "\<bar>fl_pos x - x\<bar> \<le> 2 powi ulp_exp x / 2"
proof -
  let ?e = "ulp_exp x"
  have "fl_pos x - x = (of_int (round_even (x / 2 powi ?e)) - x / 2 powi ?e) * 2 powi ?e"
    by (simp add: fl_pos_def left_diff_distrib)
  then have "\<bar>fl_pos x - x\<bar> = \<bar>of_int (round_even (x / 2 powi ?e)) - x / 2 powi ?e\<bar> * 2 powi ?e"
    by (simp add: abs_mult)
  also have "\<dots> \<le> 1 / 2 * 2 powi ?e"
    by (intro mult_right_mono round_even_error) simp
  finally show ?thesis by simp
qed

lemma fl_pos_rel_error:
  assumes "2 powi (- 1022) \<le> x"
  shows "\<bar>fl_pos x - x\<bar> \<le> x * 2 powi (- 53)"
proof -
  have pos: "0 < x"
    using assms by (rule less_le_trans [rotated]) simp
  have "(2 powi (- 1022) :: rat) < 2 powi (ilog2 x + 1)"
    using assms ilog2_bounds(2) [OF pos] by linarith
  then have "- 1022 < ilog2 x + 1"
    by (rule two_powi_less)
  then have e: "ulp_exp x = ilog2 x - 52" by (simp add: ulp_exp_def)
  have "2 powi ulp_exp x / 2 = (2 powi ilog2 x * 2 powi (- 53) :: rat)"
    by (simp add: e power_int_diff power_int_minus)
  also have "\<dots> \<le> x * 2 powi (- 53)"
    using ilog2_bounds(1) [OF pos] by (intro mult_right_mono) auto
  finally show ?thesis
    using fl_pos_error [of x] by linarith
qed

lemma fl_nonneg: "0 \<le> x \<Longrightarrow> 0 \<le> fl x"
proof -
  assume "0 \<le> x"
  have "0 \<le> fl_pos x" if "0 < x"
    using fl_pos_ge [of 0 "ulp_exp x" x] that by simp
  with \<open>0 \<le> x\<close> show ?thesis by (auto simp: fl_def)
qed

lemma fl_mono: "0 \<le> x \<Longrightarrow> x \<le> y \<Longrightarrow> fl x \<le> fl y"
  using fl_nonneg [of y] fl_pos_mono [of x y] by (cases "x = 0") (auto simp: fl_def)

text \<open>A number with at most 53 significant bits is a value of the format.\<close>

lemma fl_exact:
  assumes x: "x = of_int m * 2 powi k" and m: "0 < m" "m \<le> 2 ^ 53" and k: "- 1074 \<le> k"
  shows "fl x = x"
proof -
  have pos: "0 < x" using x m by simp
  have "ulp_exp x \<le> k" if "m < 2 ^ 53"
  proof -
    have "(of_int m :: rat) < of_int (2 ^ 53)" using that by (simp only: of_int_less_iff)
    then have "x < 2 powi 53 * 2 powi k" using x by simp
    then have "(2 powi ilog2 x :: rat) < 2 powi (53 + k)"
      using ilog2_bounds(1) [OF pos] by (simp add: power_int_add)
    then have "ilog2 x < 53 + k"
      by (rule two_powi_less)
    with k show ?thesis by (simp add: ulp_exp_def)
  qed
  moreover have "ulp_exp x \<le> k + 53" if "m = 2 ^ 53"
  proof -
    have "x = 2 powi (53 + k)" using x that by (simp add: power_int_add)
    then have "(2 powi ilog2 x :: rat) \<le> 2 powi (53 + k)"
      using ilog2_bounds(1) [OF pos] by simp
    then have "ilog2 x \<le> 53 + k"
      by (rule two_powi_le)
    with k show ?thesis by (simp add: ulp_exp_def)
  qed
  ultimately obtain n where n: "x = of_int n * 2 powi ulp_exp x"
  proof (cases "m < 2 ^ 53")
    case True
    with \<open>m < 2 ^ 53 \<Longrightarrow> ulp_exp x \<le> k\<close> have "x = of_int (m * 2 ^ nat (k - ulp_exp x)) * 2 powi ulp_exp x"
      using two_powi_split [of "ulp_exp x" k] x by simp
    then show ?thesis by (rule that)
  next
    case False
    with m have m53: "m = 2 ^ 53" by simp
    then have "x = 2 powi (k + 53)" using x by (simp add: power_int_add)
    then have "x = of_int (2 ^ nat (k + 53 - ulp_exp x)) * 2 powi ulp_exp x"
      using two_powi_split [of "ulp_exp x" "k + 53"] m53 \<open>m = 2 ^ 53 \<Longrightarrow> ulp_exp x \<le> k + 53\<close> by simp
    then show ?thesis by (rule that)
  qed
  have "fl_pos x = x"
    using fl_pos_le [of x n "ulp_exp x"] fl_pos_ge [of n "ulp_exp x" x] n by simp
  with pos show ?thesis by (simp add: fl_def)
qed

lemma fl_of_nat: "n \<le> 2 ^ 53 \<Longrightarrow> fl (of_nat n) = of_nat n"
  using fl_exact [of "of_nat n" "int n" 0] by (cases "n = 0") (auto simp: fl_def)

lemma f64_of_nat_exact: "n \<le> 2 ^ 53 \<Longrightarrow> f64_of_nat n = Fin (of_nat n)"
proof -
  assume n: "n \<le> 2 ^ 53"
  then have "(of_nat n :: rat) \<le> of_nat (2 ^ 53)" by (simp only: of_nat_le_iff)
  moreover have "(of_nat (2 ^ 53) :: rat) < 2 powi 1024" by simp
  ultimately have "(of_nat n :: rat) < 2 powi 1024" by linarith
  moreover have "- (2 powi 1024) < (0 :: rat)" by simp
  ultimately show ?thesis
    using n by (simp add: f64_of_nat_def round_f64_def fl_of_nat Let_def not_le)
qed

end
