(* ===== verification/Cli_Args.thy ===== *)
theory Cli_Args
  imports Client_Error Wisp_Float
begin

text \<open>
  The command-line surface (\<^verbatim>\<open>src/cli.rs\<close>): the argument structures with the constraints their
  \<^verbatim>\<open>clap\<close> attributes declare, and the methods that resolve them. The build with every feature is
  modelled; without \<^verbatim>\<open>tls\<close> or \<^verbatim>\<open>websocket\<close> the flags of that feature cannot be set.
\<close>

unbundle bit_operations_syntax

section \<open>The process environment\<close>

text \<open>What the operating system answers, and the standard error output with its one-shot warnings.\<close>

record os =
  read_file :: "string \<Rightarrow> io_error + u8 list"
  file_mode :: "string \<Rightarrow> u32 option"
  env_var :: "string \<Rightarrow> u8 list option"
  stdin_bytes :: "io_error + u8 list"
  stdin_line_reads :: "(io_error + string) list"
  stdout_is_terminal :: bool
  process_id :: nat
  clock_subsec_nanos :: "nat option"

record process =
  warned_mode :: bool
  warned_plaintext :: bool
  stderr :: "string list"

section \<open>Constants\<close>

definition DEFAULT_MAX_PACKET_SIZE :: u32 where
  "DEFAULT_MAX_PACKET_SIZE = 1024 * 1024"

definition PROTOCOL_MAX_PACKET_SIZE :: u32 where
  "PROTOCOL_MAX_PACKET_SIZE = 268435455"

definition PASSWORD_ENV_VAR :: string where
  "PASSWORD_ENV_VAR = ''WISPMQ_PASSWORD''"

definition DEFAULT_MAX_MESSAGES :: u64 where
  "DEFAULT_MAX_MESSAGES = 1000000"

section \<open>Argument structures\<close>

datatype protocol = Proto_V5 | Proto_V311 | Proto_V31

record connection_args =
  ca_broker :: string
  ca_port_arg :: "u16 option"
  ca_client_id :: "string option"
  ca_protocol :: protocol
  ca_user :: "string option"
  ca_password :: "string option"
  ca_password_file :: "string option"
  ca_keepalive :: u16
  ca_max_packet_size :: u32
  ca_persistent_session :: bool
  ca_tls :: bool
  ca_cafile :: "string option"
  ca_cert :: "string option"
  ca_key :: "string option"
  ca_insecure :: bool
  ca_websocket :: bool
  ca_will_topic :: "string option"
  ca_will_payload :: "string option"
  ca_will_qos :: u8
  ca_will_retain :: bool

text \<open>
  What the attributes \<^verbatim>\<open>conflicts_with\<close>, \<^verbatim>\<open>requires\<close>, \<^verbatim>\<open>requires_all\<close> and \<^verbatim>\<open>range\<close> on the fields
  demand of a parsed structure.
\<close>

definition clap_connection_ok :: "connection_args \<Rightarrow> bool" where
  "clap_connection_ok a \<longleftrightarrow>
     \<not> (ca_password a \<noteq> None \<and> ca_password_file a \<noteq> None)
   \<and> (ca_persistent_session a \<longrightarrow> ca_client_id a \<noteq> None)
   \<and> (ca_cafile a \<noteq> None \<longrightarrow> ca_tls a)
   \<and> (ca_cert a \<noteq> None \<longrightarrow> ca_tls a \<and> ca_key a \<noteq> None)
   \<and> (ca_key a \<noteq> None \<longrightarrow> ca_tls a \<and> ca_cert a \<noteq> None)
   \<and> (ca_insecure a \<longrightarrow> ca_tls a)
   \<and> (ca_will_payload a \<noteq> None \<longrightarrow> ca_will_topic a \<noteq> None)
   \<and> (ca_will_retain a \<longrightarrow> ca_will_topic a \<noteq> None)
   \<and> (ca_will_qos a \<noteq> 0 \<longrightarrow> ca_will_topic a \<noteq> None)
   \<and> unat (ca_will_qos a) \<le> 2"

text \<open>The structure \<^verbatim>\<open>clap\<close> builds when no connection option is given.\<close>

definition default_connection :: connection_args where
  "default_connection = \<lparr>ca_broker = ''localhost'', ca_port_arg = None, ca_client_id = None,
     ca_protocol = Proto_V5, ca_user = None, ca_password = None, ca_password_file = None,
     ca_keepalive = 60, ca_max_packet_size = DEFAULT_MAX_PACKET_SIZE,
     ca_persistent_session = False, ca_tls = False, ca_cafile = None, ca_cert = None,
     ca_key = None, ca_insecure = False, ca_websocket = False, ca_will_topic = None,
     ca_will_payload = None, ca_will_qos = 0, ca_will_retain = False\<rparr>"

record pub_args =
  pa_conn :: connection_args
  pa_topic :: string
  pa_message :: "string option"
  pa_file :: "string option"
  pa_stdin_lines :: bool
  pa_qos :: u8
  pa_retain :: bool
  pa_user_properties :: "(string \<times> string) list"
  pa_message_expiry_interval :: "u32 option"
  pa_content_type :: "string option"
  pa_payload_format_indicator :: bool

definition clap_pub_ok :: "pub_args \<Rightarrow> bool" where
  "clap_pub_ok a \<longleftrightarrow> clap_connection_ok (pa_conn a)
   \<and> (pa_message a \<noteq> None \<longrightarrow> pa_file a = None \<and> \<not> pa_stdin_lines a)
   \<and> (pa_file a \<noteq> None \<longrightarrow> \<not> pa_stdin_lines a)
   \<and> unat (pa_qos a) \<le> 2"

record sub_args =
  sa_conn :: connection_args
  sa_topic :: "string list"
  sa_qos :: u8
  sa_show_topic :: bool
  sa_count :: "u64 option"
  sa_max_messages :: u64

record request_args =
  ra_conn :: connection_args
  ra_topic :: string
  ra_reply_topic :: string
  ra_message :: "string option"
  ra_qos :: u8
  ra_show_topic :: bool
  ra_count :: u64

record bench_args =
  ba_conn :: connection_args
  ba_publishers :: nat
  ba_subscribers :: nat
  ba_topic_prefix :: string
  ba_qos :: u8
  ba_payload_size :: nat
  ba_count :: "u64 option"
  ba_duration :: "u64 option"
  ba_rate :: "f64 option"
  ba_inflight :: nat
  ba_warmup :: u64
  ba_drain :: u64
  ba_json :: bool

datatype command =
    Cmd_Pub pub_args
  | Cmd_Sub sub_args
  | Cmd_Request request_args
  | Cmd_Bench bench_args

section \<open>Protocol versions\<close>

definition protocol_variants :: "protocol list" where
  "protocol_variants = [Proto_V5, Proto_V311, Proto_V31]"

text \<open>The spellings \<^verbatim>\<open>to_possible_value\<close> accepts for a version: its name and its alias.\<close>

fun possible_value :: "protocol \<Rightarrow> string list" where
  "possible_value Proto_V5 = [''5'', ''5.0'']"
| "possible_value Proto_V311 = [''3.1.1'', ''311'']"
| "possible_value Proto_V31 = [''3.1'', ''31'']"

text \<open>How \<^verbatim>\<open>ValueEnum\<close> parses an argument: the first variant with that spelling.\<close>

definition parse_protocol :: "string \<Rightarrow> protocol option" where
  "parse_protocol s = find (\<lambda>p. s \<in> set (possible_value p)) protocol_variants"

fun version_of_protocol :: "protocol \<Rightarrow> protocol_version" where
  "version_of_protocol Proto_V5 = V5"
| "version_of_protocol Proto_V311 = V3_1_1"
| "version_of_protocol Proto_V31 = V3_1"

section \<open>Methods of \<^verbatim>\<open>ConnectionArgs\<close>\<close>

definition clean_start :: "connection_args \<Rightarrow> bool" where
  "clean_start a \<longleftrightarrow> \<not> ca_persistent_session a"

definition version :: "connection_args \<Rightarrow> protocol_version" where
  "version a = version_of_protocol (ca_protocol a)"

definition port :: "connection_args \<Rightarrow> u16" where
  "port a = (let dflt = (if ca_tls a then 8883 else 1883) in
     case ca_port_arg a of Some p \<Rightarrow> p | None \<Rightarrow> dflt)"

definition max_packet_size :: "connection_args \<Rightarrow> string + u32" where
  "max_packet_size a = (let n = ca_max_packet_size a in
     if n = 0 then Inl ''--max-packet-size must be at least 1''
     else if PROTOCOL_MAX_PACKET_SIZE < n then
       Inl (''--max-packet-size '' @ show_nat (unat n) @ '' exceeds the protocol maximum ''
            @ show_nat (unat PROTOCOL_MAX_PACKET_SIZE))
     else Inr n)"

text \<open>The rendering \<^verbatim>\<open>{:04o}\<close>.\<close>

definition octal4 :: "nat \<Rightarrow> string" where
  "octal4 n = [digit_char (n div 512 mod 8), digit_char (n div 64 mod 8),
     digit_char (n div 8 mod 8), digit_char (n mod 8)]"

definition warn_if_readable_by_others :: "os \<Rightarrow> string \<Rightarrow> process \<Rightarrow> process" where
  "warn_if_readable_by_others sys path s = (case file_mode sys path of
      None \<Rightarrow> s
    | Some mode \<Rightarrow>
        if mode AND 63 \<noteq> 0 \<and> \<not> warned_mode s then
          s\<lparr>warned_mode := True,
            stderr := stderr s @ [''wispmq-cli: warning: '' @ path @ '' is readable by others (mode ''
              @ octal4 (unat (mode AND 4095)) @ ''); consider chmod 600'']\<rparr>
        else s)"

text \<open>The loop \<^verbatim>\<open>while matches!(bytes.last(), ...) { bytes.pop(); }\<close>.\<close>

function strip_line_ends :: "u8 list \<Rightarrow> u8 list" where
  "strip_line_ends bytes =
     (if bytes \<noteq> [] \<and> (last bytes = 10 \<or> last bytes = 13) then strip_line_ends (butlast bytes)
      else bytes)"
  by pat_completeness auto
termination
  by (relation "measure length") auto

declare strip_line_ends.simps [simp del]

definition password ::
  "os \<Rightarrow> connection_args \<Rightarrow> process \<Rightarrow> (io_error + u8 list option) \<times> process" where
  "password sys a s = (case ca_password_file a of
      Some path \<Rightarrow>
        let s' = warn_if_readable_by_others sys path s in
        (case read_file sys path of
           Inl e \<Rightarrow> (Inl e, s')
         | Inr bytes \<Rightarrow> (Inr (Some (strip_line_ends bytes)), s'))
    | None \<Rightarrow>
        (case ca_password a of
           Some p \<Rightarrow> (Inr (Some (as_bytes p)), s)
         | None \<Rightarrow> (Inr (env_var sys PASSWORD_ENV_VAR), s)))"

text \<open>\<open>None\<close> stands for the panic of \<^verbatim>\<open>expect\<close>.\<close>

definition will :: "protocol_crate \<Rightarrow> connection_args \<Rightarrow> will_message option option" where
  "will P a = (case ca_will_topic a of
      None \<Rightarrow> Some None
    | Some topic \<Rightarrow> (case qos_from_u8 P (ca_will_qos a) of
          Inl e \<Rightarrow> None
        | Inr q \<Rightarrow> Some (Some \<lparr>will_msg_qos = q, will_msg_retain = ca_will_retain a,
            will_msg_properties = properties_new, will_msg_topic = topic,
            will_msg_payload = as_bytes (case ca_will_payload a of Some p \<Rightarrow> p | None \<Rightarrow> [])\<rparr>)))"

definition has_password_source :: "os \<Rightarrow> connection_args \<Rightarrow> bool" where
  "has_password_source sys a \<longleftrightarrow>
     ca_password_file a \<noteq> None \<or> ca_password a \<noteq> None \<or> env_var sys PASSWORD_ENV_VAR \<noteq> None"

definition warn_if_plaintext_password :: "os \<Rightarrow> connection_args \<Rightarrow> process \<Rightarrow> process" where
  "warn_if_plaintext_password sys a s =
     (if has_password_source sys a \<and> \<not> ca_tls a \<and> \<not> warned_plaintext s then
        s\<lparr>warned_plaintext := True,
          stderr := stderr s @ [''wispmq-cli: warning: sending a password without --tls; it crosses the network in the clear'']\<rparr>
      else s)"

text \<open>
  The fields \<^verbatim>\<open>Debug::fmt\<close> hands to \<^verbatim>\<open>debug_struct\<close>, in order; how the standard library lays
  them out is left open.
\<close>

datatype debug_value =
    Dbg_str string
  | Dbg_num nat
  | Dbg_bool bool
  | Dbg_protocol protocol
  | Dbg_opt "debug_value option"

definition debug_connection :: "connection_args \<Rightarrow> (string \<times> debug_value) list" where
  "debug_connection a = (let opt_str = (\<lambda>x. Dbg_opt (map_option Dbg_str x)) in
     [(''broker'', Dbg_str (ca_broker a)),
      (''port_arg'', Dbg_opt (map_option (\<lambda>p. Dbg_num (unat p)) (ca_port_arg a))),
      (''client_id'', opt_str (ca_client_id a)),
      (''protocol'', Dbg_protocol (ca_protocol a)),
      (''user'', opt_str (ca_user a)),
      (''password'', Dbg_opt (map_option (\<lambda>_. Dbg_str ''<redacted>'') (ca_password a))),
      (''password_file'', opt_str (ca_password_file a)),
      (''keepalive'', Dbg_num (unat (ca_keepalive a))),
      (''max_packet_size'', Dbg_num (unat (ca_max_packet_size a))),
      (''persistent_session'', Dbg_bool (ca_persistent_session a)),
      (''tls'', Dbg_bool (ca_tls a)),
      (''cafile'', opt_str (ca_cafile a)),
      (''cert'', opt_str (ca_cert a)),
      (''key'', opt_str (ca_key a)),
      (''insecure'', Dbg_bool (ca_insecure a)),
      (''websocket'', Dbg_bool (ca_websocket a)),
      (''will_topic'', opt_str (ca_will_topic a)),
      (''will_payload'', opt_str (ca_will_payload a)),
      (''will_qos'', Dbg_num (unat (ca_will_qos a))),
      (''will_retain'', Dbg_bool (ca_will_retain a))])"

section \<open>Further parsing\<close>

text \<open>\<^verbatim>\<open>str::split_once\<close> on a single character.\<close>

fun split_once :: "char \<Rightarrow> string \<Rightarrow> (string \<times> string) option" where
  "split_once c [] = None"
| "split_once c (x # xs) = (if x = c then Some ([], xs)
     else map_option (\<lambda>(k, v). (x # k, v)) (split_once c xs))"

text \<open>
  The rendering \<^verbatim>\<open>{s:?}\<close> of a string: quoted, with the ASCII escapes; bytes of multi-byte
  characters are kept.
\<close>

definition debug_char :: "char \<Rightarrow> string" where
  "debug_char c = (let n = (of_char c :: nat); bs = char_of (92 :: nat) in
     if n = 34 \<or> n = 92 then [bs, c]
     else if n = 9 then [bs, CHR ''t''] else if n = 10 then [bs, CHR ''n'']
     else if n = 13 then [bs, CHR ''r''] else if n = 0 then [bs, CHR ''0'']
     else if n < 16 then bs # ''u{'' @ [digit_char n] @ ''}''
     else if n < 32 \<or> n = 127 then bs # ''u{'' @ [digit_char (n div 16), digit_char (n mod 16)] @ ''}''
     else [c])"

definition debug_str :: "string \<Rightarrow> string" where
  "debug_str s = char_of (34 :: nat) # concat (map debug_char s) @ [char_of (34 :: nat)]"

definition parse_user_property :: "string \<Rightarrow> string + string \<times> string" where
  "parse_user_property s = (case split_once CHR ''='' s of
      Some (k, v) \<Rightarrow> Inr (k, v)
    | None \<Rightarrow> Inl (''expected KEY=VALUE, got '' @ debug_str s))"

definition effective_limit :: "sub_args \<Rightarrow> u64 option" where
  "effective_limit a = (let ceiling = (if sa_max_messages a \<noteq> 0 then Some (sa_max_messages a) else None) in
     case (sa_count a, ceiling) of
       (Some x, Some y) \<Rightarrow> Some (min x y)
     | (Some x, None) \<Rightarrow> Some x
     | (None, Some y) \<Rightarrow> Some y
     | (None, None) \<Rightarrow> None)"

section \<open>Lemmas\<close>

lemma clap_default [simp]: "clap_connection_ok default_connection"
  by (simp add: clap_connection_ok_def default_connection_def)

lemma unat_PROTOCOL_MAX [simp]: "unat PROTOCOL_MAX_PACKET_SIZE = 268435455"
  by (simp add: PROTOCOL_MAX_PACKET_SIZE_def)

lemma max_packet_size_Inr_iff:
  "max_packet_size a = Inr n \<longleftrightarrow>
     n = ca_max_packet_size a \<and> 1 \<le> unat n \<and> unat n \<le> unat PROTOCOL_MAX_PACKET_SIZE"
  by (auto simp: max_packet_size_def Let_def word_less_nat_alt not_less Suc_le_eq unat_gt_0
      split: if_splits)

lemma strip_line_ends_eq:
  "strip_line_ends bytes = rev (dropWhile (\<lambda>b. b = 10 \<or> b = 13) (rev bytes))"
proof (induction bytes rule: rev_induct)
  case Nil
  show ?case by (subst strip_line_ends.simps) simp
next
  case (snoc b bs)
  then show ?case by (subst strip_line_ends.simps) simp
qed

lemma strip_line_ends_decompose:
  "\<exists>tail. bytes = strip_line_ends bytes @ tail \<and> set tail \<subseteq> {10, 13}
     \<and> (strip_line_ends bytes = [] \<or> last (strip_line_ends bytes) \<notin> {10, 13})"
proof -
  let ?p = "\<lambda>b. b = 10 \<or> b = (13 :: u8)"
  have "rev bytes = takeWhile ?p (rev bytes) @ dropWhile ?p (rev bytes)" by simp
  then have "bytes = strip_line_ends bytes @ rev (takeWhile ?p (rev bytes))"
    unfolding strip_line_ends_eq by (metis rev_append rev_rev_ident)
  moreover have "set (rev (takeWhile ?p (rev bytes))) \<subseteq> {10, 13}"
    by (auto dest: set_takeWhileD)
  moreover have "strip_line_ends bytes = [] \<or> last (strip_line_ends bytes) \<notin> {10, 13}"
    unfolding strip_line_ends_eq last_rev
    using hd_dropWhile [of ?p "rev bytes"] by auto
  ultimately show ?thesis by blast
qed

lemma split_once_Some_iff:
  "split_once c s = Some (k, v) \<longleftrightarrow> s = k @ c # v \<and> c \<notin> set k"
proof (induction s arbitrary: k)
  case Nil
  then show ?case by simp
next
  case (Cons x xs)
  show ?case
  proof (cases k)
    case Nil
    then show ?thesis by (cases "x = c") auto
  next
    case k: (Cons y ys)
    have "split_once c (x # xs) = Some (k, v) \<longleftrightarrow> x \<noteq> c \<and> x = y \<and> split_once c xs = Some (ys, v)"
      using k by auto
    with k show ?thesis using Cons.IH [of ys] by auto
  qed
qed

lemma split_once_None_iff: "split_once c s = None \<longleftrightarrow> c \<notin> set s"
  by (induction s) auto

lemma password_env_last:
  "ca_password_file a \<noteq> None \<or> ca_password a \<noteq> None \<Longrightarrow>
     password (sys\<lparr>env_var := f\<rparr>) a s = password sys a s"
  by (auto simp: password_def warn_if_readable_by_others_def split: option.splits)

lemma password_process_fields:
  "warned_plaintext (snd (password sys a s)) = warned_plaintext s"
  by (auto simp: password_def warn_if_readable_by_others_def Let_def split: option.splits sum.splits)

section \<open>Properties\<close>

text \<open>
  The packet ceiling a run uses is the given one and lies between 1 and the protocol maximum
  of 268435455 bytes; every other value of \<^verbatim>\<open>--max-packet-size\<close> is a usage error.
\<close>

theorem max_packet_size_in_range:
  "(max_packet_size a = Inr n \<longleftrightarrow> n = ca_max_packet_size a \<and> 1 \<le> unat n \<and> unat n \<le> 268435455)
   \<and> ((\<exists>e. max_packet_size a = Inl e) \<longleftrightarrow> ca_max_packet_size a = 0 \<or> 268435455 < unat (ca_max_packet_size a))"
  using max_packet_size_Inr_iff [of a n]
  by (auto simp: max_packet_size_def Let_def word_less_nat_alt)

text \<open>
  Where the password comes from. A password file wins over everything and its content counts up
  to its trailing line ends, all of which are cut and nothing else is; without a file the flag wins
  over the environment; the variable is used only when neither is given. Only an unreadable file is
  an error.
\<close>

theorem password_precedence:
  "(case ca_password_file a of
      Some path \<Rightarrow> (case read_file sys path of
          Inl e \<Rightarrow> fst (password sys a s) = Inl e
        | Inr bytes \<Rightarrow> (\<exists>pw tail. fst (password sys a s) = Inr (Some pw) \<and> bytes = pw @ tail
            \<and> set tail \<subseteq> {10, 13} \<and> (pw = [] \<or> last pw \<notin> {10, 13})))
    | None \<Rightarrow> fst (password sys a s) = Inr (case ca_password a of
          Some p \<Rightarrow> Some (as_bytes p) | None \<Rightarrow> env_var sys PASSWORD_ENV_VAR))"
proof (cases "ca_password_file a")
  case (Some path)
  show ?thesis
  proof (cases "read_file sys path")
    case (Inr bytes)
    then show ?thesis
      using Some strip_line_ends_decompose [of bytes] by (auto simp: password_def)
  qed (simp add: Some password_def)
qed (simp add: password_def split: option.splits)

theorem password_precedence_witness:
  "\<exists>pw tail. fst (password
       \<lparr>read_file = (\<lambda>_. Inr [115, 10]), file_mode = (\<lambda>_. None), env_var = (\<lambda>_. None),
        stdin_bytes = Inr [], stdin_line_reads = [], stdout_is_terminal = False, process_id = 1, clock_subsec_nanos = None\<rparr>
       (default_connection\<lparr>ca_password_file := Some ''f'', ca_password := Some ''p''\<rparr>)
       \<lparr>warned_mode = False, warned_plaintext = False, stderr = []\<rparr>) = Inr (Some pw)
     \<and> [115, 10] = pw @ tail \<and> set tail \<subseteq> {10, 13}"
  using password_precedence [where a = "default_connection\<lparr>ca_password_file := Some ''f'', ca_password := Some ''p''\<rparr>"
       and sys = "\<lparr>read_file = (\<lambda>_. Inr [115, 10]), file_mode = (\<lambda>_. None), env_var = (\<lambda>_. None),
        stdin_bytes = Inr [], stdin_line_reads = [], stdout_is_terminal = False, process_id = 1, clock_subsec_nanos = None\<rparr>"
       and s = "\<lparr>warned_mode = False, warned_plaintext = False, stderr = []\<rparr>"]
  by (simp add: default_connection_def) blast

text \<open>
  The debug rendering of the arguments never depends on the password: any two passwords give the
  same fields, so it cannot leak through logs.
\<close>

theorem debug_hides_password:
  "debug_connection (a\<lparr>ca_password := Some p\<rparr>) = debug_connection (a\<lparr>ca_password := Some q\<rparr>)
   \<and> map fst (debug_connection a) = [''broker'', ''port_arg'', ''client_id'', ''protocol'', ''user'', ''password'',
        ''password_file'', ''keepalive'', ''max_packet_size'', ''persistent_session'', ''tls'', ''cafile'', ''cert'',
        ''key'', ''insecure'', ''websocket'', ''will_topic'', ''will_payload'', ''will_qos'', ''will_retain'']"
  by (simp add: debug_connection_def Let_def)

text \<open>
  The two warnings are said once per process. Checking the same or another password file, or
  dialling again, after a warning was printed adds nothing to standard error.
\<close>

theorem warnings_once:
  "warn_if_readable_by_others sys p (warn_if_readable_by_others sys p s) = warn_if_readable_by_others sys p s
   \<and> (stderr (warn_if_readable_by_others sys p s) \<noteq> stderr s \<longrightarrow>
        warn_if_readable_by_others sys p' (warn_if_readable_by_others sys p s) = warn_if_readable_by_others sys p s)
   \<and> warn_if_plaintext_password sys a (warn_if_plaintext_password sys a s) = warn_if_plaintext_password sys a s
   \<and> (ca_tls a \<longrightarrow> warn_if_plaintext_password sys a s = s)"
  by (auto simp: warn_if_readable_by_others_def warn_if_plaintext_password_def split: option.splits)

theorem warnings_once_witness:
  "warn_if_plaintext_password
     \<lparr>read_file = (\<lambda>_. Inr []), file_mode = (\<lambda>_. Some 420), env_var = (\<lambda>_. None), stdin_bytes = Inr [],
      stdin_line_reads = [], stdout_is_terminal = False, process_id = 1, clock_subsec_nanos = None\<rparr>
     (default_connection\<lparr>ca_tls := True, ca_password := Some ''s''\<rparr>)
     \<lparr>warned_mode = False, warned_plaintext = False, stderr = []\<rparr>
   = \<lparr>warned_mode = False, warned_plaintext = False, stderr = []\<rparr>"
  using warnings_once
    [of "\<lparr>read_file = (\<lambda>_. Inr []), file_mode = (\<lambda>_. Some 420), env_var = (\<lambda>_. None), stdin_bytes = Inr [],
      stdin_line_reads = [], stdout_is_terminal = False, process_id = 1, clock_subsec_nanos = None\<rparr>" "[]"
      "\<lparr>warned_mode = False, warned_plaintext = False, stderr = []\<rparr>" "[]"
      "default_connection\<lparr>ca_tls := True, ca_password := Some ''s''\<rparr>"]
  by (simp add: default_connection_def)

text \<open>
  The number of messages \<^verbatim>\<open>sub\<close> prints before it ends. The limit is the smaller of \<^verbatim>\<open>--count\<close> and a
  non-zero \<^verbatim>\<open>--max-messages\<close>, whichever of them are given, and there is none exactly when no count is
  given and the ceiling is lifted with 0.
\<close>

theorem effective_limit_least:
  "(effective_limit a = None \<longleftrightarrow> sa_count a = None \<and> sa_max_messages a = 0)
   \<and> (effective_limit a = Some n \<longrightarrow>
        (sa_count a = Some n \<or> sa_max_messages a = n \<and> n \<noteq> 0)
      \<and> (\<forall>c. sa_count a = Some c \<longrightarrow> n \<le> c)
      \<and> (sa_max_messages a \<noteq> 0 \<longrightarrow> n \<le> sa_max_messages a))"
  by (auto simp: effective_limit_def Let_def min_def split: option.splits)

theorem effective_limit_least_witness:
  "effective_limit \<lparr>sa_conn = default_connection, sa_topic = [''t''], sa_qos = 0, sa_show_topic = False,
      sa_count = Some 3, sa_max_messages = 7\<rparr> = Some 3 \<and> (3 :: u64) \<le> 7"
  using effective_limit_least [of "\<lparr>sa_conn = default_connection, sa_topic = [''t''], sa_qos = 0, sa_show_topic = False,
      sa_count = Some 3, sa_max_messages = 7\<rparr>" 3]
  by (simp add: effective_limit_def Let_def min_def)

text \<open>
  A user property is split at its first equals sign: printing a key without one and any value
  and parsing it back gives the pair, every parsed pair prints to the argument, and an argument is
  refused exactly when it has no equals sign.
\<close>

theorem user_property_roundtrip:
  "(parse_user_property s = Inr (k, v) \<longleftrightarrow> s = k @ ''='' @ v \<and> CHR ''='' \<notin> set k)
   \<and> ((\<exists>e. parse_user_property s = Inl e) \<longleftrightarrow> CHR ''='' \<notin> set s)"
  using split_once_Some_iff [of "CHR ''=''" s k v] split_once_None_iff [of "CHR ''=''" s]
  by (cases "split_once CHR ''='' s") (auto simp: parse_user_property_def)

text \<open>
  Every spelling names one protocol version: an argument parses to a version exactly when it is
  that version's name or alias, so no spelling is shadowed by an earlier one.
\<close>

theorem parse_protocol_unambiguous: "parse_protocol s = Some p \<longleftrightarrow> s \<in> set (possible_value p)"
  by (cases p) (auto simp: parse_protocol_def protocol_variants_def)

end
