(* ===== verification/Tls_Config.thy ===== *)
theory Tls_Config
  imports Cli_Args
begin

text \<open>
  TLS and mutual TLS setup (\<^verbatim>\<open>src/transport/tls.rs\<close>). The crates \<^verbatim>\<open>rustls\<close>, \<^verbatim>\<open>rustls_pemfile\<close> and
  \<^verbatim>\<open>rustls_native_certs\<close> are the fields of \<open>tls_library\<close>; which roots, verifier and client
  certificate a connection is configured with is decided here.
\<close>

type_synonym cert = "u8 list"
type_synonym private_key = "u8 list"

datatype verifier = Root_Store "cert list" | NoServerVerification

record client_config =
  cc_verifier :: verifier
  cc_client_auth :: "(cert list \<times> private_key) option"

record ('tcp, 'tls) tls_library =
  pem_certs :: "u8 list \<Rightarrow> io_error + cert list"
  pem_private_key :: "u8 list \<Rightarrow> io_error + private_key option"
  root_store_add :: "cert \<Rightarrow> string option"
  native_cert_errors :: "string list"
  native_certs :: "cert list"
  parsable_cert :: "cert \<Rightarrow> bool"
  client_auth_fault :: "cert list \<Rightarrow> private_key \<Rightarrow> string option"
  server_name_of :: "string \<Rightarrow> string + string"
  tls_handshake :: "client_config \<Rightarrow> string \<Rightarrow> 'tcp \<Rightarrow> io_error + 'tls"

section \<open>Loading certificates and keys\<close>

definition load_certs :: "('tcp, 'tls) tls_library \<Rightarrow> os \<Rightarrow> string \<Rightarrow> error + cert list" where
  "load_certs L sys path = (case read_file sys path of
      Inl e \<Rightarrow> Inl (Usage (path @ '': '' @ e))
    | Inr bytes \<Rightarrow> (case pem_certs L bytes of
          Inl e \<Rightarrow> Inl (Usage (path @ '': '' @ e))
        | Inr certs \<Rightarrow>
            if certs = [] then Inl (Usage (path @ '': no PEM certificates found'')) else Inr certs))"

definition load_key :: "('tcp, 'tls) tls_library \<Rightarrow> os \<Rightarrow> string \<Rightarrow> error + private_key" where
  "load_key L sys path = (case read_file sys path of
      Inl e \<Rightarrow> Inl (Usage (path @ '': '' @ e))
    | Inr bytes \<Rightarrow> (case pem_private_key L bytes of
          Inl e \<Rightarrow> Inl (Usage (path @ '': '' @ e))
        | Inr None \<Rightarrow> Inl (Usage (path @ '': no private key found''))
        | Inr (Some key) \<Rightarrow> Inr key))"

text \<open>The loop over the bundle stops at the first certificate the store refuses.\<close>

fun add_all :: "('tcp, 'tls) tls_library \<Rightarrow> string \<Rightarrow> cert list \<Rightarrow> cert list \<Rightarrow> error + cert list" where
  "add_all L path store [] = Inr store"
| "add_all L path store (c # cs) = (case root_store_add L c of
      Some e \<Rightarrow> Inl (Usage (''--cafile '' @ path @ '': '' @ e))
    | None \<Rightarrow> add_all L path (store @ [c]) cs)"

definition load_root_store ::
  "('tcp, 'tls) tls_library \<Rightarrow> os \<Rightarrow> string option \<Rightarrow> process \<Rightarrow> (error + cert list) \<times> process" where
  "load_root_store L sys cafile s = (case cafile of
      Some path \<Rightarrow> (case load_certs L sys path of
          Inl e \<Rightarrow> (Inl e, s)
        | Inr certs \<Rightarrow> (add_all L path [] certs, s))
    | None \<Rightarrow>
        let s' = s\<lparr>stderr := stderr s @
              map (\<lambda>e. ''wispmq-cli: warning: reading a native root certificate: '' @ e) (native_cert_errors L)\<rparr>;
            store = filter (parsable_cert L) (native_certs L) in
        if length store = 0 then
          (Inl (Usage ''no usable certificates found in the OS trust store; pass --cafile''), s')
        else (Inr store, s'))"

section \<open>Configuration and connection\<close>

definition choose_verifier ::
  "('tcp, 'tls) tls_library \<Rightarrow> os \<Rightarrow> connection_args \<Rightarrow> process \<Rightarrow> (error + verifier) \<times> process" where
  "choose_verifier L sys a s =
     (if ca_insecure a then
        (Inr NoServerVerification,
         s\<lparr>stderr := stderr s @ [''wispmq-cli: warning: --insecure disables TLS server certificate verification'']\<rparr>)
      else (case load_root_store L sys (ca_cafile a) s of
          (Inl e, s') \<Rightarrow> (Inl e, s')
        | (Inr store, s') \<Rightarrow> (Inr (Root_Store store), s')))"

definition build_config ::
  "('tcp, 'tls) tls_library \<Rightarrow> os \<Rightarrow> connection_args \<Rightarrow> process \<Rightarrow> (error + client_config) \<times> process" where
  "build_config L sys a s = (case choose_verifier L sys a s of
      (Inl e, s') \<Rightarrow> (Inl e, s')
    | (Inr v, s') \<Rightarrow>
        (case (ca_cert a, ca_key a) of
           (Some cert, Some key) \<Rightarrow>
             (case load_certs L sys cert of
                Inl e \<Rightarrow> (Inl e, s')
              | Inr certs \<Rightarrow> (case load_key L sys key of
                    Inl e \<Rightarrow> (Inl e, s')
                  | Inr k \<Rightarrow> (case client_auth_fault L certs k of
                        Some e \<Rightarrow> (Inl (Usage (''--cert/--key: '' @ e)), s')
                      | None \<Rightarrow> (Inr \<lparr>cc_verifier = v, cc_client_auth = Some (certs, k)\<rparr>, s'))))
         | _ \<Rightarrow> (Inr \<lparr>cc_verifier = v, cc_client_auth = None\<rparr>, s')))"

definition tls_wrap ::
  "protocol_crate \<Rightarrow> ('tcp, 'tls) tls_library \<Rightarrow> os \<Rightarrow> 'tcp \<Rightarrow> connection_args \<Rightarrow> process \<Rightarrow>
     (error + 'tls) \<times> process" where
  "tls_wrap P L sys stream a s = (case build_config L sys a s of
      (Inl e, s') \<Rightarrow> (Inl e, s')
    | (Inr config, s') \<Rightarrow> (case server_name_of L (ca_broker a) of
          Inl e \<Rightarrow> (Inl (Usage (''--broker '' @ debug_str (ca_broker a)
                      @ '' is not a valid TLS server name: '' @ e)), s')
        | Inr name \<Rightarrow> (case tls_handshake L config name stream of
              Inl e \<Rightarrow> (Inl (from_io P e), s')
            | Inr t \<Rightarrow> (Inr t, s'))))"

section \<open>The verifier of \<^verbatim>\<open>--insecure\<close>\<close>

datatype signature_scheme =
    RSA_PKCS1_SHA1 | ECDSA_SHA1_Legacy | RSA_PKCS1_SHA256 | ECDSA_NISTP256_SHA256
  | RSA_PKCS1_SHA384 | ECDSA_NISTP384_SHA384 | RSA_PKCS1_SHA512 | ECDSA_NISTP521_SHA512
  | RSA_PSS_SHA256 | RSA_PSS_SHA384 | RSA_PSS_SHA512 | ED25519 | ED448

definition verify_server_cert :: "cert \<Rightarrow> cert list \<Rightarrow> string \<Rightarrow> u8 list \<Rightarrow> nat \<Rightarrow> string + unit" where
  "verify_server_cert end_entity intermediates server_name ocsp_response now = Inr ()"

definition verify_tls12_signature :: "u8 list \<Rightarrow> cert \<Rightarrow> u8 list \<Rightarrow> string + unit" where
  "verify_tls12_signature msg c dss = Inr ()"

definition verify_tls13_signature :: "u8 list \<Rightarrow> cert \<Rightarrow> u8 list \<Rightarrow> string + unit" where
  "verify_tls13_signature msg c dss = Inr ()"

definition supported_verify_schemes :: "signature_scheme list" where
  "supported_verify_schemes =
     [RSA_PKCS1_SHA1, ECDSA_SHA1_Legacy, RSA_PKCS1_SHA256, ECDSA_NISTP256_SHA256,
      RSA_PKCS1_SHA384, ECDSA_NISTP384_SHA384, RSA_PKCS1_SHA512, ECDSA_NISTP521_SHA512,
      RSA_PSS_SHA256, RSA_PSS_SHA384, RSA_PSS_SHA512, ED25519, ED448]"

section \<open>Lemmas\<close>

lemma load_certs_nonempty: "load_certs L sys path = Inr certs \<Longrightarrow> certs \<noteq> []"
  by (auto simp: load_certs_def split: sum.splits if_splits)

lemma add_all_store: "add_all L path store cs = Inr store' \<Longrightarrow> store' = store @ cs"
  by (induction L path store cs rule: add_all.induct) (auto split: option.splits)

lemma load_root_store_nonempty:
  "load_root_store L sys cafile s = (Inr store, s') \<Longrightarrow> store \<noteq> []"
  by (auto simp: load_root_store_def Let_def split: option.splits sum.splits if_splits
      dest: add_all_store load_certs_nonempty)

lemma load_root_store_cafile:
  "load_root_store L sys (Some path) s = (Inr store, s') \<Longrightarrow> load_certs L sys path = Inr store"
  by (auto simp: load_root_store_def split: sum.splits dest: add_all_store)

lemma choose_verifier_insecure:
  "choose_verifier L sys a s = (Inr v, s') \<Longrightarrow> v = NoServerVerification \<longleftrightarrow> ca_insecure a"
  by (auto simp: choose_verifier_def split: if_splits prod.splits sum.splits)

lemma choose_verifier_roots:
  "choose_verifier L sys a s = (Inr (Root_Store store), s') \<Longrightarrow> store \<noteq> []"
  by (auto simp: choose_verifier_def split: if_splits prod.splits sum.splits
      dest: load_root_store_nonempty)

lemma build_config_Inr:
  "build_config L sys a s = (Inr cfg, s') \<Longrightarrow>
     choose_verifier L sys a s = (Inr (cc_verifier cfg), s')
     \<and> (cc_client_auth cfg \<noteq> None \<longleftrightarrow> ca_cert a \<noteq> None \<and> ca_key a \<noteq> None)"
  by (auto simp: build_config_def split: prod.splits sum.splits option.splits)

end
