(* ===== verification/Ws_Stream.thy ===== *)
theory Ws_Stream
  imports Cli_Args
begin

text \<open>
  The WebSocket adapter (\<^verbatim>\<open>src/transport/ws.rs\<close>): \<^verbatim>\<open>WsByteStream\<close> turns the message stream of
  \<^verbatim>\<open>tokio_tungstenite\<close> into a byte stream. The library's stream and sink are the scripts of what
  their polls return; the adapter's own buffers and loops are modelled in full.
\<close>

section \<open>The library's stream and sink\<close>

datatype 'a poll = Ready 'a | Not_Ready

datatype message = Binary "u8 list" | Text string | Ping "u8 list" | Pong "u8 list" | Frame | Close_Frame

text \<open>One answer of \<^verbatim>\<open>poll_next\<close>: a message, an error, the end of the stream, or nothing yet.\<close>

datatype ws_item = Item message | Item_Error string | Stream_End | Item_Pending

text \<open>One answer of \<^verbatim>\<open>poll_ready\<close>, \<^verbatim>\<open>poll_flush\<close> or \<^verbatim>\<open>poll_close\<close> of the sink.\<close>

type_synonym sink_answer = "(string option) poll"

record websocket =
  incoming :: "ws_item list"
  ready_answers :: "sink_answer list"
  flush_answers :: "sink_answer list"
  close_answers :: "sink_answer list"
  send_faults :: "string option list"
  frames :: "u8 list list"

record ws_byte_stream =
  inner :: websocket
  read_buf :: "u8 list"
  read_pos :: nat
  write_buf :: "u8 list"
  sending :: bool

definition MQTT_SUBPROTOCOL :: string where
  "MQTT_SUBPROTOCOL = ''mqtt''"

definition WS_PATH :: string where
  "WS_PATH = ''/mqtt''"

definition ws_new :: "websocket \<Rightarrow> ws_byte_stream" where
  "ws_new w = \<lparr>inner = w, read_buf = [], read_pos = 0, write_buf = [], sending = False\<rparr>"

text \<open>The error text \<^verbatim>\<open>to_io_error\<close> keeps is the library error's own.\<close>

definition to_io_error :: "string \<Rightarrow> io_error" where
  "to_io_error e = e"

section \<open>The Upgrade handshake\<close>

text \<open>
  What the crates \<^verbatim>\<open>http\<close> and \<^verbatim>\<open>tungstenite\<close> answer: whether a URI parses, the Upgrade request
  for a URI and a subprotocol, and the outcome of the handshake over a connected stream.
\<close>

record ('stream, 'req) ws_library =
  uri_fault :: "string \<Rightarrow> string option"
  client_request :: "string \<Rightarrow> string \<Rightarrow> string + 'req"
  client_async :: "'req \<Rightarrow> 'stream \<Rightarrow> string + websocket"

definition ws_uri :: "connection_args \<Rightarrow> string" where
  "ws_uri a = ''ws://'' @ ca_broker a @ '':'' @ show_nat (unat (port a)) @ WS_PATH"

definition ws_wrap :: "('stream, 'req) ws_library \<Rightarrow> 'stream \<Rightarrow> connection_args \<Rightarrow> error + ws_byte_stream" where
  "ws_wrap W stream a = (case uri_fault W (ws_uri a) of
      Some e \<Rightarrow> Inl (Usage (''--broker '' @ debug_str (ca_broker a) @ '': '' @ e))
    | None \<Rightarrow> (case client_request W (ws_uri a) MQTT_SUBPROTOCOL of
          Inl e \<Rightarrow> Inl (Usage (''building the WebSocket Upgrade request: '' @ e))
        | Inr request \<Rightarrow> (case client_async W request stream of
              Inl e \<Rightarrow> Inl (Usage (''WebSocket Upgrade failed: '' @ e))
            | Inr ws \<Rightarrow> Inr (ws_new ws))))"

section \<open>Reading\<close>

text \<open>
  \<^verbatim>\<open>poll_read\<close> with room for \<open>room\<close> more bytes: the bytes put into the caller's buffer, or an
  error. The library's items are consumed one per turn of the loop; when it has nothing yet the
  task is left waiting with the buffers already reset.
\<close>

definition take_buffered :: "nat \<Rightarrow> ws_byte_stream \<Rightarrow> u8 list \<times> ws_byte_stream" where
  "take_buffered room s = (let n = min (length (read_buf s) - read_pos s) room in
     (take n (drop (read_pos s) (read_buf s)), s\<lparr>read_pos := read_pos s + n\<rparr>))"

fun pull_items ::
  "nat \<Rightarrow> ws_item list \<Rightarrow> ws_byte_stream \<Rightarrow> (io_error + u8 list) poll \<times> ws_byte_stream" where
  "pull_items room [] s = (Not_Ready, s\<lparr>inner := (inner s)\<lparr>incoming := []\<rparr>\<rparr>)"
| "pull_items room (it # its) s = (let s' = s\<lparr>inner := (inner s)\<lparr>incoming := its\<rparr>\<rparr> in
     case it of
       Item_Pending \<Rightarrow> (Not_Ready, s')
     | Item_Error e \<Rightarrow> (Ready (Inl (to_io_error e)), s')
     | Stream_End \<Rightarrow> (Ready (Inr []), s')
     | Item Close_Frame \<Rightarrow> (Ready (Inr []), s')
     | Item (Binary bytes) \<Rightarrow>
         if bytes = [] then pull_items room its s'
         else (case take_buffered room (s'\<lparr>read_buf := bytes, read_pos := 0\<rparr>) of
                 (out, t) \<Rightarrow> (Ready (Inr out), t))
     | Item _ \<Rightarrow> pull_items room its s')"

definition ws_poll_read ::
  "nat \<Rightarrow> ws_byte_stream \<Rightarrow> (io_error + u8 list) poll \<times> ws_byte_stream" where
  "ws_poll_read room s =
     (if read_pos s < length (read_buf s) then
        (case take_buffered room s of (out, t) \<Rightarrow> (Ready (Inr out), t))
      else pull_items room (incoming (inner s)) (s\<lparr>read_buf := [], read_pos := 0\<rparr>))"

section \<open>Writing\<close>

definition ws_poll_write :: "u8 list \<Rightarrow> ws_byte_stream \<Rightarrow> (io_error + nat) poll \<times> ws_byte_stream" where
  "ws_poll_write buf s = (Ready (Inr (length buf)), s\<lparr>write_buf := write_buf s @ buf\<rparr>)"

text \<open>The next scripted answer of a sink poll; an exhausted script is not ready.\<close>

fun next_answer :: "sink_answer list \<Rightarrow> sink_answer \<times> sink_answer list" where
  "next_answer [] = (Not_Ready, [])"
| "next_answer (a # as) = (a, as)"

definition sink_poll_flush :: "websocket \<Rightarrow> sink_answer \<times> websocket" where
  "sink_poll_flush w = (case next_answer (flush_answers w) of (a, r) \<Rightarrow> (a, w\<lparr>flush_answers := r\<rparr>))"

definition sink_poll_ready :: "websocket \<Rightarrow> sink_answer \<times> websocket" where
  "sink_poll_ready w = (case next_answer (ready_answers w) of (a, r) \<Rightarrow> (a, w\<lparr>ready_answers := r\<rparr>))"

definition sink_poll_close :: "websocket \<Rightarrow> sink_answer \<times> websocket" where
  "sink_poll_close w = (case next_answer (close_answers w) of (a, r) \<Rightarrow> (a, w\<lparr>close_answers := r\<rparr>))"

text \<open>\<^verbatim>\<open>start_send\<close> takes one binary message, or fails.\<close>

definition sink_start_send :: "u8 list \<Rightarrow> websocket \<Rightarrow> string option \<times> websocket" where
  "sink_start_send bytes w = (case send_faults w of
      Some e # r \<Rightarrow> (Some e, w\<lparr>send_faults := r\<rparr>)
    | None # r \<Rightarrow> (None, w\<lparr>send_faults := r, frames := frames w @ [bytes]\<rparr>)
    | [] \<Rightarrow> (None, w\<lparr>frames := frames w @ [bytes]\<rparr>))"

text \<open>
  \<^verbatim>\<open>poll_flush\<close>: the loop turns at most twice, since a turn that starts a send sets \<^verbatim>\<open>sending\<close>,
  and a turn with \<^verbatim>\<open>sending\<close> set returns.
\<close>

definition flush_in_progress :: "ws_byte_stream \<Rightarrow> (io_error + unit) poll \<times> ws_byte_stream" where
  "flush_in_progress s = (case sink_poll_flush (inner s) of
      (Ready None, w) \<Rightarrow> (Ready (Inr ()), s\<lparr>inner := w, sending := False\<rparr>)
    | (Ready (Some e), w) \<Rightarrow> (Ready (Inl (to_io_error e)), s\<lparr>inner := w\<rparr>)
    | (Not_Ready, w) \<Rightarrow> (Not_Ready, s\<lparr>inner := w\<rparr>))"

definition ws_poll_flush :: "ws_byte_stream \<Rightarrow> (io_error + unit) poll \<times> ws_byte_stream" where
  "ws_poll_flush s =
     (if sending s then flush_in_progress s
      else if write_buf s = [] then
        (case sink_poll_flush (inner s) of
           (Ready None, w) \<Rightarrow> (Ready (Inr ()), s\<lparr>inner := w\<rparr>)
         | (Ready (Some e), w) \<Rightarrow> (Ready (Inl (to_io_error e)), s\<lparr>inner := w\<rparr>)
         | (Not_Ready, w) \<Rightarrow> (Not_Ready, s\<lparr>inner := w\<rparr>))
      else
        (case sink_poll_ready (inner s) of
           (Ready None, w) \<Rightarrow>
             (case sink_start_send (write_buf s) w of
                (Some e, w') \<Rightarrow> (Ready (Inl (to_io_error e)), s\<lparr>inner := w', write_buf := []\<rparr>)
              | (None, w') \<Rightarrow> flush_in_progress (s\<lparr>inner := w', write_buf := [], sending := True\<rparr>))
         | (Ready (Some e), w) \<Rightarrow> (Ready (Inl (to_io_error e)), s\<lparr>inner := w\<rparr>)
         | (Not_Ready, w) \<Rightarrow> (Not_Ready, s\<lparr>inner := w\<rparr>)))"

definition ws_poll_shutdown :: "ws_byte_stream \<Rightarrow> (io_error + unit) poll \<times> ws_byte_stream" where
  "ws_poll_shutdown s = (case sink_poll_close (inner s) of
      (Ready None, w) \<Rightarrow> (Ready (Inr ()), s\<lparr>inner := w\<rparr>)
    | (Ready (Some e), w) \<Rightarrow> (Ready (Inl (to_io_error e)), s\<lparr>inner := w\<rparr>)
    | (Not_Ready, w) \<Rightarrow> (Not_Ready, s\<lparr>inner := w\<rparr>))"

section \<open>What the adapter means: the bytes still to read, the bytes written\<close>

text \<open>The payload bytes of the binary messages up to the end of the stream.\<close>

fun item_bytes :: "ws_item list \<Rightarrow> u8 list" where
  "item_bytes [] = []"
| "item_bytes (Item (Binary bs) # its) = bs @ item_bytes its"
| "item_bytes (Item Close_Frame # its) = []"
| "item_bytes (Stream_End # its) = []"
| "item_bytes (Item_Error e # its) = []"
| "item_bytes (it # its) = item_bytes its"

definition unread_bytes :: "ws_byte_stream \<Rightarrow> u8 list" where
  "unread_bytes s = drop (read_pos s) (read_buf s) @ item_bytes (incoming (inner s))"

definition written_bytes :: "ws_byte_stream \<Rightarrow> u8 list" where
  "written_bytes s = concat (frames (inner s)) @ write_buf s"

section \<open>Lemmas\<close>

lemma take_buffered_bytes:
  assumes "take_buffered room s = (out, t)"
  shows "drop (read_pos s) (read_buf s) = out @ drop (read_pos t) (read_buf t) \<and> inner t = inner s
     \<and> length out \<le> room \<and> read_buf t = read_buf s"
proof -
  define n where "n = min (length (read_buf s) - read_pos s) room"
  have "drop (read_pos s) (read_buf s) =
      take n (drop (read_pos s) (read_buf s)) @ drop (read_pos s + n) (read_buf s)"
    by (metis append_take_drop_id drop_drop add.commute)
  moreover have "length out \<le> room"
    using assms by (auto simp: take_buffered_def Let_def)
  ultimately show ?thesis
    using assms by (auto simp: take_buffered_def Let_def n_def)
qed

lemma pull_items_bytes:
  "read_pos s = 0 \<Longrightarrow> read_buf s = [] \<Longrightarrow> pull_items room its s = (Ready (Inr out), t) \<Longrightarrow>
     item_bytes its = out @ (if out = [] \<and> read_buf t = [] then [] else unread_bytes t)
     \<and> length out \<le> room"
proof (induction room its s rule: pull_items.induct)
  case (1 room s)
  then show ?case by simp
next
  case (2 room it its s)
  show ?case
  proof (cases it)
    case (Item m)
    then show ?thesis
      using 2 by (cases m)
        (auto simp: Let_def unread_bytes_def split: if_splits prod.splits dest!: take_buffered_bytes)
  qed (use 2 in \<open>auto simp: Let_def\<close>)
qed

text \<open>
  The interface a packet reader needs of a byte stream: what a read returns is the front of what
  was left to read.
\<close>

locale byte_source =
  fixes read :: "nat \<Rightarrow> 's \<Rightarrow> (io_error + u8 list) poll \<times> 's"
    and remaining :: "'s \<Rightarrow> u8 list"
  assumes read_front: "read room s = (Ready (Inr out), t) \<Longrightarrow> out \<noteq> [] \<Longrightarrow> remaining s = out @ remaining t"
    and read_pending: "read room s = (Not_Ready, t) \<Longrightarrow> remaining t = remaining s"
    and read_room: "read room s = (Ready (Inr out), t) \<Longrightarrow> length out \<le> room"
begin

text \<open>Any sequence of polls that end without an error or the end of the stream.\<close>

inductive reads :: "'s \<Rightarrow> u8 list \<Rightarrow> 's \<Rightarrow> bool" where
  reads_none: "reads s [] s"
| reads_some: "read room s = (Ready (Inr out), t) \<Longrightarrow> out \<noteq> [] \<Longrightarrow> reads t outs u \<Longrightarrow> reads s (out @ outs) u"
| reads_wait: "read room s = (Not_Ready, t) \<Longrightarrow> reads t outs u \<Longrightarrow> reads s outs u"

lemma reads_remaining: "reads s outs t \<Longrightarrow> remaining s = outs @ remaining t"
  by (induction rule: reads.induct) (simp_all add: read_front read_pending)

end

lemma pull_items_pending:
  "read_pos s = 0 \<Longrightarrow> read_buf s = [] \<Longrightarrow> pull_items room its s = (Not_Ready, t) \<Longrightarrow>
     unread_bytes t = item_bytes its"
proof (induction room its s rule: pull_items.induct)
  case (1 room s)
  then show ?case by (auto simp: unread_bytes_def)
next
  case (2 room it its s)
  show ?case
  proof (cases it)
    case (Item m)
    then show ?thesis
      using 2 by (cases m) (auto simp: Let_def split: if_splits prod.splits)
  qed (use 2 in \<open>auto simp: Let_def unread_bytes_def\<close>)
qed

lemma ws_poll_read_front:
  assumes "ws_poll_read room s = (Ready (Inr out), t)"
  shows "unread_bytes s = out @ (if out = [] \<and> read_buf t = [] then [] else unread_bytes t)"
    and "length out \<le> room"
proof -
  consider (buffered) "read_pos s < length (read_buf s)" "take_buffered room s = (out, t)"
    | (pull) "\<not> read_pos s < length (read_buf s)"
        "pull_items room (incoming (inner s)) (s\<lparr>read_buf := [], read_pos := 0\<rparr>) = (Ready (Inr out), t)"
    using assms by (auto simp: ws_poll_read_def split: if_splits prod.splits)
  then show "unread_bytes s = out @ (if out = [] \<and> read_buf t = [] then [] else unread_bytes t)"
    and "length out \<le> room"
    by (cases; force simp: unread_bytes_def dest: take_buffered_bytes pull_items_bytes [rotated 2])+
qed

lemma ws_poll_read_pending:
  "ws_poll_read room s = (Not_Ready, t) \<Longrightarrow> unread_bytes t = unread_bytes s"
  by (auto simp: ws_poll_read_def split: if_splits prod.splits dest!: pull_items_pending [rotated 2])
    (simp add: unread_bytes_def)

interpretation ws_source: byte_source ws_poll_read unread_bytes
  by unfold_locales (auto dest: ws_poll_read_front ws_poll_read_pending)

subsection \<open>Flushing\<close>

lemma sink_poll_flush_frames: "sink_poll_flush w = (a, w') \<Longrightarrow> frames w' = frames w"
  by (auto simp: sink_poll_flush_def split: prod.splits)

lemma sink_poll_ready_frames: "sink_poll_ready w = (a, w') \<Longrightarrow> frames w' = frames w"
  by (auto simp: sink_poll_ready_def split: prod.splits)

lemma sink_start_send_frames: "sink_start_send bs w = (None, w') \<Longrightarrow> frames w' = frames w @ [bs]"
  by (auto simp: sink_start_send_def split: list.splits option.splits)

lemma flush_in_progress_cases:
  "flush_in_progress s = (r, t) \<Longrightarrow>
     write_buf t = write_buf s \<and> frames (inner t) = frames (inner s)
     \<and> (r = Ready (Inr ()) \<longrightarrow> \<not> sending t) \<and> (r = Not_Ready \<longrightarrow> sending t = sending s)"
  by (auto simp: flush_in_progress_def split: prod.splits poll.splits option.splits
      dest: sink_poll_flush_frames)

text \<open>How far the bytes of one flushed write have come: still buffered, or handed over as one frame.\<close>

definition flush_phase :: "u8 list list \<Rightarrow> u8 list \<Rightarrow> ws_byte_stream \<Rightarrow> bool" where
  "flush_phase fs buf s \<longleftrightarrow>
     (if sending s then write_buf s = [] \<and> frames (inner s) = fs @ [buf]
      else write_buf s = buf \<and> frames (inner s) = fs)"

lemma ws_poll_flush_phase:
  assumes "ws_poll_flush s = (r, t)" "flush_phase fs buf s" "buf \<noteq> []"
  shows "r = Not_Ready \<Longrightarrow> flush_phase fs buf t"
    and "r = Ready (Inr ()) \<Longrightarrow> \<not> sending t \<and> write_buf t = [] \<and> frames (inner t) = fs @ [buf]"
  using assms
  by (auto simp: ws_poll_flush_def flush_phase_def
      split: if_splits prod.splits poll.splits option.splits
      dest!: flush_in_progress_cases sink_poll_ready_frames sink_start_send_frames)

text \<open>A caller that awaits the flush polls it until it is ready.\<close>

inductive flush_completes :: "ws_byte_stream \<Rightarrow> ws_byte_stream \<Rightarrow> bool" where
  flush_done: "ws_poll_flush s = (Ready (Inr ()), t) \<Longrightarrow> flush_completes s t"
| flush_again: "ws_poll_flush s = (Not_Ready, t) \<Longrightarrow> flush_completes t u \<Longrightarrow> flush_completes s u"

lemma flush_completes_phase:
  "flush_completes s t \<Longrightarrow> flush_phase fs buf s \<Longrightarrow> buf \<noteq> [] \<Longrightarrow>
     \<not> sending t \<and> write_buf t = [] \<and> frames (inner t) = fs @ [buf]"
  by (induction rule: flush_completes.induct) (blast dest: ws_poll_flush_phase)+

subsection \<open>The end of the stream\<close>

lemma take_buffered_nonempty:
  "read_pos s < length (read_buf s) \<Longrightarrow> 0 < room \<Longrightarrow> take_buffered room s = (out, t) \<Longrightarrow> out \<noteq> []"
  by (auto simp: take_buffered_def Let_def)

lemma pull_items_end:
  "read_pos s = 0 \<Longrightarrow> read_buf s = [] \<Longrightarrow> 0 < room \<Longrightarrow> pull_items room its s = (Ready (Inr []), t) \<Longrightarrow>
     item_bytes its = []"
proof (induction room its s rule: pull_items.induct)
  case (1 room s)
  then show ?case by simp
next
  case (2 room it its s)
  show ?case
  proof (cases it)
    case (Item m)
    then show ?thesis
      using 2 by (cases m) (auto simp: Let_def split: if_splits prod.splits dest!: take_buffered_nonempty [rotated 2])
  qed (use 2 in \<open>auto simp: Let_def\<close>)
qed

lemma ws_poll_read_end:
  "ws_poll_read room s = (Ready (Inr []), t) \<Longrightarrow> 0 < room \<Longrightarrow> unread_bytes s = []"
  by (auto simp: ws_poll_read_def unread_bytes_def split: if_splits prod.splits
      dest!: pull_items_end [rotated 3] dest: take_buffered_nonempty)

subsection \<open>Progress of a flush\<close>

lemma flush_in_progress_progress:
  "sending s \<Longrightarrow> flush_answers (inner s) = replicate j Not_Ready @ Ready None # fs \<Longrightarrow> \<exists>t. flush_completes s t"
proof (induction j arbitrary: s)
  case 0
  then have "\<exists>t. ws_poll_flush s = (Ready (Inr ()), t)"
    by (simp add: ws_poll_flush_def flush_in_progress_def sink_poll_flush_def)
  then show ?case by (blast intro: flush_done)
next
  case (Suc j)
  let ?t = "s\<lparr>inner := (inner s)\<lparr>flush_answers := replicate j Not_Ready @ Ready None # fs\<rparr>\<rparr>"
  have "ws_poll_flush s = (Not_Ready, ?t)"
    using Suc.prems by (simp add: ws_poll_flush_def flush_in_progress_def sink_poll_flush_def)
  then show ?case using Suc.IH [of ?t] Suc.prems by (auto intro: flush_again)
qed

lemma flush_progress:
  "\<not> sending s \<Longrightarrow> write_buf s \<noteq> [] \<Longrightarrow> send_faults (inner s) = [] \<Longrightarrow>
   ready_answers (inner s) = replicate i Not_Ready @ Ready None # rs \<Longrightarrow>
   flush_answers (inner s) = replicate j Not_Ready @ Ready None # fs \<Longrightarrow> \<exists>t. flush_completes s t"
proof (induction i arbitrary: s)
  case (Suc i)
  let ?t = "s\<lparr>inner := (inner s)\<lparr>ready_answers := replicate i Not_Ready @ Ready None # rs\<rparr>\<rparr>"
  have "ws_poll_flush s = (Not_Ready, ?t)"
    using Suc.prems by (simp add: ws_poll_flush_def sink_poll_ready_def)
  then show ?case using Suc.IH [of ?t] Suc.prems by (auto intro: flush_again)
next
  case 0
  let ?w = "(inner s)\<lparr>ready_answers := rs, frames := frames (inner s) @ [write_buf s]\<rparr>"
  let ?u = "s\<lparr>inner := ?w, write_buf := [], sending := True\<rparr>"
  have eq: "ws_poll_flush s = ws_poll_flush ?u"
    using 0 by (simp add: ws_poll_flush_def sink_poll_ready_def sink_start_send_def)
  have "\<exists>t. flush_completes ?u t" using flush_in_progress_progress [of ?u j fs] 0 by simp
  then show ?case using eq flush_completes.cases flush_done flush_again by metis
qed

section \<open>Properties\<close>

text \<open>
  C24: reading through the adapter is reading the byte stream. Whatever mixture of polls, room sizes,
  control messages and empty messages, the bytes a caller has received followed by the bytes still
  to come are the payloads of the binary messages in order; and an empty read means the stream is
  at its end.
\<close>

theorem ws_read_is_byte_stream:
  "(ws_source.reads s outs t \<longrightarrow> unread_bytes s = outs @ unread_bytes t)
   \<and> (ws_poll_read room s = (Ready (Inr []), t) \<and> 0 < room \<longrightarrow> unread_bytes s = [])"
  using ws_source.reads_remaining ws_poll_read_end by blast

definition sample_ws :: "ws_item list \<Rightarrow> ws_byte_stream" where
  "sample_ws its = ws_new \<lparr>incoming = its, ready_answers = [], flush_answers = [], close_answers = [],
     send_faults = [], frames = []\<rparr>"

theorem ws_read_is_byte_stream_witness:
  "unread_bytes (sample_ws [Item (Ping []), Item (Binary []), Item Close_Frame, Item (Binary [1])]) = []"
proof -
  let ?s = "sample_ws [Item (Ping []), Item (Binary []), Item Close_Frame, Item (Binary [1])]"
  have "\<exists>t. ws_poll_read 4 ?s = (Ready (Inr []), t)"
    by (simp add: ws_poll_read_def sample_ws_def ws_new_def Let_def)
  then show ?thesis using ws_read_is_byte_stream [of ?s _ _ 4] by auto
qed

text \<open>
  C25: one flushed write is one binary frame. Bytes written while no flush is under way go out, when
  the awaited flush completes, as exactly one frame holding all of them, with nothing left behind;
  and the flush does complete when the sink, after any number of polls that were not ready, becomes
  ready and accepts.
\<close>

theorem ws_flush_one_frame:
  assumes "\<not> sending s" "buf \<noteq> []"
  shows "\<exists>s'. ws_poll_write buf s = (Ready (Inr (length buf)), s')
     \<and> (\<forall>t. flush_completes s' t \<longrightarrow>
          frames (inner t) = frames (inner s) @ [write_buf s @ buf] \<and> write_buf t = [] \<and> \<not> sending t)
     \<and> (send_faults (inner s) = []
         \<and> (\<exists>i rs. ready_answers (inner s) = replicate i Not_Ready @ Ready None # rs)
         \<and> (\<exists>j fs. flush_answers (inner s) = replicate j Not_Ready @ Ready None # fs)
         \<longrightarrow> (\<exists>t. flush_completes s' t))"
proof -
  let ?s = "s\<lparr>write_buf := write_buf s @ buf\<rparr>"
  have "flush_phase (frames (inner s)) (write_buf s @ buf) ?s"
    using assms by (simp add: flush_phase_def)
  then have "flush_completes ?s t \<Longrightarrow>
      frames (inner t) = frames (inner s) @ [write_buf s @ buf] \<and> write_buf t = [] \<and> \<not> sending t" for t
    using assms(2) flush_completes_phase [of ?s t] by blast
  moreover have "send_faults (inner s) = [] \<Longrightarrow> ready_answers (inner s) = replicate i Not_Ready @ Ready None # rs \<Longrightarrow>
      flush_answers (inner s) = replicate j Not_Ready @ Ready None # fs \<Longrightarrow> \<exists>t. flush_completes ?s t" for i rs j fs
    using assms flush_progress [of ?s] by simp
  ultimately show ?thesis by (auto simp: ws_poll_write_def)
qed

theorem ws_flush_one_frame_witness:
  "\<exists>s'. ws_poll_write [1, 2] (ws_new \<lparr>incoming = [], ready_answers = [Not_Ready, Ready None],
       flush_answers = [Ready None], close_answers = [], send_faults = [], frames = []\<rparr>) = (Ready (Inr 2), s')
     \<and> (\<exists>t. flush_completes s' t \<and> frames (inner t) = [[1, 2]])"
proof -
  let ?s = "ws_new \<lparr>incoming = [], ready_answers = [Not_Ready, Ready None],
       flush_answers = [Ready None], close_answers = [], send_faults = [], frames = []\<rparr>"
  have s: "\<not> sending ?s" "send_faults (inner ?s) = []" "frames (inner ?s) = []" "write_buf ?s = []"
    "\<exists>i rs. ready_answers (inner ?s) = replicate i Not_Ready @ Ready None # rs"
    "\<exists>j fs. flush_answers (inner ?s) = replicate j Not_Ready @ Ready None # fs"
    by (simp_all add: ws_new_def exI [of _ "Suc 0"] exI [of _ 0])
  have "length [1, 2 :: u8] = 2" by simp
  with ws_flush_one_frame [of ?s "[1, 2]"] s show ?thesis
    by (metis append_Nil list.distinct(1))
qed

text \<open>
  What the adapter does not guarantee: a write made while an earlier, abandoned flush is still under
  way is reported flushed although its bytes have not been handed to the sink.
\<close>

theorem ws_flush_can_leave_bytes:
  "\<exists>w. let s0 = ws_new w; s1 = snd (ws_poll_write [1] s0); s2 = snd (ws_poll_flush s1);
         s3 = snd (ws_poll_write [2] s2) in
     fst (ws_poll_flush s1) = Not_Ready \<and> fst (ws_poll_flush s3) = Ready (Inr ())
   \<and> write_buf (snd (ws_poll_flush s3)) = [2] \<and> frames (inner (snd (ws_poll_flush s3))) = [[1]]"
  by (rule exI [of _ "\<lparr>incoming = [], ready_answers = [Ready None], flush_answers = [Not_Ready, Ready None],
      close_answers = [], send_faults = [], frames = []\<rparr>"])
    (simp add: ws_new_def ws_poll_write_def ws_poll_flush_def flush_in_progress_def sink_poll_flush_def
      sink_poll_ready_def sink_start_send_def)

end
