(* ===== verification/Transport.thy ===== *)
theory Transport
  imports Tls_Config Ws_Stream
begin

text \<open>
  The one place that dials (\<^verbatim>\<open>src/transport.rs\<close>): the four kinds of connected stream, the
  delegation of their polls, the split into halves, and \<^verbatim>\<open>connect\<close> composing the flags
  \<^verbatim>\<open>--tls\<close> and \<^verbatim>\<open>--websocket\<close>. Sockets, TLS sessions and the frame codec are outside the
  repository and are the fields of \<open>network\<close>.
\<close>

datatype ('tcp, 'tls) transport_stream =
    Tcp 'tcp
  | Tls 'tls
  | Ws ws_byte_stream
  | Wss ws_byte_stream

record ('tcp, 'tls, 'req) network =
  tcp_connect :: "string \<Rightarrow> u16 \<Rightarrow> io_error + 'tcp"
  set_nodelay :: "'tcp \<Rightarrow> io_error + 'tcp"
  tls_crates :: "('tcp, 'tls) tls_library"
  ws_over_tcp :: "('tcp, 'req) ws_library"
  ws_over_tls :: "('tls, 'req) ws_library"
  framing :: "('tcp, 'tls) transport_stream \<Rightarrow> stream"

section \<open>Polling\<close>

text \<open>The polls of a socket or a TLS session, which the operating system and the crates provide.\<close>

record 'a poll_ops =
  poll_read_op :: "nat \<Rightarrow> 'a \<Rightarrow> (io_error + u8 list) poll \<times> 'a"
  poll_write_op :: "u8 list \<Rightarrow> 'a \<Rightarrow> (io_error + nat) poll \<times> 'a"
  poll_flush_op :: "'a \<Rightarrow> (io_error + unit) poll \<times> 'a"
  poll_shutdown_op :: "'a \<Rightarrow> (io_error + unit) poll \<times> 'a"

definition delegate ::
  "('tcp \<Rightarrow> 'r \<times> 'tcp) \<Rightarrow> ('tls \<Rightarrow> 'r \<times> 'tls) \<Rightarrow> (ws_byte_stream \<Rightarrow> 'r \<times> ws_byte_stream) \<Rightarrow>
     ('tcp, 'tls) transport_stream \<Rightarrow> 'r \<times> ('tcp, 'tls) transport_stream" where
  "delegate f g h s = (case s of
      Tcp x \<Rightarrow> apsnd Tcp (f x)
    | Tls x \<Rightarrow> apsnd Tls (g x)
    | Ws x \<Rightarrow> apsnd Ws (h x)
    | Wss x \<Rightarrow> apsnd Wss (h x))"

definition stream_poll_read ::
  "'tcp poll_ops \<Rightarrow> 'tls poll_ops \<Rightarrow> nat \<Rightarrow> ('tcp, 'tls) transport_stream \<Rightarrow>
     (io_error + u8 list) poll \<times> ('tcp, 'tls) transport_stream" where
  "stream_poll_read A B room =
     delegate (poll_read_op A room) (poll_read_op B room) (ws_poll_read room)"

definition stream_poll_write ::
  "'tcp poll_ops \<Rightarrow> 'tls poll_ops \<Rightarrow> u8 list \<Rightarrow> ('tcp, 'tls) transport_stream \<Rightarrow>
     (io_error + nat) poll \<times> ('tcp, 'tls) transport_stream" where
  "stream_poll_write A B buf =
     delegate (poll_write_op A buf) (poll_write_op B buf) (ws_poll_write buf)"

definition stream_poll_flush ::
  "'tcp poll_ops \<Rightarrow> 'tls poll_ops \<Rightarrow> ('tcp, 'tls) transport_stream \<Rightarrow>
     (io_error + unit) poll \<times> ('tcp, 'tls) transport_stream" where
  "stream_poll_flush A B = delegate (poll_flush_op A) (poll_flush_op B) ws_poll_flush"

definition stream_poll_shutdown ::
  "'tcp poll_ops \<Rightarrow> 'tls poll_ops \<Rightarrow> ('tcp, 'tls) transport_stream \<Rightarrow>
     (io_error + unit) poll \<times> ('tcp, 'tls) transport_stream" where
  "stream_poll_shutdown A B = delegate (poll_shutdown_op A) (poll_shutdown_op B) ws_poll_shutdown"

section \<open>Splitting\<close>

text \<open>
  The two halves share the stream they come from: a plain socket by duplicated handles, every
  other kind behind the lock of \<^verbatim>\<open>tokio::io::split\<close>.
\<close>

datatype ('tcp, 'tls) half =
    Owned_Half 'tcp
  | Locked_Half "('tcp, 'tls) transport_stream"

definition into_split ::
  "('tcp, 'tls) transport_stream \<Rightarrow> ('tcp, 'tls) half \<times> ('tcp, 'tls) half" where
  "into_split s = (case s of
      Tcp x \<Rightarrow> (Owned_Half x, Owned_Half x)
    | Tls x \<Rightarrow> (Locked_Half (Tls x), Locked_Half (Tls x))
    | Ws x \<Rightarrow> (Locked_Half (Ws x), Locked_Half (Ws x))
    | Wss x \<Rightarrow> (Locked_Half (Wss x), Locked_Half (Wss x)))"

section \<open>Connecting\<close>

text \<open>
  The state of a run of the program: its standard error with the one-shot warnings, its standard
  output, the connections it dialled, and the stream to the broker, once there is one.
\<close>

record world =
  w_process :: process
  w_stdout :: "u8 list"
  w_dialled :: "(string \<times> u16) list"
  w_stream :: stream

definition on_process :: "(process \<Rightarrow> (error + 'a) \<times> process) \<Rightarrow> (world, error, 'a) io" where
  "on_process f w = (case f (w_process w) of
      (r, p) \<Rightarrow> try_io r (w\<lparr>w_process := p\<rparr>))"

definition dial :: "protocol_crate \<Rightarrow> ('tcp, 'tls, 'req) network \<Rightarrow> connection_args \<Rightarrow> (world, error, 'tcp) io" where
  "dial P N a w =
     try_io (map_sum (from_io P) id (tcp_connect N (ca_broker a) (port a)))
       (w\<lparr>w_dialled := w_dialled w @ [(ca_broker a, port a)]\<rparr>)"

definition transport_connect ::
  "protocol_crate \<Rightarrow> ('tcp, 'tls, 'req) network \<Rightarrow> os \<Rightarrow> connection_args \<Rightarrow>
     (world, error, ('tcp, 'tls) transport_stream) io" where
  "transport_connect P N sys a =
     bind_io (on_process (\<lambda>p. (Inr (), warn_if_plaintext_password sys a p))) (\<lambda>_.
     bind_io (dial P N a) (\<lambda>tcp.
     bind_io (try_io (map_sum (from_io P) id (set_nodelay N tcp))) (\<lambda>tcp.
       if ca_tls a \<and> ca_websocket a then
         bind_io (on_process (tls_wrap P (tls_crates N) sys tcp a)) (\<lambda>tls.
         bind_io (try_io (ws_wrap (ws_over_tls N) tls a)) (\<lambda>ws. return_io (Wss ws)))
       else if ca_tls a then
         bind_io (on_process (tls_wrap P (tls_crates N) sys tcp a)) (\<lambda>tls. return_io (Tls tls))
       else if ca_websocket a then
         bind_io (try_io (ws_wrap (ws_over_tcp N) tcp a)) (\<lambda>ws. return_io (Ws ws))
       else return_io (Tcp tcp))))"

section \<open>Lemmas\<close>

lemma on_process_Return_iff:
  "on_process f w = (Return x, w') \<longleftrightarrow>
     (\<exists>p. f (w_process w) = (Inr x, p) \<and> w' = w\<lparr>w_process := p\<rparr>)"
  by (auto simp: on_process_def try_io_def split: prod.splits sum.splits)

lemma on_process_frame:
  "on_process f w = (r, w') \<Longrightarrow> w_dialled w' = w_dialled w \<and> w_stream w' = w_stream w \<and> w_stdout w' = w_stdout w"
  by (auto simp: on_process_def try_io_def split: prod.splits sum.splits)

lemma on_process_not_Panic [simp]: "on_process f w \<noteq> (Panic, w')"
  by (auto simp: on_process_def try_io_def split: prod.splits sum.splits)

lemma try_io_not_Panic [simp]: "try_io r s \<noteq> (Panic, t)"
  by (auto simp: try_io_def split: sum.splits)

lemma try_io_Return_iff: "try_io r s = (Return x, t) \<longleftrightarrow> r = Inr x \<and> t = s"
  by (auto simp: try_io_def split: sum.splits)

lemma dial_not_Panic [simp]: "dial P N a w \<noteq> (Panic, w')"
  by (simp add: dial_def)

lemma dial_Return_iff:
  "dial P N a w = (Return tcp, w') \<longleftrightarrow> tcp_connect N (ca_broker a) (port a) = Inr tcp
     \<and> w' = w\<lparr>w_dialled := w_dialled w @ [(ca_broker a, port a)]\<rparr>"
  by (cases "tcp_connect N (ca_broker a) (port a)") (auto simp: dial_def)

lemma transport_connect_not_Panic [simp]: "transport_connect P N sys a w \<noteq> (Panic, w')"
  by (auto simp: transport_connect_def bind_Panic_iff)

text \<open>Which kind of stream the flags give.\<close>

definition kind_matches :: "connection_args \<Rightarrow> ('tcp, 'tls) transport_stream \<Rightarrow> bool" where
  "kind_matches a s \<longleftrightarrow> (case s of
      Tcp _ \<Rightarrow> \<not> ca_tls a \<and> \<not> ca_websocket a
    | Tls _ \<Rightarrow> ca_tls a \<and> \<not> ca_websocket a
    | Ws _ \<Rightarrow> \<not> ca_tls a \<and> ca_websocket a
    | Wss _ \<Rightarrow> ca_tls a \<and> ca_websocket a)"

lemma transport_connect_Return:
  "transport_connect P N sys a w = (Return t, w') \<Longrightarrow>
     kind_matches a t \<and> w_dialled w' = w_dialled w @ [(ca_broker a, port a)]
     \<and> w_stream w' = w_stream w \<and> w_stdout w' = w_stdout w"
  by (auto simp: transport_connect_def bind_Return_iff dial_Return_iff try_io_Return_iff
      kind_matches_def split: if_splits dest!: on_process_frame)

text \<open>A TLS kind is only reached through the verifier \<^verbatim>\<open>build_config\<close> chose.\<close>

lemma tls_wrap_Inr:
  "tls_wrap P L sys tcp a s = (Inr t, s') \<Longrightarrow>
     \<exists>cfg name. build_config L sys a s = (Inr cfg, s') \<and> server_name_of L (ca_broker a) = Inr name
       \<and> tls_handshake L cfg name tcp = Inr t"
  by (auto simp: tls_wrap_def split: prod.splits sum.splits)

lemma transport_connect_tls:
  assumes "transport_connect P N sys a w = (Return t, w')" "ca_tls a"
  shows "\<exists>tcp tls s s'. tls_wrap P (tls_crates N) sys tcp a s = (Inr tls, s')"
  using assms by (auto simp: transport_connect_def bind_Return_iff on_process_Return_iff split: if_splits)

section \<open>A concrete network and machine\<close>

text \<open>
  A broker that accepts every connection and plays the given events; a machine with no password
  variable and no readable file. Hypotheses about networks and machines are shown satisfiable here.
\<close>

definition scripted_stream :: "net_event list \<Rightarrow> stream" where
  "scripted_stream es = \<lparr>inbox = es, write_fault = (\<lambda>_. None), attempts = 0, calls = []\<rparr>"

definition scripted_tls :: "(unit, unit) tls_library" where
  "scripted_tls = \<lparr>pem_certs = (\<lambda>bs. Inr [bs]), pem_private_key = (\<lambda>bs. Inr (Some bs)),
     root_store_add = (\<lambda>_. None), native_cert_errors = [], native_certs = [[1]],
     parsable_cert = (\<lambda>_. True), client_auth_fault = (\<lambda>_ _. None), server_name_of = Inr,
     tls_handshake = (\<lambda>_ _ _. Inr ())\<rparr>"

definition scripted_websocket :: websocket where
  "scripted_websocket = \<lparr>incoming = [], ready_answers = [], flush_answers = [], close_answers = [],
     send_faults = [], frames = []\<rparr>"

definition scripted_ws :: "(unit, unit) ws_library" where
  "scripted_ws = \<lparr>uri_fault = (\<lambda>_. None), client_request = (\<lambda>_ _. Inr ()),
     client_async = (\<lambda>_ _. Inr scripted_websocket)\<rparr>"

definition scripted_network :: "net_event list \<Rightarrow> (unit, unit, unit) network" where
  "scripted_network es = \<lparr>tcp_connect = (\<lambda>_ _. Inr ()), set_nodelay = Inr, tls_crates = scripted_tls,
     ws_over_tcp = scripted_ws, ws_over_tls = scripted_ws, framing = (\<lambda>_. scripted_stream es)\<rparr>"

definition bare_os :: os where
  "bare_os = \<lparr>read_file = (\<lambda>_. Inl ''No such file or directory''), file_mode = (\<lambda>_. None),
     env_var = (\<lambda>_. None), stdin_bytes = Inr [], stdin_line_reads = [], stdout_is_terminal = False,
     process_id = 1, clock_subsec_nanos = None\<rparr>"

definition fresh_world :: world where
  "fresh_world = \<lparr>w_process = \<lparr>warned_mode = False, warned_plaintext = False, stderr = []\<rparr>,
     w_stdout = [], w_dialled = [], w_stream = scripted_stream []\<rparr>"

lemmas scripted_defs = scripted_network_def scripted_ws_def scripted_websocket_def scripted_tls_def
  scripted_stream_def bare_os_def fresh_world_def

lemma scripted_stream_simps [simp]:
  "inbox (scripted_stream es) = es" "write_fault (scripted_stream es) n = None"
  "calls (scripted_stream es) = []" "sent_packets (scripted_stream es) = []"
  by (simp_all add: scripted_stream_def sent_packets_def)

text \<open>What the sources rely on of a new connection: no packet has crossed it.\<close>

definition fresh_streams :: "('tcp, 'tls, 'req) network \<Rightarrow> bool" where
  "fresh_streams N \<longleftrightarrow> (\<forall>t. calls (framing N t) = [])"

lemma fresh_streams_scripted [simp]: "fresh_streams (scripted_network es)"
  by (simp add: fresh_streams_def scripted_defs)

section \<open>Properties\<close>

text \<open>
  C34: no TLS connection without verification unless asked for. When connecting with \<^verbatim>\<open>--tls\<close>
  succeeds, the TLS handshake was made for the broker's own name and with a configuration that,
  without \<^verbatim>\<open>--insecure\<close>, verifies against a non-empty set of roots (those of \<^verbatim>\<open>--cafile\<close> when one is
  given), and skips verification only with it; under the constraints of the command line a client
  certificate is presented exactly when one is given.
\<close>

theorem tls_verification:
  assumes "transport_connect P N sys a w = (Return t, w')" "ca_tls a" "clap_connection_ok a"
  shows "\<exists>tcp tls cfg name. tls_handshake (tls_crates N) cfg name tcp = Inr tls
     \<and> server_name_of (tls_crates N) (ca_broker a) = Inr name
     \<and> (ca_insecure a \<longleftrightarrow> cc_verifier cfg = NoServerVerification)
     \<and> (\<not> ca_insecure a \<longrightarrow> (\<exists>roots. cc_verifier cfg = Root_Store roots \<and> roots \<noteq> []
          \<and> (\<forall>path. ca_cafile a = Some path \<longrightarrow> load_certs (tls_crates N) sys path = Inr roots)))
     \<and> (cc_client_auth cfg \<noteq> None \<longleftrightarrow> ca_cert a \<noteq> None)"
proof -
  obtain tcp tls s s' where wrap: "tls_wrap P (tls_crates N) sys tcp a s = (Inr tls, s')"
    using transport_connect_tls [OF assms(1,2)] by blast
  obtain cfg name where cfg: "build_config (tls_crates N) sys a s = (Inr cfg, s')"
    and "server_name_of (tls_crates N) (ca_broker a) = Inr name" "tls_handshake (tls_crates N) cfg name tcp = Inr tls"
    using tls_wrap_Inr [OF wrap] by blast
  moreover have "ca_insecure a \<longleftrightarrow> cc_verifier cfg = NoServerVerification"
    using build_config_Inr [OF cfg] choose_verifier_insecure by blast
  moreover have "\<exists>roots. cc_verifier cfg = Root_Store roots \<and> roots \<noteq> []
      \<and> (\<forall>path. ca_cafile a = Some path \<longrightarrow> load_certs (tls_crates N) sys path = Inr roots)" if secure: "\<not> ca_insecure a"
  proof -
    obtain roots where "cc_verifier cfg = Root_Store roots"
      "load_root_store (tls_crates N) sys (ca_cafile a) s = (Inr roots, s')"
      using build_config_Inr [OF cfg] secure by (force simp: choose_verifier_def split: prod.splits sum.splits)
    then show ?thesis using load_root_store_nonempty load_root_store_cafile by metis
  qed
  moreover have "cc_client_auth cfg \<noteq> None \<longleftrightarrow> ca_cert a \<noteq> None"
    using build_config_Inr [OF cfg] assms(3) by (auto simp: clap_connection_ok_def)
  ultimately show ?thesis by blast
qed

theorem tls_verification_witness:
  "\<exists>cfg name roots. tls_handshake scripted_tls cfg name () = Inr ()
     \<and> cc_verifier cfg = Root_Store roots \<and> roots \<noteq> [] \<and> cc_client_auth cfg = None"
proof -
  let ?a = "default_connection\<lparr>ca_tls := True\<rparr>"
  have "\<exists>t w'. transport_connect mqtt_documented (scripted_network []) bare_os ?a fresh_world = (Return t, w')"
    by (simp add: transport_connect_def bind_io_def on_process_def dial_def tls_wrap_def build_config_def
        choose_verifier_def load_root_store_def scripted_defs default_connection_def return_io_def
        warn_if_plaintext_password_def Let_def)
  then obtain t w' where c: "transport_connect mqtt_documented (scripted_network []) bare_os ?a fresh_world = (Return t, w')"
    by blast
  have a: "clap_connection_ok ?a" "ca_tls ?a" "\<not> ca_insecure ?a" "ca_cert ?a = None"
    by (simp_all add: clap_connection_ok_def default_connection_def)
  have "tls_crates (scripted_network []) = scripted_tls" by (simp add: scripted_network_def)
  with tls_verification [OF c a(2,1)] a(3,4) show ?thesis by (metis (full_types) old.unit.exhaust)
qed

end
