(* ===== verification/Packet_Ids.thy ===== *)
theory Packet_Ids
  imports Wisp_Prelude
begin

text \<open>
  The contract of a packet-identifier allocator: a 16-bit counter that steps through 1..65535 and
  skips the reserved 0. The client and the benchmark publisher each have their own copy of the
  code; both are shown to be instances, and the facts about runs of allocations are proved here
  once.
\<close>

text \<open>The identifier after a counter value: one more, with 1 after 65535.\<close>

definition bump :: "u16 \<Rightarrow> u16" where
  "bump c = (let n = c + 1 in if n = 0 then 1 else n)"

lemma unat_bump: "unat (bump c) = unat c mod 65535 + 1"
proof (cases "c + 1 = 0")
  case True
  then have "c = - 1" by (simp add: eq_neg_iff_add_eq_0)
  then have "unat c = 65535" by (simp add: unsigned_minus_1_eq_mask mask_eq_exp_minus_1)
  with True show ?thesis by (simp add: bump_def)
next
  case False
  then have u: "unat (c + 1) = unat c + 1" by (simp add: unatSuc add.commute)
  have "unat (c + 1) < 65536" using unsigned_less [where w = "c + 1" and 'a = nat] by simp
  with u have "unat c < 65535" by simp
  with u False show ?thesis by (simp add: bump_def)
qed

lemma bump_nonzero [simp]: "bump c \<noteq> 0"
  using unat_bump [of c] by auto

lemma add_mod_cancel: "(c + i) mod m = (c + j) mod m \<Longrightarrow> i mod m = j mod (m :: nat)"
proof -
  assume "(c + i) mod m = (c + j) mod m"
  then have "(int c + int i) mod int m = (int c + int j) mod int m"
    by (metis of_nat_add of_nat_mod)
  then have "int i mod int m = int j mod int m"
    by (simp add: mod_eq_dvd_iff)
  then show ?thesis by (metis of_nat_eq_iff of_nat_mod)
qed

locale id_allocator =
  fixes alloc :: "'s \<Rightarrow> u16 \<times> 's"
    and counter :: "'s \<Rightarrow> u16"
  assumes alloc_counter: "alloc s = (i, t) \<Longrightarrow> counter t = i"
    and alloc_bump: "alloc s = (i, t) \<Longrightarrow> i = bump (counter s)"
begin

text \<open>The identifiers of \<open>n\<close> consecutive allocations, and the state after them.\<close>

primrec allocs :: "nat \<Rightarrow> 's \<Rightarrow> u16 list \<times> 's" where
  "allocs 0 s = ([], s)"
| "allocs (Suc n) s = (case alloc s of (i, t) \<Rightarrow> case allocs n t of (is, u) \<Rightarrow> (i # is, u))"

lemma alloc_nonzero: "alloc s = (i, t) \<Longrightarrow> i \<noteq> 0"
  using unat_bump [of "counter s"] alloc_bump [of s i t] by auto

lemma allocs_length: "length (fst (allocs n s)) = n"
  by (induction n arbitrary: s) (auto split: prod.splits, metis fst_conv)

lemma allocs_nth:
  "k < n \<Longrightarrow> unat (fst (allocs n s) ! k) = (unat (counter s) + k) mod 65535 + 1"
proof (induction n arbitrary: s k)
  case 0
  then show ?case by simp
next
  case (Suc n)
  obtain i t where a: "alloc s = (i, t)" by (cases "alloc s")
  have i: "unat i = unat (counter s) mod 65535 + 1"
    using alloc_bump [OF a] by (simp add: unat_bump)
  show ?case
  proof (cases k)
    case 0
    then show ?thesis using a i by (simp split: prod.splits)
  next
    case (Suc j)
    have "unat (fst (allocs n t) ! j) = (unat i + j) mod 65535 + 1"
      using Suc.prems Suc Suc.IH [of j t] alloc_counter [OF a] by simp
    also have "(unat i + j) mod 65535 = (unat (counter s) + k) mod 65535"
      using i Suc by simp (metis add_Suc mod_Suc_eq mod_add_left_eq)
    finally show ?thesis using a Suc by (cases "allocs n t") simp
  qed
qed

lemma allocs_distinct: "n \<le> 65535 \<Longrightarrow> distinct (fst (allocs n s))"
  unfolding distinct_conv_nth allocs_length
proof (intro allI impI notI)
  fix i j
  assume n: "n \<le> 65535" and i: "i < n" and j: "j < n" and ij: "i \<noteq> j"
    and eq: "fst (allocs n s) ! i = fst (allocs n s) ! j"
  have "(unat (counter s) + i) mod 65535 = (unat (counter s) + j) mod 65535"
    using eq allocs_nth [OF i, of s] allocs_nth [OF j, of s] by (simp del: One_nat_def)
  then have "i mod 65535 = j mod 65535"
    by (rule add_mod_cancel)
  with i j n ij show False by simp
qed

lemma allocs_nonzero: "0 \<notin> set (fst (allocs n s))"
proof
  assume "0 \<in> set (fst (allocs n s))"
  then obtain k where "k < n" "fst (allocs n s) ! k = 0"
    by (auto simp: in_set_conv_nth allocs_length)
  with allocs_nth [of k n s] show False by simp
qed

end

end
