(* ===== verification/Mqtt_Client.thy ===== *)
theory Mqtt_Client
  imports Transport Packet_Ids
begin

text \<open>
  Connection handling shared by every subcommand (\<^verbatim>\<open>src/client.rs\<close>): the CONNECT/CONNACK
  handshake, and the client with its packet identifiers, sends, reads and keep-alive pings.
\<close>

section \<open>The handshake\<close>

record negotiated =
  neg_version :: protocol_version
  neg_receive_maximum :: "u16 option"
  neg_session_present :: bool

text \<open>Reads and writes of packets act on the stream of the run.\<close>

definition on_stream :: "(stream, mqtt_error, 'a) io \<Rightarrow> (world, error, 'a) io" where
  "on_stream m = zoom_io w_stream (\<lambda>s w. w\<lparr>w_stream := s\<rparr>) (lift_mqtt m)"

definition read_password :: "os \<Rightarrow> connection_args \<Rightarrow> (world, error, u8 list option) io" where
  "read_password sys a = on_process (\<lambda>p. case password sys a p of
      (Inl e, p') \<Rightarrow> (Inl (Usage (''cannot read the password file: '' @ e)), p')
    | (Inr pw, p') \<Rightarrow> (Inr pw, p'))"

definition will_io :: "protocol_crate \<Rightarrow> connection_args \<Rightarrow> (world, error, will_message option) io" where
  "will_io P a = (case will P a of None \<Rightarrow> panic_io | Some w \<Rightarrow> return_io w)"

definition connect_packet_for ::
  "protocol_crate \<Rightarrow> connection_args \<Rightarrow> string \<Rightarrow> u32 \<Rightarrow> u8 list option \<Rightarrow> will_message option \<Rightarrow> connect_packet" where
  "connect_packet_for P a client_id m pw wl = \<lparr>
     con_protocol_name = (case version a of V3_1 \<Rightarrow> ''MQIsdp'' | _ \<Rightarrow> ''MQTT''),
     con_protocol_version = version_level P (version a),
     con_clean_start = clean_start a,
     con_keep_alive = ca_keepalive a,
     con_properties = properties_new\<lparr>p_maximum_packet_size := Some m\<rparr>,
     con_client_id = client_id,
     con_will = wl,
     con_username = ca_user a,
     con_password = pw\<rparr>"

text \<open>The \<^verbatim>\<open>match\<close> on the broker's answer.\<close>

definition connack_reply :: "protocol_crate \<Rightarrow> connection_args \<Rightarrow> read_outcome \<Rightarrow> error + negotiated" where
  "connack_reply P a r = (case r of
      Got (Connack ack) \<Rightarrow>
        if cack_reason_code ack = rc_success P then
          Inr \<lparr>neg_version = version a,
            neg_receive_maximum = p_receive_maximum (cack_properties ack),
            neg_session_present = cack_session_present ack\<rparr>
        else Inl (Rejected ''connection'' (cack_reason_code ack))
    | Got other \<Rightarrow> Inl (Mqtt (protocol_error P (''expected CONNACK, got '' @ packet_name P other)))
    | Eof \<Rightarrow> Inl (Disconnected ''during the handshake''))"

definition handshake ::
  "protocol_crate \<Rightarrow> os \<Rightarrow> connection_args \<Rightarrow> string \<Rightarrow> (world, error, negotiated) io" where
  "handshake P sys a client_id =
     bind_io (try_io (map_sum Usage id (max_packet_size a))) (\<lambda>m.
     bind_io (read_password sys a) (\<lambda>pw.
     bind_io (will_io P a) (\<lambda>wl.
     bind_io (on_stream (write_packet (Connect (connect_packet_for P a client_id m pw wl)) (version a))) (\<lambda>_.
     bind_io (on_stream (read_packet m (version a))) (\<lambda>r. try_io (connack_reply P a r))))))"

text \<open>The rendering \<^verbatim>\<open>{n:x}\<close>.\<close>

fun show_hex :: "nat \<Rightarrow> string" where
  "show_hex n = (if n < 16 then [digit_char n] else show_hex (n div 16) @ [digit_char (n mod 16)])"

declare show_hex.simps [simp del]

definition generated_client_id :: "os \<Rightarrow> string" where
  "generated_client_id sys = (let nanos = (case clock_subsec_nanos sys of Some n \<Rightarrow> n | None \<Rightarrow> 0) in
     ''wispmq-cli-'' @ show_nat (process_id sys) @ ''-'' @ show_hex nanos)"

section \<open>The client\<close>

record client =
  cl_stream :: stream
  cl_version :: protocol_version
  cl_keep_alive :: u16
  cl_next_packet_id :: u16
  cl_max_packet_size :: u32

definition connect ::
  "protocol_crate \<Rightarrow> ('tcp, 'tls, 'req) network \<Rightarrow> os \<Rightarrow> connection_args \<Rightarrow> (world, error, client) io" where
  "connect P N sys a =
     (let client_id = (case ca_client_id a of Some i \<Rightarrow> i | None \<Rightarrow> generated_client_id sys) in
      if \<not> clean_start a \<and> client_id = [] then
        raise_io (Usage ''--persistent-session needs a non-empty --client-id: a broker-assigned identifier cannot be resumed'')
      else
        bind_io (try_io (map_sum Usage id (max_packet_size a))) (\<lambda>m.
        bind_io (read_password sys a) (\<lambda>_.
        bind_io (transport_connect P N sys a) (\<lambda>t.
        bind_io (\<lambda>w. (Return (), w\<lparr>w_stream := framing N t\<rparr>)) (\<lambda>_.
        bind_io (handshake P sys a client_id) (\<lambda>neg w.
          (Return \<lparr>cl_stream = w_stream w, cl_version = neg_version neg, cl_keep_alive = ca_keepalive a,
             cl_next_packet_id = 0, cl_max_packet_size = m\<rparr>, w)))))))"

definition on_link :: "(stream, mqtt_error, 'a) io \<Rightarrow> (client, error, 'a) io" where
  "on_link m = zoom_io cl_stream (\<lambda>s c. c\<lparr>cl_stream := s\<rparr>) (lift_mqtt m)"

definition send :: "packet \<Rightarrow> (client, error, unit) io" where
  "send p c = on_link (write_packet p (cl_version c)) c"

definition eof_reply :: "read_outcome \<Rightarrow> (client, error, packet) io" where
  "eof_reply r = (case r of
      Got p \<Rightarrow> return_io p
    | Eof \<Rightarrow> raise_io (Disconnected ''while waiting for a reply''))"

definition recv :: "(client, error, packet) io" where
  "recv c = bind_io (on_link (read_packet (cl_max_packet_size c) (cl_version c))) eof_reply c"

text \<open>\<^verbatim>\<open>recv\<close> under the timeout of half the keep-alive interval: \<open>None\<close> when it elapses first.\<close>

definition recv_timeout :: "(client, error, packet option) io" where
  "recv_timeout c = bind_io (on_link (read_packet_timeout (cl_max_packet_size c) (cl_version c)))
     (\<lambda>r. case r of None \<Rightarrow> return_io None
        | Some x \<Rightarrow> bind_io (eof_reply x) (\<lambda>p. return_io (Some p))) c"

lemma on_link_Return_iff:
  "on_link m c = (Return x, d) \<longleftrightarrow> (\<exists>s. m (cl_stream c) = (Return x, s) \<and> d = c\<lparr>cl_stream := s\<rparr>)"
  by (auto simp: on_link_def zoom_io_def lift_mqtt_def split: prod.splits outcome.splits)

abbreviation unread :: "client \<Rightarrow> net_event list" where
  "unread c \<equiv> inbox (cl_stream c)"

lemma recv_timeout_None: "recv_timeout c = (Return None, d) \<Longrightarrow> length (unread d) < length (unread c)"
  by (auto simp: recv_timeout_def bind_Return_iff on_link_Return_iff
      split: option.splits dest: read_packet_timeout_None)

lemma send_unread: "send p c = (r, d) \<Longrightarrow> unread d = unread c"
  by (auto simp: send_def on_link_def zoom_io_def lift_mqtt_def split: prod.splits outcome.splits
      dest: write_packet_inbox)

function ping_loop :: "(client, error, packet) io" where
  "ping_loop c = (case recv_timeout c of
      (Return (Some p), d) \<Rightarrow> (Return p, d)
    | (Return None, d) \<Rightarrow> (case send Pingreq d of
          (Return _, e) \<Rightarrow> ping_loop e
        | (Raise x, e) \<Rightarrow> (Raise x, e)
        | (Panic, e) \<Rightarrow> (Panic, e)
        | (Pending, e) \<Rightarrow> (Pending, e))
    | (Raise x, d) \<Rightarrow> (Raise x, d)
    | (Panic, d) \<Rightarrow> (Panic, d)
    | (Pending, d) \<Rightarrow> (Pending, d))"
  by pat_completeness auto
termination
proof (relation "measure (\<lambda>c. length (unread c))", goal_cases)
  case 1
  show ?case by simp
next
  case (2 c r d q e)
  then show ?case
    by (cases r; cases q) (use send_unread [of Pingreq d] recv_timeout_None [of c d] in \<open>auto dest: sym\<close>)
qed

declare ping_loop.simps [simp del]

definition recv_keepalive :: "(client, error, packet) io" where
  "recv_keepalive c = (if cl_keep_alive c = 0 then recv c else ping_loop c)"

definition next_packet_id :: "client \<Rightarrow> u16 \<times> client" where
  "next_packet_id c = (let n = cl_next_packet_id c + 1; n = (if n = 0 then 1 else n) in
     (n, c\<lparr>cl_next_packet_id := n\<rparr>))"

text \<open>The call \<^verbatim>\<open>client.next_packet_id()\<close> inside an operation.\<close>

definition fresh_id :: "(client, error, u16) io" where
  "fresh_id c = (case next_packet_id c of (i, d) \<Rightarrow> (Return i, d))"

definition disconnect :: "protocol_crate \<Rightarrow> (client, error, unit) io" where
  "disconnect P = bind_io (send (Disconnect (rc_success P))) return_io"

section \<open>Lemmas\<close>

subsection \<open>Packet identifiers\<close>

interpretation client_ids: id_allocator next_packet_id cl_next_packet_id
  by unfold_locales (auto simp: next_packet_id_def bump_def Let_def)

subsection \<open>What the operations do to the client\<close>

text \<open>A client whose stream accepts every write; the client after a write and after a read.\<close>

definition reliable :: "client \<Rightarrow> bool" where
  "reliable c \<longleftrightarrow> (\<forall>n. write_fault (cl_stream c) n = None)"

definition after_send :: "packet \<Rightarrow> client \<Rightarrow> client" where
  "after_send p c = c\<lparr>cl_stream := (cl_stream c)\<lparr>attempts := Suc (attempts (cl_stream c)),
     calls := calls (cl_stream c) @ [Wrote p (cl_version c)]\<rparr>\<rparr>"

definition after_read :: "net_event list \<Rightarrow> client \<Rightarrow> client" where
  "after_read es c = c\<lparr>cl_stream := (cl_stream c)\<lparr>inbox := es,
     calls := calls (cl_stream c) @ [Read_with (cl_max_packet_size c) (cl_version c)]\<rparr>\<rparr>"

abbreviation sent_by :: "client \<Rightarrow> packet list" where
  "sent_by c \<equiv> sent_packets (cl_stream c)"

lemma reliable_after [simp]:
  "reliable (after_send p c) = reliable c" "reliable (after_read es c) = reliable c"
  "reliable (c\<lparr>cl_next_packet_id := i\<rparr>) = reliable c"
  by (simp_all add: reliable_def after_send_def after_read_def)

lemma unread_after [simp]:
  "unread (after_send p c) = unread c" "unread (after_read es c) = es"
  by (simp_all add: after_send_def after_read_def)

lemma fields_after [simp]:
  "cl_version (after_send p c) = cl_version c" "cl_version (after_read es c) = cl_version c"
  "cl_next_packet_id (after_send p c) = cl_next_packet_id c"
  "cl_next_packet_id (after_read es c) = cl_next_packet_id c"
  by (simp_all add: after_send_def after_read_def)

lemma fields_keep [simp]:
  "cl_keep_alive (after_send p c) = cl_keep_alive c" "cl_keep_alive (after_read es c) = cl_keep_alive c"
  by (simp_all add: after_send_def after_read_def)

lemma sent_by_after [simp]:
  "sent_by (after_send p c) = sent_by c @ [p]" "sent_by (after_read es c) = sent_by c"
  by (simp_all add: after_send_def after_read_def sent_packets_def List.map_filter_def)

lemma send_reliable [io_simps]: "reliable c \<Longrightarrow> send p c = (Return (), after_send p c)"
  by (simp add: send_def on_link_def zoom_io_def lift_mqtt_def write_packet_def reliable_def
      after_send_def)

lemma send_not_Panic [simp]: "send p c \<noteq> (Panic, d)"
  by (auto simp: send_def on_link_def zoom_io_def split: prod.splits dest: sym)

lemma send_not_Pending [simp]: "send p c \<noteq> (Pending, d)"
  by (auto simp: send_def on_link_def zoom_io_def split: prod.splits dest: sym)

lemma send_Return_iff:
  "send p c = (Return u, d) \<longleftrightarrow> write_fault (cl_stream c) (attempts (cl_stream c)) = None \<and> d = after_send p c"
  by (auto simp: send_def on_link_Return_iff write_packet_def after_send_def split: option.splits)

lemma recv_eq:
  "recv c = (case next_event (unread c) of
      (Return (Got p), es) \<Rightarrow> (Return p, after_read es c)
    | (Return Eof, es) \<Rightarrow> (Raise (Disconnected ''while waiting for a reply''), after_read es c)
    | (Raise e, es) \<Rightarrow> (Raise (from_mqtt e), after_read es c)
    | (Panic, es) \<Rightarrow> (Panic, after_read es c)
    | (Pending, es) \<Rightarrow> (Pending, after_read es c))"
  by (auto simp: recv_def bind_io_def on_link_def zoom_io_def lift_mqtt_def read_packet_def
      after_read_def eof_reply_def return_io_def raise_io_def
      split: prod.splits outcome.splits read_outcome.splits)

lemma next_event_not_Panic [simp]: "next_event es \<noteq> (Panic, fs)"
  by (induction es rule: next_event.induct) auto

lemma recv_not_Panic [simp]: "recv c \<noteq> (Panic, d)"
  by (auto simp: recv_eq split: prod.splits outcome.splits read_outcome.splits)

lemma recv_Return_iff:
  "recv c = (Return p, d) \<longleftrightarrow> (\<exists>es. next_event (unread c) = (Return (Got p), es) \<and> d = after_read es c)"
  by (auto simp: recv_eq split: prod.splits outcome.splits read_outcome.splits)

lemma recv_unread: "recv c = (Return p, d) \<Longrightarrow> length (unread d) < length (unread c)"
  by (auto simp: recv_Return_iff dest: next_event_Got)

subsection \<open>Keep-alive\<close>

lemma recv_timeout_quiet: "unread c = Quiet # es \<Longrightarrow> recv_timeout c = (Return None, after_read es c)"
  by (simp add: recv_timeout_def read_packet_timeout_def bind_io_def on_link_def zoom_io_def
      lift_mqtt_def return_io_def after_read_def)

lemma recv_timeout_prompt:
  assumes "\<And>es. unread c \<noteq> Quiet # es"
  shows "recv_timeout c = bind_io recv (\<lambda>p. return_io (Some p)) c"
proof -
  have "read_packet_timeout m v (cl_stream c) =
      bind_io (read_packet m v) (\<lambda>r. return_io (Some r)) (cl_stream c)" for m v
    using assms by (auto simp: read_packet_timeout_def split: list.splits net_event.splits)
  then show ?thesis
    by (auto simp: recv_timeout_def recv_def bind_io_def on_link_def zoom_io_def lift_mqtt_def
        return_io_def raise_io_def eof_reply_def
        split: prod.splits outcome.splits read_outcome.splits option.splits)
qed

text \<open>\<open>pings n c\<close>: the client after \<open>n\<close> quiet intervals, each answered with a PINGREQ.\<close>

primrec pings :: "nat \<Rightarrow> client \<Rightarrow> client" where
  "pings 0 c = c"
| "pings (Suc n) c = pings n (after_send Pingreq (after_read (tl (unread c)) c))"

lemma pings_sent: "sent_by (pings n c) = sent_by c @ replicate n Pingreq"
  by (induction n arbitrary: c) (simp_all add: replicate_app_Cons_same)

lemma pings_unread: "unread (pings n c) = drop n (unread c)"
  by (induction n arbitrary: c) (simp_all add: drop_Suc)

lemma ping_loop_reliable:
  "reliable c \<Longrightarrow> ping_loop c = recv (pings (length (takeWhile (\<lambda>e. e = Quiet) (unread c))) c)"
proof (induction c rule: ping_loop.induct)
  case (1 c)
  show ?case
  proof (cases "\<exists>es. unread c = Quiet # es")
    case True
    then obtain es where es: "unread c = Quiet # es" by blast
    have rt: "recv_timeout c = (Return None, after_read es c)"
      using es by (rule recv_timeout_quiet)
    have sd: "send Pingreq (after_read es c) = (Return (), after_send Pingreq (after_read es c))"
      using 1(2) by (simp add: send_reliable)
    have "ping_loop c = ping_loop (after_send Pingreq (after_read es c))"
      by (subst ping_loop.simps) (simp add: rt sd)
    also have "\<dots> = recv (pings (length (takeWhile (\<lambda>e. e = Quiet) es)) (after_send Pingreq (after_read es c)))"
      using 1(1) [of "Return None" "after_read es c" None "Return ()" "after_send Pingreq (after_read es c)" "()"]
        rt sd 1(2) by simp
    finally show ?thesis using es by simp
  next
    case False
    then have tw: "takeWhile (\<lambda>e. e = Quiet) (unread c) = []"
      by (cases "unread c") auto
    have "recv_timeout c = bind_io recv (\<lambda>p. return_io (Some p)) c"
      using False by (intro recv_timeout_prompt) auto
    then have "ping_loop c = recv c"
      by (subst ping_loop.simps) (auto simp: bind_io_def return_io_def split: prod.splits outcome.splits)
    then show ?thesis by (simp add: tw)
  qed
qed

lemma ping_loop_Return_unread:
  "ping_loop c = (Return p, d) \<Longrightarrow> length (unread d) < length (unread c)"
proof (induction c rule: ping_loop.induct)
  case (1 c)
  obtain r d1 where rt: "recv_timeout c = (r, d1)" by (cases "recv_timeout c")
  show ?case
  proof (cases "\<exists>es. unread c = Quiet # es")
    case True
    then obtain es where es: "unread c = Quiet # es" by blast
    obtain q e where sd: "send Pingreq (after_read es c) = (q, e)" by (cases "send Pingreq (after_read es c)")
    have "unread e = es" using send_unread [OF sd] by simp
    moreover have "q = Return () \<and> ping_loop e = (Return p, d)"
      using 1(2) sd recv_timeout_quiet [OF es] by (subst (asm) ping_loop.simps) (auto split: outcome.splits)
    ultimately show ?thesis
      using 1(1) [of "Return None" "after_read es c" None q e "()"] es sd recv_timeout_quiet [OF es] by simp
  next
    case False
    then have "recv_timeout c = bind_io recv (\<lambda>p. return_io (Some p)) c"
      by (intro recv_timeout_prompt) auto
    then show ?thesis
      using 1(2) by (subst (asm) ping_loop.simps)
        (auto simp: bind_io_def return_io_def split: prod.splits outcome.splits dest: recv_unread)
  qed
qed

lemma recv_keepalive_unread:
  "recv_keepalive c = (Return p, d) \<Longrightarrow> length (unread d) < length (unread c)"
  by (auto simp: recv_keepalive_def split: if_splits dest: recv_unread ping_loop_Return_unread)

lemma next_event_Got_split:
  "next_event es = (Return (Got p), fs) \<Longrightarrow> \<exists>n. es = replicate n Quiet @ Arrives p # fs"
  by (induction es rule: next_event.induct) (auto intro: exI [of _ 0] exI [of _ "Suc n" for n])

lemma ping_loop_Return:
  "ping_loop c = (Return p, d) \<Longrightarrow>
     \<exists>n. unread c = replicate n Quiet @ Arrives p # unread d
       \<and> sent_by d = sent_by c @ replicate n Pingreq \<and> cl_keep_alive d = cl_keep_alive c"
proof (induction "length (unread c)" arbitrary: c rule: less_induct)
  case less
  show ?case
  proof (cases "\<exists>es. unread c = Quiet # es")
    case True
    then obtain es where es: "unread c = Quiet # es" by blast
    let ?e = "after_send Pingreq (after_read es c)"
    have "ping_loop ?e = (Return p, d)"
      using less.prems recv_timeout_quiet [OF es]
      by (subst (asm) ping_loop.simps) (auto simp: send_Return_iff split: prod.splits outcome.splits)
    then obtain n where "unread ?e = replicate n Quiet @ Arrives p # unread d"
      "sent_by d = sent_by ?e @ replicate n Pingreq" "cl_keep_alive d = cl_keep_alive ?e"
      using less.hyps [of ?e] es by auto
    then show ?thesis
      using es by (intro exI [of _ "Suc n"]) simp
  next
    case False
    then have "recv_timeout c = bind_io recv (\<lambda>p. return_io (Some p)) c"
      by (intro recv_timeout_prompt) auto
    then have "recv c = (Return p, d)"
      using less.prems by (subst (asm) ping_loop.simps)
        (auto simp: bind_io_def return_io_def split: prod.splits outcome.splits)
    then obtain m where "unread c = replicate m Quiet @ Arrives p # unread d" and d: "d = after_read (unread d) c"
      by (auto simp: recv_Return_iff dest: next_event_Got_split)
    moreover from this have "m = 0" using False by (cases m) auto
    ultimately show ?thesis by (intro exI [of _ 0]) (metis append_Nil append_Nil2 fields_keep replicate_0 sent_by_after(2))
  qed
qed

lemma recv_keepalive_Return:
  assumes "recv_keepalive c = (Return p, d)"
  shows "\<exists>n. unread c = replicate n Quiet @ Arrives p # unread d
     \<and> sent_by d = sent_by c @ (if cl_keep_alive c = 0 then [] else replicate n Pingreq)
     \<and> cl_keep_alive d = cl_keep_alive c"
proof (cases "cl_keep_alive c = 0")
  case True
  then have "recv c = (Return p, d)" using assms by (simp add: recv_keepalive_def)
  then show ?thesis using True by (auto simp: recv_Return_iff dest: next_event_Got_split)
next
  case False
  then show ?thesis using assms ping_loop_Return [of c p d] by (simp add: recv_keepalive_def)
qed

subsection \<open>What every operation of a client keeps\<close>

text \<open>
  What a client may send once it is connected: no second CONNECT and nothing only a broker sends; a
  PUBLISH carries an identifier exactly when its QoS is not 0, a SUBSCRIBE always does, that
  identifier is never 0, and a SUBSCRIBE names at least one filter.
\<close>

fun client_packet_ok :: "packet \<Rightarrow> bool" where
  "client_packet_ok (Publish m) \<longleftrightarrow> (pub_packet_id m = None \<longleftrightarrow> pub_qos m = AtMostOnce) \<and> pub_packet_id m \<noteq> Some 0"
| "client_packet_ok (Subscribe s) \<longleftrightarrow> sub_packet_id s \<noteq> 0 \<and> sub_filters s \<noteq> []"
| "client_packet_ok (Connect c) \<longleftrightarrow> False"
| "client_packet_ok (Connack c) \<longleftrightarrow> False"
| "client_packet_ok (Suback s) \<longleftrightarrow> False"
| "client_packet_ok Pingresp \<longleftrightarrow> False"
| "client_packet_ok (Other_Packet n) \<longleftrightarrow> False"
| "client_packet_ok p \<longleftrightarrow> True"

text \<open>
  No operation changes the version, the keep-alive or the packet ceiling of a client, and each only
  adds writes of such packets in that version and reads with that ceiling to what went over its stream.
\<close>

definition conforming :: "u32 \<Rightarrow> protocol_version \<Rightarrow> io_call \<Rightarrow> bool" where
  "conforming m v x \<longleftrightarrow> (case x of Wrote p v' \<Rightarrow> v' = v \<and> client_packet_ok p | Read_with m' v' \<Rightarrow> m' = m \<and> v' = v)"

definition client_extends :: "client \<Rightarrow> client \<Rightarrow> bool" where
  "client_extends c d \<longleftrightarrow> cl_version d = cl_version c \<and> cl_keep_alive d = cl_keep_alive c
     \<and> cl_max_packet_size d = cl_max_packet_size c
     \<and> (\<exists>new. calls (cl_stream d) = calls (cl_stream c) @ new
          \<and> list_all (conforming (cl_max_packet_size c) (cl_version c)) new)"

interpretation client_io: io_preorder client_extends
proof
  show "client_extends c c" for c
    by (simp add: client_extends_def)
  show "client_extends c d \<Longrightarrow> client_extends d e \<Longrightarrow> client_extends c e" for c d e
    by (fastforce simp: client_extends_def)
qed

lemma client_extends_after [simp]:
  "client_packet_ok p \<Longrightarrow> client_extends c (after_send p c)" "client_extends c (after_read es c)"
  "client_extends c (c\<lparr>cl_next_packet_id := i\<rparr>)"
  by (simp_all add: client_extends_def after_send_def after_read_def conforming_def)

lemma keeps_send [intro]: "client_packet_ok p \<Longrightarrow> client_io.keeps (send p)"
  by (rule client_io.keepsI)
    (auto simp: send_def on_link_def zoom_io_def lift_mqtt_def write_packet_def client_extends_def conforming_def
      split: prod.splits outcome.splits option.splits)

lemma keeps_recv [intro]: "client_io.keeps recv"
  by (rule client_io.keepsI) (auto simp: recv_eq split: prod.splits outcome.splits read_outcome.splits)

lemma fresh_id_nonzero: "fresh_id c = (Return i, d) \<Longrightarrow> i \<noteq> 0"
  by (auto simp: fresh_id_def next_packet_id_def Let_def split: if_splits)

lemma keeps_fresh_id [intro]: "client_io.keeps fresh_id"
  by (rule client_io.keepsI) (auto simp: fresh_id_def next_packet_id_def Let_def)

lemma keeps_recv_timeout: "recv_timeout c = (r, d) \<Longrightarrow> client_extends c d"
proof (cases "\<exists>es. unread c = Quiet # es")
  case False
  assume "recv_timeout c = (r, d)"
  with False have "bind_io recv (\<lambda>p. return_io (Some p)) c = (r, d)"
    using recv_timeout_prompt [of c] by auto
  then show ?thesis
    by (rule client_io.keepsD [rotated]) (intro client_io.keeps_intros keeps_recv)
qed (auto simp: recv_timeout_quiet)

lemma keeps_ping_loop [intro]: "client_io.keeps ping_loop"
proof (rule client_io.keepsI)
  show "ping_loop c = (r, d) \<Longrightarrow> client_extends c d" for c r d
  proof (induction c rule: ping_loop.induct)
    case (1 c)
    obtain q d1 where rt: "recv_timeout c = (q, d1)" by (cases "recv_timeout c")
    obtain s e where sd: "send Pingreq d1 = (s, e)" by (cases "send Pingreq d1")
    note steps = keeps_recv_timeout [OF rt] client_io.keepsD [OF keeps_send sd, simplified]
    show ?case
    proof (cases "q = Return None \<and> s = Return ()")
      case True
      then have "ping_loop e = (r, d)"
        using 1(2) rt sd by (subst (asm) ping_loop.simps) simp
      then show ?thesis
        using 1(1) [of q d1 None s e "()"] rt sd True steps client_io.le_trans by metis
    next
      case False
      then have "d = d1 \<or> d = e"
        using 1(2) rt sd by (subst (asm) ping_loop.simps) (auto split: outcome.splits option.splits)
      then show ?thesis using steps client_io.le_trans by blast
    qed
  qed
qed

lemma keeps_recv_keepalive [intro]: "client_io.keeps recv_keepalive"
  using keeps_recv keeps_ping_loop by (simp add: client_io.keeps_def recv_keepalive_def)

lemma keeps_disconnect [intro]: "client_io.keeps (disconnect P)"
  unfolding disconnect_def by (intro client_io.keeps_intros keeps_send) simp

lemma disconnect_not_Panic [simp]: "disconnect P c \<noteq> (Panic, d)"
  by (simp add: disconnect_def bind_Panic_iff)

subsection \<open>A client to evaluate on\<close>

definition sample_client :: "net_event list \<Rightarrow> client" where
  "sample_client es = \<lparr>cl_stream = scripted_stream es, cl_version = V5, cl_keep_alive = 60,
     cl_next_packet_id = 0, cl_max_packet_size = 1048576\<rparr>"

lemma sample_client_simps [simp]:
  "reliable (sample_client es)" "unread (sample_client es) = es" "sent_by (sample_client es) = []"
  "cl_next_packet_id (sample_client es) = 0"
  by (simp_all add: sample_client_def reliable_def)

subsection \<open>Connecting\<close>

lemma on_stream_Return_iff:
  "on_stream m w = (Return x, w') \<longleftrightarrow>
     (\<exists>s. m (w_stream w) = (Return x, s) \<and> w' = w\<lparr>w_stream := s\<rparr>)"
  by (auto simp: on_stream_def zoom_io_def lift_mqtt_def split: prod.splits outcome.splits)

lemma on_stream_Panic_iff:
  "on_stream m w = (Panic, w') \<longleftrightarrow> (\<exists>s. m (w_stream w) = (Panic, s) \<and> w' = w\<lparr>w_stream := s\<rparr>)"
  by (auto simp: on_stream_def zoom_io_def lift_mqtt_def split: prod.splits outcome.splits)

lemma read_packet_not_Panic [simp]: "read_packet m v s \<noteq> (Panic, t)"
  by (auto simp: read_packet_def split: prod.splits)

lemma password_value: "fst (password sys a s) = fst (password sys a s')"
  by (auto simp: password_def Let_def split: option.splits sum.splits)

lemma read_password_Return:
  "read_password sys a w = (Return pw, w') \<Longrightarrow>
     fst (password sys a p) = Inr pw \<and> w_dialled w' = w_dialled w \<and> w_stream w' = w_stream w"
  by (auto simp: read_password_def on_process_Return_iff password_value [of sys a p "w_process w"]
      split: prod.splits sum.splits)

lemma will_io_Return: "will_io P a w = (Return wl, w') \<Longrightarrow> will P a = Some wl \<and> w' = w"
  by (auto simp: will_io_def split: option.splits)

lemma will_not_None: "clap_connection_ok a \<Longrightarrow> qos_levels P \<Longrightarrow> will P a \<noteq> None"
  using qos_from_u8_small [of P "ca_will_qos a"]
  by (auto simp: will_def clap_connection_ok_def split: option.splits)

lemma handshake_not_Panic:
  "clap_connection_ok a \<Longrightarrow> qos_levels P \<Longrightarrow> handshake P sys a i w \<noteq> (Panic, w')"
  using will_not_None [of a P]
  by (auto simp: handshake_def bind_Panic_iff on_stream_Panic_iff read_password_def will_io_def
      split: option.splits)

lemma connect_not_Panic:
  "clap_connection_ok a \<Longrightarrow> qos_levels P \<Longrightarrow> connect P N sys a w \<noteq> (Panic, w')"
  by (auto simp: connect_def Let_def bind_Panic_iff read_password_def handshake_not_Panic
      split: option.splits)

lemma connack_reply_Inr_iff:
  "connack_reply P a r = Inr neg \<longleftrightarrow> (\<exists>ack. r = Got (Connack ack) \<and> cack_reason_code ack = rc_success P
     \<and> neg = \<lparr>neg_version = version a, neg_receive_maximum = p_receive_maximum (cack_properties ack),
          neg_session_present = cack_session_present ack\<rparr>)"
  by (auto simp: connack_reply_def split: read_outcome.splits packet.splits)

lemma ceiling_eq: "map_sum Usage id (max_packet_size a) = Inr m \<Longrightarrow> m = ca_max_packet_size a"
  using max_packet_size_Inr_iff [of a m] by (cases "max_packet_size a") auto

lemma write_packet_Return_calls:
  "write_packet p v s = (Return u, t) \<Longrightarrow> calls t = calls s @ [Wrote p v] \<and> inbox t = inbox s"
  by (auto simp: write_packet_def split: option.splits)

lemma read_packet_Return_calls:
  "read_packet m v s = (Return r, t) \<Longrightarrow>
     calls t = calls s @ [Read_with m v] \<and> next_event (inbox s) = (Return r, inbox t)"
  by (auto simp: read_packet_def split: prod.splits)

lemma handshake_Return:
  assumes "handshake P sys a i w = (Return neg, w')"
  shows "\<exists>pw wl ack es. fst (password sys a p) = Inr pw \<and> will P a = Some wl
     \<and> next_event (inbox (w_stream w)) = (Return (Got (Connack ack)), es)
     \<and> cack_reason_code ack = rc_success P
     \<and> neg_version neg = version a \<and> neg_receive_maximum neg = p_receive_maximum (cack_properties ack)
     \<and> calls (w_stream w') = calls (w_stream w) @
          [Wrote (Connect (connect_packet_for P a i (ca_max_packet_size a) pw wl)) (version a),
           Read_with (ca_max_packet_size a) (version a)]
     \<and> w_dialled w' = w_dialled w \<and> inbox (w_stream w') = es"
proof -
  obtain pw w1 wl s2 s3 r where
    "read_password sys a w = (Return pw, w1)" "will_io P a w1 = (Return wl, w1)"
    and wr: "write_packet (Connect (connect_packet_for P a i (ca_max_packet_size a) pw wl)) (version a)
           (w_stream w1) = (Return (), s2)"
    and rd: "read_packet (ca_max_packet_size a) (version a) s2 = (Return r, s3)"
    and "connack_reply P a r = Inr neg" "w' = w1\<lparr>w_stream := s3\<rparr>"
    using assms unfolding handshake_def bind_Return_iff on_stream_Return_iff try_io_Return_iff
    by (elim exE conjE) (auto dest!: will_io_Return ceiling_eq)
  moreover from this obtain ack where "r = Got (Connack ack)" "cack_reason_code ack = rc_success P"
    "neg_version neg = version a" "neg_receive_maximum neg = p_receive_maximum (cack_properties ack)"
    unfolding connack_reply_Inr_iff by auto
  ultimately show ?thesis
    using write_packet_Return_calls [OF wr] read_packet_Return_calls [OF rd]
    by (auto dest!: read_password_Return [where p = p] will_io_Return)
qed

lemma connect_Return:
  assumes "connect P N sys a w = (Return c, w')"
  shows "\<exists>t w1 neg. kind_matches a t \<and> w_dialled w1 = w_dialled w @ [(ca_broker a, port a)]
     \<and> handshake P sys a (case ca_client_id a of Some i \<Rightarrow> i | None \<Rightarrow> generated_client_id sys)
         (w1\<lparr>w_stream := framing N t\<rparr>) = (Return neg, w')
     \<and> c = \<lparr>cl_stream = w_stream w', cl_version = neg_version neg, cl_keep_alive = ca_keepalive a,
             cl_next_packet_id = 0, cl_max_packet_size = ca_max_packet_size a\<rparr>"
  using assms unfolding connect_def Let_def
  by (auto simp: bind_Return_iff try_io_Return_iff split: if_splits
      dest!: ceiling_eq read_password_Return [where p = "w_process w"] transport_connect_Return)
    (blast+)

lemma connect_Return_sent:
  assumes "fresh_streams N" "connect P N sys a w = (Return c, w')"
  shows "\<exists>pk. sent_by c = [Connect pk] \<and> cl_next_packet_id c = 0"
proof -
  obtain t w1 neg where
    h: "handshake P sys a (case ca_client_id a of Some i \<Rightarrow> i | None \<Rightarrow> generated_client_id sys)
         (w1\<lparr>w_stream := framing N t\<rparr>) = (Return neg, w')"
    and c: "cl_stream c = w_stream w'" "cl_next_packet_id c = 0"
    using connect_Return [OF assms(2)] by auto
  show ?thesis
    using handshake_Return [OF h, where p = "w_process w"] c assms(1)
    by (auto simp: fresh_streams_def sent_packets_def List.map_filter_def)
qed

section \<open>Properties\<close>

text \<open>
  C35: bad arguments fail before dialling. With an invalid \<^verbatim>\<open>--max-packet-size\<close>, a persistent session
  without a client identifier, or an unreadable password file, \<^verbatim>\<open>connect\<close> is a usage error, no
  connection has been attempted and nothing has crossed the stream.
\<close>

theorem connect_validates_first:
  assumes "max_packet_size a = Inl msg \<or> (ca_persistent_session a \<and> ca_client_id a = Some [])
     \<or> (ca_password_file a = Some path \<and> read_file sys path = Inl e)"
  shows "\<exists>m w'. connect P N sys a w = (Raise (Usage m), w') \<and> w_dialled w' = w_dialled w
     \<and> w_stream w' = w_stream w"
proof (cases "\<not> clean_start a \<and> (case ca_client_id a of Some i \<Rightarrow> i | None \<Rightarrow> generated_client_id sys) = []")
  case True
  then show ?thesis by (simp add: connect_def Let_def)
next
  case ok: False
  show ?thesis
  proof (cases "max_packet_size a")
    case (Inl m)
    then show ?thesis using ok by (simp add: connect_def Let_def bind_io_def raise_io_def)
  next
    case (Inr m)
    then have "ca_password_file a = Some path \<and> read_file sys path = Inl e"
      using assms ok by (auto simp: clean_start_def)
    then show ?thesis
      using ok Inr by (simp add: connect_def Let_def bind_io_def return_io_def read_password_def
          on_process_def password_def raise_io_def)
  qed
qed

theorem connect_validates_first_witness:
  "\<exists>m w'. connect mqtt_documented (scripted_network []) bare_os
       (default_connection\<lparr>ca_password_file := Some ''/missing''\<rparr>) fresh_world = (Raise (Usage m), w')
     \<and> w_dialled w' = w_dialled fresh_world \<and> w_stream w' = w_stream fresh_world"
  by (rule connect_validates_first [where path = "''/missing''" and e = "''No such file or directory''"])
    (simp add: bare_os_def)

text \<open>
  C1: a client that \<^verbatim>\<open>connect\<close> returns has dialled the broker once, over the kind of stream its
  flags name; it sent exactly one packet, the CONNECT that carries the resolved password, the will
  and the packet ceiling, and the one packet it read, under that same ceiling, was a CONNACK with
  the code Success. Its packet identifiers start afresh.
\<close>

theorem connect_ready:
  assumes "fresh_streams N" "connect P N sys a w = (Return c, w')"
  shows "\<exists>t pw wl ack es. kind_matches a t \<and> w_dialled w' = w_dialled w @ [(ca_broker a, port a)]
     \<and> fst (password sys a (w_process w)) = Inr pw \<and> will P a = Some wl
     \<and> calls (cl_stream c) =
         [Wrote (Connect (connect_packet_for P a
            (case ca_client_id a of Some i \<Rightarrow> i | None \<Rightarrow> generated_client_id sys) (cl_max_packet_size c) pw wl)) (cl_version c),
          Read_with (cl_max_packet_size c) (cl_version c)]
     \<and> next_event (inbox (framing N t)) = (Return (Got (Connack ack)), es) \<and> cack_reason_code ack = rc_success P
     \<and> cl_version c = version a \<and> cl_max_packet_size c = ca_max_packet_size a
     \<and> cl_keep_alive c = ca_keepalive a \<and> cl_next_packet_id c = 0"
proof -
  obtain t w1 neg where t: "kind_matches a t" "w_dialled w1 = w_dialled w @ [(ca_broker a, port a)]"
    and h: "handshake P sys a (case ca_client_id a of Some i \<Rightarrow> i | None \<Rightarrow> generated_client_id sys)
         (w1\<lparr>w_stream := framing N t\<rparr>) = (Return neg, w')"
    and c: "c = \<lparr>cl_stream = w_stream w', cl_version = neg_version neg, cl_keep_alive = ca_keepalive a,
             cl_next_packet_id = 0, cl_max_packet_size = ca_max_packet_size a\<rparr>"
    using connect_Return [OF assms(2)] by blast
  show ?thesis
    using handshake_Return [OF h, where p = "w_process w"] t c assms(1)
    by (auto simp: fresh_streams_def)
qed

definition accepting_broker :: "net_event list" where
  "accepting_broker = [Arrives (Connack \<lparr>cack_session_present = False, cack_reason_code = 0,
     cack_properties = properties_new\<rparr>)]"

lemma connect_accepting:
  "\<exists>c w'. connect mqtt_documented (scripted_network (accepting_broker @ es)) bare_os default_connection fresh_world
     = (Return c, w') \<and> unread c = es \<and> reliable c \<and> cl_keep_alive c = 60 \<and> cl_version c = V5"
  by (simp add: connect_def Let_def bind_io_def return_io_def raise_io_def on_process_def read_password_def
      transport_connect_def dial_def handshake_def will_io_def will_def on_stream_def zoom_io_def lift_mqtt_def
      write_packet_def read_packet_def connack_reply_def password_def clean_start_def max_packet_size_def
      default_connection_def DEFAULT_MAX_PACKET_SIZE_def PROTOCOL_MAX_PACKET_SIZE_def generated_client_id_def
      accepting_broker_def scripted_defs mqtt_documented_def reliable_def version_def)

theorem connect_ready_witness:
  "\<exists>c w'. connect mqtt_documented (scripted_network accepting_broker) bare_os default_connection fresh_world
     = (Return c, w') \<and> length (calls (cl_stream c)) = 2 \<and> w_dialled w' = [(''localhost'', 1883)]"
proof -
  obtain c w' where c: "connect mqtt_documented (scripted_network accepting_broker) bare_os default_connection
      fresh_world = (Return c, w')"
    using connect_accepting [of "[]"] by auto
  then have "length (calls (cl_stream c)) = 2 \<and> w_dialled w' = [(''localhost'', 1883)]"
    using connect_ready [OF fresh_streams_scripted c]
    by (auto simp: fresh_world_def default_connection_def port_def)
  with c show ?thesis by blast
qed

text \<open>
  With arguments \<^verbatim>\<open>clap\<close> accepts, connecting never panics, whatever the network does: the
  \<^verbatim>\<open>expect\<close> on the will's QoS cannot fire.
\<close>

theorem connect_never_panics:
  assumes "clap_connection_ok a" "qos_levels P"
  shows "fst (connect P N sys a w) \<noteq> Panic"
  using connect_not_Panic [OF assms, of N sys w "snd (connect P N sys a w)"] by (metis prod.collapse)

theorem connect_never_panics_witness:
  "fst (connect mqtt_documented (scripted_network []) bare_os
     (default_connection\<lparr>ca_will_topic := Some ''bye'', ca_will_qos := 2\<rparr>) fresh_world) \<noteq> Panic"
  by (rule connect_never_panics) (simp_all add: clap_connection_ok_def default_connection_def)

text \<open>
  C36: up to 65535 consecutive packet identifiers of a client are pairwise distinct, and none is
  the reserved 0, wherever the counter stands.
\<close>

theorem packet_ids_distinct:
  assumes "n \<le> 65535"
  shows "distinct (fst (client_ids.allocs n c)) \<and> 0 \<notin> set (fst (client_ids.allocs n c))
     \<and> length (fst (client_ids.allocs n c)) = n
     \<and> (\<forall>i d. next_packet_id c = (i, d) \<longrightarrow> i \<noteq> 0 \<and> d = c\<lparr>cl_next_packet_id := i\<rparr>)"
  using client_ids.allocs_distinct [OF assms] client_ids.allocs_nonzero client_ids.allocs_length
    client_ids.alloc_nonzero
  by (auto simp: next_packet_id_def Let_def)

theorem packet_ids_distinct_witness:
  "distinct (fst (client_ids.allocs 3 (\<lparr>cl_stream = scripted_stream [], cl_version = V5, cl_keep_alive = 60,
     cl_next_packet_id = 65534, cl_max_packet_size = 100\<rparr>)))"
  using packet_ids_distinct [of 3] by simp



end
