(* ===== verification/Cmd_Publish.thy ===== *)
theory Cmd_Publish
  imports Mqtt_Client
begin

text \<open>
  The subcommand \<^verbatim>\<open>pub\<close> (\<^verbatim>\<open>src/publish.rs\<close>): where the payload comes from, the properties of the
  PUBLISH, one publish with its QoS handshake, and the run over one connection.
\<close>

section \<open>Resolving the arguments\<close>

datatype payload_source = Once "u8 list" | Lines

definition resolve_payload :: "os \<Rightarrow> pub_args \<Rightarrow> error + payload_source" where
  "resolve_payload sys a =
     (if pa_stdin_lines a then Inr Lines
      else (case pa_file a of
          Some path \<Rightarrow>
            if path = ''-'' then
              (case stdin_bytes sys of
                 Inl e \<Rightarrow> Inl (Usage (''reading stdin: '' @ e))
               | Inr buf \<Rightarrow> Inr (Once buf))
            else
              (case read_file sys path of
                 Inl e \<Rightarrow> Inl (Usage (path @ '': '' @ e))
               | Inr bytes \<Rightarrow> Inr (Once bytes))
        | None \<Rightarrow> Inr (Once (as_bytes (case pa_message a of Some m \<Rightarrow> m | None \<Rightarrow> [])))))"

definition resolve_properties :: "protocol_crate \<Rightarrow> pub_args \<Rightarrow> error + properties" where
  "resolve_properties P a =
     (let v5 = has_properties P (version (pa_conn a));
          used_on_v3 = (\<not> v5 \<and> (pa_user_properties a \<noteq> [] \<or> pa_message_expiry_interval a \<noteq> None
             \<or> pa_content_type a \<noteq> None \<or> pa_payload_format_indicator a)) in
      if used_on_v3 then
        Inl (Usage ''--user-property/--message-expiry-interval/--content-type/--payload-format-indicator need v5 properties (--protocol 5)'')
      else if v5 then
        Inr (properties_new\<lparr>p_user_properties := pa_user_properties a,
           p_message_expiry_interval := pa_message_expiry_interval a,
           p_content_type := pa_content_type a,
           p_payload_format_indicator := (if pa_payload_format_indicator a then Some 1 else None)\<rparr>)
      else Inr properties_new)"

section \<open>One publish\<close>

text \<open>The loop of \<^verbatim>\<open>expect_ack\<close>: every turn that goes on has consumed a packet.\<close>

function expect_ack :: "protocol_crate \<Rightarrow> string \<Rightarrow> (client, error, reason_code) io" where
  "expect_ack P what c = (case recv c of
      (Return p, d) \<Rightarrow> (case p of
          Puback a \<Rightarrow> (Return (ack_reason_code a), d)
        | Pubrec a \<Rightarrow> (Return (ack_reason_code a), d)
        | Pubcomp a \<Rightarrow> (Return (ack_reason_code a), d)
        | Pingresp \<Rightarrow> expect_ack P what d
        | Disconnect code \<Rightarrow> (Raise (Rejected what code), d)
        | other \<Rightarrow> (Raise (Mqtt (protocol_error P (''expected an acknowledgement, got '' @ packet_name P other))), d))
    | (Raise e, d) \<Rightarrow> (Raise e, d)
    | (Panic, d) \<Rightarrow> (Panic, d)
    | (Pending, d) \<Rightarrow> (Pending, d))"
  by pat_completeness auto
termination
  by (relation "measure (\<lambda>(P, what, c). length (unread c))") (auto dest!: sym recv_unread)

declare expect_ack.simps [simp del]

definition check :: "protocol_crate \<Rightarrow> reason_code \<Rightarrow> string \<Rightarrow> error + unit" where
  "check P code what = (if rc_is_error P code then Inl (Rejected what code) else Inr ())"

definition publish_id :: "qos \<Rightarrow> (client, error, u16 option) io" where
  "publish_id q = (case q of
      AtMostOnce \<Rightarrow> return_io None
    | _ \<Rightarrow> bind_io fresh_id (\<lambda>i. return_io (Some i)))"

definition publish_message ::
  "string \<Rightarrow> u8 list \<Rightarrow> qos \<Rightarrow> bool \<Rightarrow> properties \<Rightarrow> u16 option \<Rightarrow> publish_packet" where
  "publish_message topic payload q retain props packet_id =
     \<lparr>pub_dup = False, pub_qos = q, pub_retain = retain, pub_topic = topic, pub_packet_id = packet_id,
      pub_properties = props, pub_payload = payload\<rparr>"

definition publish_one ::
  "protocol_crate \<Rightarrow> string \<Rightarrow> u8 list \<Rightarrow> qos \<Rightarrow> bool \<Rightarrow> properties \<Rightarrow> (client, error, unit) io" where
  "publish_one P topic payload q retain props =
     bind_io (publish_id q) (\<lambda>packet_id.
     bind_io (send (Publish (publish_message topic payload q retain props packet_id))) (\<lambda>_.
       case q of
         AtMostOnce \<Rightarrow> return_io ()
       | AtLeastOnce \<Rightarrow>
           bind_io (expect_ack P ''publish'') (\<lambda>ack. try_io (check P ack ''publish''))
       | ExactlyOnce \<Rightarrow>
           bind_io (expect_ack P ''publish'') (\<lambda>rec.
           bind_io (try_io (check P rec ''publish'')) (\<lambda>_.
           bind_io (case packet_id of None \<Rightarrow> panic_io | Some i \<Rightarrow> return_io i) (\<lambda>i.
           bind_io (send (Pubrel (pub_ack_new i (rc_success P)))) (\<lambda>_.
           bind_io (expect_ack P ''publish'') (\<lambda>comp. try_io (check P comp ''publish'')))))))) "

section \<open>The run\<close>

text \<open>An operation of a connected client, as a part of the run.\<close>

definition with_client :: "client \<Rightarrow> (client, error, 'a) io \<Rightarrow> (world, error, 'a) io" where
  "with_client c m w = (case m c of (r, d) \<Rightarrow> (r, w\<lparr>w_stream := cl_stream d\<rparr>))"

fun publish_lines ::
  "protocol_crate \<Rightarrow> string \<Rightarrow> qos \<Rightarrow> bool \<Rightarrow> properties \<Rightarrow> (io_error + string) list \<Rightarrow> (client, error, unit) io" where
  "publish_lines P topic q retain props [] = return_io ()"
| "publish_lines P topic q retain props (line # rest) =
     bind_io (try_io (map_sum (\<lambda>e. Usage (''reading stdin: '' @ e)) id line)) (\<lambda>s.
     bind_io (publish_one P topic (as_bytes s) q retain props) (\<lambda>_.
       publish_lines P topic q retain props rest))"

definition publish_source ::
  "protocol_crate \<Rightarrow> os \<Rightarrow> pub_args \<Rightarrow> qos \<Rightarrow> properties \<Rightarrow> payload_source \<Rightarrow> (client, error, unit) io" where
  "publish_source P sys a q props source = (case source of
      Once payload \<Rightarrow> publish_one P (pa_topic a) payload q (pa_retain a) props
    | Lines \<Rightarrow> publish_lines P (pa_topic a) q (pa_retain a) props (stdin_line_reads sys))"

definition pub_run ::
  "protocol_crate \<Rightarrow> ('tcp, 'tls, 'req) network \<Rightarrow> os \<Rightarrow> pub_args \<Rightarrow> (world, error, unit) io" where
  "pub_run P N sys a =
     bind_io (try_io (map_sum from_mqtt id (qos_from_u8 P (pa_qos a)))) (\<lambda>q.
     bind_io (try_io (resolve_payload sys a)) (\<lambda>source.
     bind_io (try_io (resolve_properties P a)) (\<lambda>props.
     bind_io (connect P N sys (pa_conn a)) (\<lambda>c.
       with_client c (bind_io (publish_source P sys a q props source) (\<lambda>_. disconnect P))))))"

section \<open>Lemmas\<close>

subsection \<open>Waiting for an acknowledgement\<close>

text \<open>
  What the unread events make of a wait: quiet intervals and ping replies are passed over, and the
  first thing after them decides.
\<close>

fun awaited_ack ::
  "protocol_crate \<Rightarrow> string \<Rightarrow> net_event list \<Rightarrow> (error, reason_code) outcome \<times> net_event list" where
  "awaited_ack P what [] = (Pending, [])"
| "awaited_ack P what (Quiet # es) = awaited_ack P what es"
| "awaited_ack P what (Closed # es) = (Raise (Disconnected ''while waiting for a reply''), Closed # es)"
| "awaited_ack P what (Broken e # es) = (Raise (from_mqtt e), es)"
| "awaited_ack P what (Arrives p # es) = (case p of
      Puback a \<Rightarrow> (Return (ack_reason_code a), es)
    | Pubrec a \<Rightarrow> (Return (ack_reason_code a), es)
    | Pubcomp a \<Rightarrow> (Return (ack_reason_code a), es)
    | Pingresp \<Rightarrow> awaited_ack P what es
    | Disconnect code \<Rightarrow> (Raise (Rejected what code), es)
    | other \<Rightarrow> (Raise (Mqtt (protocol_error P (''expected an acknowledgement, got '' @ packet_name P other))), es))"

text \<open>A wait leaves all of a client but its reads as it was.\<close>

definition only_read :: "client \<Rightarrow> client \<Rightarrow> bool" where
  "only_read c d \<longleftrightarrow> sent_by d = sent_by c \<and> write_fault (cl_stream d) = write_fault (cl_stream c)
     \<and> cl_next_packet_id d = cl_next_packet_id c \<and> client_extends c d"

lemma only_read_after [simp]: "only_read c (after_read es c)"
  by (simp add: only_read_def) (simp add: after_read_def)

lemma only_read_trans: "only_read c d \<Longrightarrow> only_read d e \<Longrightarrow> only_read c e"
  using client_io.le_trans by (auto simp: only_read_def)

lemma only_read_reliable: "only_read c d \<Longrightarrow> reliable d = reliable c"
  by (simp add: only_read_def reliable_def)

lemma recv_skip_quiet:
  "unread c = Quiet # es \<Longrightarrow> recv c = recv (c\<lparr>cl_stream := (cl_stream c)\<lparr>inbox := es\<rparr>\<rparr>)"
proof -
  have "after_read fs (c\<lparr>cl_stream := (cl_stream c)\<lparr>inbox := es\<rparr>\<rparr>) = after_read fs c" for fs
    by (simp add: after_read_def)
  then show "unread c = Quiet # es \<Longrightarrow> ?thesis"
    by (simp add: recv_eq split: prod.splits outcome.splits read_outcome.splits)
qed

lemma expect_ack_awaited:
  "unread c = es \<Longrightarrow> \<exists>d. expect_ack P what c = (fst (awaited_ack P what es), d)
     \<and> unread d = snd (awaited_ack P what es) \<and> only_read c d"
proof (induction es arbitrary: c rule: awaited_ack.induct [case_names nil quiet closed broken arrives])
  case (quiet P what es)
  let ?c = "c\<lparr>cl_stream := (cl_stream c)\<lparr>inbox := es\<rparr>\<rparr>"
  have "expect_ack P what c = expect_ack P what ?c"
    using recv_skip_quiet [OF quiet.prems] by (subst (1 2) expect_ack.simps) simp
  moreover have "only_read ?c d \<Longrightarrow> only_read c d" for d
    by (auto simp: only_read_def client_extends_def sent_packets_def)
  ultimately show ?case using quiet.IH [of ?c] by auto
next
  case (arrives P what p es)
  have rc: "recv c = (Return p, after_read es c)"
    using arrives.prems by (simp add: recv_eq)
  show ?case
  proof (cases "p = Pingresp")
    case True
    then obtain d where "expect_ack P what (after_read es c) = (fst (awaited_ack P what es), d)"
      "unread d = snd (awaited_ack P what es)" "only_read (after_read es c) d"
      using arrives.IH [of "after_read es c"] by auto
    then show ?thesis
      using True rc only_read_trans [OF only_read_after] by (subst expect_ack.simps) auto
  next
    case False
    then show ?thesis
      using rc by (subst expect_ack.simps) (cases p; auto)
  qed
qed (subst expect_ack.simps; auto simp: recv_eq)+

lemma keeps_expect_ack [intro]: "client_io.keeps (expect_ack P what)"
proof (rule client_io.keepsI)
  show "expect_ack P what c = (r, d) \<Longrightarrow> client_extends c d" for c r d
    using expect_ack_awaited [of c "unread c" P what] by (auto simp: only_read_def)
qed

lemma awaited_ack_not_Panic [simp]: "fst (awaited_ack P what es) \<noteq> Panic"
  by (induction es rule: awaited_ack.induct) (auto split: packet.splits)

lemma expect_ack_not_Panic [simp]: "expect_ack P what c \<noteq> (Panic, d)"
  using expect_ack_awaited [of c "unread c" P what] awaited_ack_not_Panic [of P what "unread c"]
  by (auto simp del: awaited_ack_not_Panic)

lemma expect_ack_Return: "expect_ack P what c = (Return code, d) \<Longrightarrow> only_read c d"
  using expect_ack_awaited [of c "unread c" P what] by auto

subsection \<open>One publish\<close>

text \<open>The packets a publish sends when it goes through, with the identifier it takes.\<close>

definition message_packets ::
  "protocol_crate \<Rightarrow> string \<Rightarrow> qos \<Rightarrow> bool \<Rightarrow> properties \<Rightarrow> u16 \<Rightarrow> u8 list \<Rightarrow> packet list" where
  "message_packets P topic q retain props i payload =
     Publish (publish_message topic payload q retain props (if q = AtMostOnce then None else Some i)) #
     (if q = ExactlyOnce then [Pubrel (pub_ack_new i (rc_success P))] else [])"

definition id_for :: "qos \<Rightarrow> client \<Rightarrow> u16 option" where
  "id_for q c = (if q = AtMostOnce then None else Some (bump (cl_next_packet_id c)))"

definition client_with_id :: "qos \<Rightarrow> client \<Rightarrow> client" where
  "client_with_id q c = (if q = AtMostOnce then c else c\<lparr>cl_next_packet_id := bump (cl_next_packet_id c)\<rparr>)"

lemma next_packet_id_bump:
  "next_packet_id c = (bump (cl_next_packet_id c), c\<lparr>cl_next_packet_id := bump (cl_next_packet_id c)\<rparr>)"
  by (simp add: next_packet_id_def bump_def Let_def)

lemma publish_id_eq: "publish_id q c = (Return (id_for q c), client_with_id q c)"
  by (cases q) (auto simp: publish_id_def id_for_def client_with_id_def fresh_id_def bind_io_def
      return_io_def next_packet_id_bump)

lemma client_with_id_simps [simp]:
  "sent_by (client_with_id q c) = sent_by c" "unread (client_with_id q c) = unread c"
  "reliable (client_with_id q c) = reliable c"
  by (simp_all add: client_with_id_def)

lemma keeps_publish_id [intro]: "client_io.keeps (publish_id q)"
  by (cases q) (auto simp: publish_id_def intro!: client_io.keeps_intros)

lemma keeps_publish_one [intro]: "client_io.keeps (publish_one P topic payload q retain props)"
  unfolding publish_one_def
proof (rule client_io.keeps_bind_value [OF keeps_publish_id])
  fix c i d
  assume "publish_id q c = (Return i, d)"
  then have "client_packet_ok (Publish (publish_message topic payload q retain props i))"
    by (auto simp: publish_id_eq id_for_def publish_message_def split: if_splits)
  then show "client_io.keeps (bind_io (send (Publish (publish_message topic payload q retain props i))) (\<lambda>_.
       case q of
         AtMostOnce \<Rightarrow> return_io ()
       | AtLeastOnce \<Rightarrow> bind_io (expect_ack P ''publish'') (\<lambda>ack. try_io (check P ack ''publish''))
       | ExactlyOnce \<Rightarrow>
           bind_io (expect_ack P ''publish'') (\<lambda>rec.
           bind_io (try_io (check P rec ''publish'')) (\<lambda>_.
           bind_io (case i of None \<Rightarrow> panic_io | Some i \<Rightarrow> return_io i) (\<lambda>i.
           bind_io (send (Pubrel (pub_ack_new i (rc_success P)))) (\<lambda>_.
           bind_io (expect_ack P ''publish'') (\<lambda>comp. try_io (check P comp ''publish'')))))))) "
    by (cases q) (auto intro!: client_io.keeps_intros split: option.splits)
qed

lemma publish_id_not_Panic [simp]: "publish_id q c \<noteq> (Panic, d)"
  by (simp add: publish_id_eq)

lemma publish_one_not_Panic [simp]: "publish_one P topic payload q retain props c \<noteq> (Panic, d)"
  by (cases q) (auto simp: publish_one_def bind_Panic_iff publish_id_eq id_for_def)

lemma publish_one_sent:
  "publish_one P topic payload q retain props c = (Return (), d) \<Longrightarrow>
     sent_by d = sent_by c @ message_packets P topic q retain props (bump (cl_next_packet_id c)) payload
     \<and> cl_next_packet_id d = cl_next_packet_id (client_with_id q c)"
  by (cases q) (auto simp: publish_one_def bind_Return_iff publish_id_eq send_Return_iff
      try_io_Return_iff message_packets_def id_for_def only_read_def dest!: expect_ack_Return)

text \<open>One acknowledgement, waited for and checked.\<close>

definition acked :: "protocol_crate \<Rightarrow> net_event list \<Rightarrow> (error, unit) outcome \<times> net_event list" where
  "acked P es = (case awaited_ack P ''publish'' es of
      (Return code, fs) \<Rightarrow>
        (if rc_is_error P code then Raise (Rejected ''publish'' code) else Return (), fs)
    | (Raise e, fs) \<Rightarrow> (Raise e, fs)
    | (Panic, fs) \<Rightarrow> (Panic, fs)
    | (Pending, fs) \<Rightarrow> (Pending, fs))"

lemma ack_and_check:
  "\<exists>d. bind_io (expect_ack P ''publish'') (\<lambda>x. try_io (check P x ''publish'')) c
       = (fst (acked P (unread c)), d)
     \<and> unread d = snd (acked P (unread c)) \<and> only_read c d"
  using expect_ack_awaited [of c "unread c" P "''publish''"]
  by (auto simp: bind_io_def acked_def check_def try_io_def split: prod.splits outcome.splits)

subsection \<open>The run\<close>

text \<open>The packets of successive publishes: each takes the next identifier.\<close>

fun messages_packets ::
  "protocol_crate \<Rightarrow> string \<Rightarrow> qos \<Rightarrow> bool \<Rightarrow> properties \<Rightarrow> u16 \<Rightarrow> u8 list list \<Rightarrow> packet list" where
  "messages_packets P topic q retain props i [] = []"
| "messages_packets P topic q retain props i (x # xs) =
     message_packets P topic q retain props (bump i) x @ messages_packets P topic q retain props (bump i) xs"

lemma messages_packets_qos0:
  "messages_packets P topic AtMostOnce retain props i xs = messages_packets P topic AtMostOnce retain props j xs"
  by (induction xs arbitrary: i j) (auto simp: message_packets_def)

lemma publish_lines_sent:
  "publish_lines P topic q retain props lines c = (Return (), d) \<Longrightarrow>
     \<exists>ls. lines = map Inr ls
       \<and> sent_by d = sent_by c @ messages_packets P topic q retain props (cl_next_packet_id c) (map as_bytes ls)"
proof (induction lines arbitrary: c)
  case Nil
  then show ?case by auto
next
  case (Cons line rest)
  obtain s d1 where line: "line = Inr s"
    and one: "publish_one P topic (as_bytes s) q retain props c = (Return (), d1)"
    and tail: "publish_lines P topic q retain props rest d1 = (Return (), d)"
    using Cons.prems by (cases line) (auto simp: bind_Return_iff)
  obtain ls where ls: "rest = map Inr ls" "sent_by d = sent_by d1 @
      messages_packets P topic q retain props (cl_next_packet_id d1) (map as_bytes ls)"
    using Cons.IH [OF tail] by blast
  have "messages_packets P topic q retain props (cl_next_packet_id d1) (map as_bytes ls) =
      messages_packets P topic q retain props (bump (cl_next_packet_id c)) (map as_bytes ls)"
    using publish_one_sent [OF one] messages_packets_qos0 by (cases q) (auto simp: client_with_id_def)
  then show ?case
    using line ls publish_one_sent [OF one] by (intro exI [of _ "s # ls"]) simp
qed

lemma keeps_publish_lines [intro]: "client_io.keeps (publish_lines P topic q retain props lines)"
  by (induction lines) (auto intro!: client_io.keeps_intros)

lemma keeps_publish_source [intro]: "client_io.keeps (publish_source P sys a q props source)"
  by (cases source) (auto simp: publish_source_def)

lemma publish_lines_not_Panic [simp]: "publish_lines P topic q retain props lines c \<noteq> (Panic, d)"
  by (induction lines arbitrary: c) (auto simp: bind_Panic_iff)

lemma publish_source_not_Panic [simp]: "publish_source P sys a q props source c \<noteq> (Panic, d)"
  by (cases source) (auto simp: publish_source_def)

text \<open>The payloads a source stands for.\<close>

definition source_payloads :: "os \<Rightarrow> payload_source \<Rightarrow> u8 list list option" where
  "source_payloads sys source = (case source of
      Once payload \<Rightarrow> Some [payload]
    | Lines \<Rightarrow> (if \<exists>e. Inl e \<in> set (stdin_line_reads sys) then None
               else Some (map (as_bytes \<circ> projr) (stdin_line_reads sys))))"

lemma publish_source_sent:
  "publish_source P sys a q props source c = (Return (), d) \<Longrightarrow>
     \<exists>xs. source_payloads sys source = Some xs
       \<and> sent_by d = sent_by c @ messages_packets P (pa_topic a) q (pa_retain a) props (cl_next_packet_id c) xs"
  by (cases source) (auto simp: publish_source_def source_payloads_def comp_def dest!: publish_one_sent publish_lines_sent)

lemma pub_run_sent:
  assumes "fresh_streams N" "pub_run P N sys a w = (Return (), w')"
  shows "\<exists>q source props xs con. qos_from_u8 P (pa_qos a) = Inr q \<and> resolve_payload sys a = Inr source
     \<and> resolve_properties P a = Inr props \<and> source_payloads sys source = Some xs
     \<and> sent_packets (w_stream w') =
         Connect con # messages_packets P (pa_topic a) q (pa_retain a) props 0 xs @ [Disconnect (rc_success P)]"
proof -
  obtain q source props c w1 where args: "qos_from_u8 P (pa_qos a) = Inr q" "resolve_payload sys a = Inr source"
      "resolve_properties P a = Inr props"
    and con: "connect P N sys (pa_conn a) w = (Return c, w1)"
    and rest: "with_client c (bind_io (publish_source P sys a q props source) (\<lambda>_. disconnect P)) w1 = (Return (), w')"
    using assms(2)
    by (cases "qos_from_u8 P (pa_qos a)") (auto simp: pub_run_def bind_Return_iff try_io_Return_iff)
  obtain d e where d: "publish_source P sys a q props source c = (Return (), d)"
    and e: "disconnect P d = (Return (), e)" and w': "w_stream w' = cl_stream e"
    using rest by (auto simp: with_client_def bind_Return_iff split: prod.splits)
  obtain xs where xs: "source_payloads sys source = Some xs"
    "sent_by d = sent_by c @ messages_packets P (pa_topic a) q (pa_retain a) props (cl_next_packet_id c) xs"
    using publish_source_sent [OF d] by blast
  moreover obtain pk where "sent_by c = [Connect pk]" "cl_next_packet_id c = 0"
    using connect_Return_sent [OF assms(1) con] by blast
  moreover have "sent_by e = sent_by d @ [Disconnect (rc_success P)]"
    using e by (auto simp: disconnect_def bind_Return_iff send_Return_iff)
  ultimately show ?thesis using args w' by auto
qed

section \<open>Properties\<close>

text \<open>
  C2: what one publish does is decided by the broker's answers alone. On a stream that accepts
  writes, QoS 0 succeeds at once; QoS 1 succeeds exactly when the next answer, past quiet intervals
  and ping replies, acknowledges without an error code; QoS 2 needs that of PUBREC and then of
  PUBCOMP. It sends the PUBLISH, and for QoS 2 the PUBREL of the same identifier exactly when
  PUBREC accepted; no other packet.
\<close>

theorem publish_one_result:
  assumes "reliable c"
  shows "\<exists>d. publish_one P topic payload q retain props c =
       (case q of
          AtMostOnce \<Rightarrow> Return ()
        | AtLeastOnce \<Rightarrow> fst (acked P (unread c))
        | ExactlyOnce \<Rightarrow> (case acked P (unread c) of
             (Return _, es) \<Rightarrow> fst (acked P es) | (r, es) \<Rightarrow> r), d)
     \<and> sent_by d = sent_by c
         @ [Publish (publish_message topic payload q retain props (id_for q c))]
         @ (if q = ExactlyOnce \<and> fst (acked P (unread c)) = Return ()
            then [Pubrel (pub_ack_new (bump (cl_next_packet_id c)) (rc_success P))] else [])"
proof -
  let ?pub = "Publish (publish_message topic payload q retain props (id_for q c))"
  let ?c1 = "after_send ?pub (client_with_id q c)"
  let ?wait = "bind_io (expect_ack P ''publish'') (\<lambda>x. try_io (check P x ''publish''))"
  obtain d1 where d1: "?wait ?c1 = (fst (acked P (unread c)), d1)" "unread d1 = snd (acked P (unread c))"
    "only_read ?c1 d1" using ack_and_check [of P ?c1] by auto
  have sent1: "sent_by d1 = sent_by c @ [?pub]" using d1(3) by (simp add: only_read_def)
  have start: "publish_one P topic payload q retain props c =
      (case q of AtMostOnce \<Rightarrow> return_io () | AtLeastOnce \<Rightarrow> ?wait
        | ExactlyOnce \<Rightarrow> bind_io ?wait (\<lambda>_. bind_io (case id_for q c of None \<Rightarrow> panic_io | Some i \<Rightarrow> return_io i)
            (\<lambda>i. bind_io (send (Pubrel (pub_ack_new i (rc_success P)))) (\<lambda>_. ?wait)))) ?c1"
    using assms by (simp add: publish_one_def io_simps publish_id_eq bind_assoc cong: qos.case_cong split: qos.splits)
  show ?thesis
  proof (cases q)
    case ExactlyOnce
    show ?thesis
    proof (cases "fst (acked P (unread c))")
      case (Return u)
      let ?rel = "Pubrel (pub_ack_new (bump (cl_next_packet_id c)) (rc_success P))"
      have rel1: "reliable d1" using only_read_reliable [OF d1(3)] assms by simp
      obtain d2 where d2: "?wait (after_send ?rel d1) = (fst (acked P (unread d1)), d2)"
        "only_read (after_send ?rel d1) d2" using ack_and_check [of P "after_send ?rel d1"] by auto
      have "publish_one P topic payload q retain props c = (fst (acked P (unread d1)), d2)"
        using start ExactlyOnce Return d1(1) d2(1) rel1 by (simp add: io_simps id_for_def)
      moreover have "sent_by d2 = sent_by c @ [?pub, ?rel]"
        using d2(2) sent1 by (simp add: only_read_def)
      ultimately show ?thesis
        using ExactlyOnce Return d1(2) by (auto split: prod.splits)
    qed (use start ExactlyOnce d1 sent1 in \<open>auto simp: io_simps split: prod.splits\<close>)
  qed (use start d1 sent1 in auto)
qed

theorem publish_one_result_witness:
  "\<exists>d. publish_one mqtt_documented ''t'' [1] ExactlyOnce False properties_new
       (sample_client [Arrives (Pubrec (pub_ack_new 1 0)), Quiet, Arrives Pingresp, Arrives (Pubcomp (pub_ack_new 1 0))])
       = (Return (), d) \<and> length (sent_by d) = 2"
  using publish_one_result [of "sample_client [Arrives (Pubrec (pub_ack_new 1 0)), Quiet, Arrives Pingresp,
      Arrives (Pubcomp (pub_ack_new 1 0))]" mqtt_documented "''t''" "[1]" ExactlyOnce False properties_new]
  by (auto simp: acked_def)

text \<open>
  C13: a \<^verbatim>\<open>pub\<close> run that succeeds sent, in this order and nothing else: CONNECT; for each payload of
  its source one PUBLISH with the resolved properties, numbered with fresh identifiers for QoS 1
  and 2 and followed by its PUBREL for QoS 2; and DISCONNECT.
\<close>

theorem pub_run_packets:
  assumes "fresh_streams N" "pub_run P N sys a w = (Return (), w')"
  shows "\<exists>q source props xs con. qos_from_u8 P (pa_qos a) = Inr q \<and> resolve_payload sys a = Inr source
     \<and> resolve_properties P a = Inr props \<and> source_payloads sys source = Some xs
     \<and> sent_packets (w_stream w') =
         Connect con # messages_packets P (pa_topic a) q (pa_retain a) props 0 xs @ [Disconnect (rc_success P)]"
  by (rule pub_run_sent [OF assms])

definition sample_pub :: pub_args where
  "sample_pub = \<lparr>pa_conn = default_connection, pa_topic = ''t'', pa_message = Some ''hi'', pa_file = None,
     pa_stdin_lines = False, pa_qos = 1, pa_retain = False, pa_user_properties = [],
     pa_message_expiry_interval = None, pa_content_type = None, pa_payload_format_indicator = False\<rparr>"

lemma pub_run_sample:
  "\<exists>w'. pub_run mqtt_documented (scripted_network (accepting_broker @ [Arrives (Puback (pub_ack_new 1 0))]))
     bare_os sample_pub fresh_world = (Return (), w')"
proof -
  obtain c w1 where c: "connect mqtt_documented (scripted_network (accepting_broker @ [Arrives (Puback (pub_ack_new 1 0))]))
      bare_os default_connection fresh_world = (Return c, w1)"
    and es: "unread c = [Arrives (Puback (pub_ack_new 1 0))]" and r: "reliable c"
    using connect_accepting [of "[Arrives (Puback (pub_ack_new 1 0))]"] by blast
  let ?one = "publish_one mqtt_documented ''t'' (as_bytes ''hi'') AtLeastOnce False properties_new"
  let ?c1 = "after_send (Publish (publish_message ''t'' (as_bytes ''hi'') AtLeastOnce False properties_new
      (id_for AtLeastOnce c))) (client_with_id AtLeastOnce c)"
  have "?one c = bind_io (expect_ack mqtt_documented ''publish'') (\<lambda>x. try_io (check mqtt_documented x ''publish'')) ?c1"
    using r by (simp add: publish_one_def io_simps publish_id_eq)
  moreover have "fst (acked mqtt_documented (unread ?c1)) = Return ()"
    using es by (simp add: acked_def)
  ultimately obtain d where d: "?one c = (Return (), d)" "only_read ?c1 d"
    using ack_and_check [of mqtt_documented ?c1] by auto
  have "reliable d" using only_read_reliable [OF d(2)] r by simp
  then have "disconnect mqtt_documented d = (Return (), after_send (Disconnect 0) d)"
    by (simp add: disconnect_def io_simps)
  moreover have "resolve_payload bare_os sample_pub = Inr (Once (as_bytes ''hi''))"
    "resolve_properties mqtt_documented sample_pub = Inr properties_new"
    by (simp_all add: resolve_payload_def resolve_properties_def sample_pub_def version_def
        default_connection_def properties_new_def)
  moreover have "pa_conn sample_pub = default_connection" "pa_qos sample_pub = 1" "pa_topic sample_pub = ''t''"
    "\<not> pa_retain sample_pub" by (simp_all add: sample_pub_def)
  ultimately show ?thesis
    using c d by (simp add: pub_run_def bind_io_def return_io_def publish_source_def with_client_def)
qed

theorem pub_run_packets_witness:
  "\<exists>w' con. pub_run mqtt_documented (scripted_network (accepting_broker @ [Arrives (Puback (pub_ack_new 1 0))]))
       bare_os sample_pub fresh_world = (Return (), w')
     \<and> sent_packets (w_stream w') = [Connect con,
         Publish (publish_message ''t'' (as_bytes ''hi'') AtLeastOnce False properties_new (Some 1)), Disconnect 0]"
proof -
  obtain w' where w': "pub_run mqtt_documented (scripted_network (accepting_broker @ [Arrives (Puback (pub_ack_new 1 0))]))
     bare_os sample_pub fresh_world = (Return (), w')" using pub_run_sample by blast
  show ?thesis
    using w' pub_run_packets [OF fresh_streams_scripted w']
    by (auto simp: sample_pub_def resolve_payload_def resolve_properties_def source_payloads_def
        message_packets_def default_connection_def version_def Let_def bump_def
        properties_new_def)
qed

end
