(* ===== verification/Cmd_Subscribe.thy ===== *)
theory Cmd_Subscribe
  imports Mqtt_Client
begin

text \<open>
  The subcommand \<^verbatim>\<open>sub\<close> (\<^verbatim>\<open>src/subscribe.rs\<close>): SUBSCRIBE and its SUBACK, the acknowledgement of
  inbound messages, what is written to standard output, and the receive loop. The output functions
  and the contract of a receive loop also serve \<^verbatim>\<open>request\<close>.
\<close>

section \<open>Subscribing\<close>

definition subscribe_packet_for :: "string list \<Rightarrow> qos \<Rightarrow> u16 \<Rightarrow> subscribe_packet" where
  "subscribe_packet_for filters q i = \<lparr>sub_packet_id = i, sub_properties = properties_new,
     sub_filters = map (\<lambda>f. \<lparr>tf_filter = f, tf_qos = q, tf_no_local = False,
       tf_retain_as_published = False, tf_retain_handling = SendAtSubscribe\<rparr>) filters\<rparr>"

text \<open>The loop over \<^verbatim>\<open>filters.iter().zip(ack.reason_codes.iter())\<close>.\<close>

fun check_codes :: "protocol_crate \<Rightarrow> (string \<times> reason_code) list \<Rightarrow> error + unit" where
  "check_codes P [] = Inr ()"
| "check_codes P ((f, code) # rest) =
     (if rc_is_error P code then Inl (Rejected (''subscription to '' @ f) code) else check_codes P rest)"

function await_suback :: "protocol_crate \<Rightarrow> string list \<Rightarrow> (client, error, unit) io" where
  "await_suback P filters c = bind_io recv (\<lambda>p d. case p of
      Suback ack \<Rightarrow> try_io (check_codes P (zip filters (suback_reason_codes ack))) d
    | Disconnect code \<Rightarrow> raise_io (Rejected ''subscription'' code) d
    | _ \<Rightarrow> await_suback P filters d) c"
  by pat_completeness auto
termination
  by (relation "measure (\<lambda>(P, filters, c). length (unread c))") (auto dest!: recv_unread)

declare await_suback.simps [simp del]

definition subscribe :: "protocol_crate \<Rightarrow> string list \<Rightarrow> qos \<Rightarrow> (client, error, unit) io" where
  "subscribe P filters q =
     bind_io fresh_id (\<lambda>i.
     bind_io (send (Subscribe (subscribe_packet_for filters q i))) (\<lambda>_.
       await_suback P filters))"

section \<open>Acknowledging\<close>

definition acknowledge :: "protocol_crate \<Rightarrow> publish_packet \<Rightarrow> (client, error, unit) io" where
  "acknowledge P m = (case pub_packet_id m of
      None \<Rightarrow> return_io ()
    | Some i \<Rightarrow> (let ack = pub_ack_new i (rc_success P) in
        case pub_qos m of
          AtMostOnce \<Rightarrow> return_io ()
        | AtLeastOnce \<Rightarrow> send (Puback ack)
        | ExactlyOnce \<Rightarrow> send (Pubrec ack)))"

section \<open>Printing\<close>

text \<open>
  Failed writes to standard output are ignored by the source; the model's output accepts every
  byte.
\<close>

definition printable :: "u8 \<Rightarrow> bool" where
  "printable byte \<longleftrightarrow> byte = 9 \<or> (32 \<le> byte \<and> byte < 127) \<or> 128 \<le> byte"

definition escaped :: "u8 \<Rightarrow> u8 list" where
  "escaped byte = [92, 120] @ as_bytes (hex2 byte)"

text \<open>The loop with \<^verbatim>\<open>plain_from\<close>: runs of plain bytes are written in one piece.\<close>

fun escape_loop :: "u8 list \<Rightarrow> nat \<Rightarrow> nat \<Rightarrow> u8 list \<Rightarrow> u8 list \<Rightarrow> u8 list" where
  "escape_loop bytes plain_from index [] out = out @ drop plain_from bytes"
| "escape_loop bytes plain_from index (byte # rest) out =
     (if printable byte then escape_loop bytes plain_from (Suc index) rest out
      else escape_loop bytes (Suc index) (Suc index) rest
             (out @ take (index - plain_from) (drop plain_from bytes) @ escaped byte))"

definition write_payload :: "u8 list \<Rightarrow> bool \<Rightarrow> u8 list \<Rightarrow> u8 list" where
  "write_payload bytes escape out =
     (if \<not> escape then out @ bytes else escape_loop bytes 0 0 bytes out)"

text \<open>\<^verbatim>\<open>parts.join(" ")\<close>.\<close>

fun join_space :: "string list \<Rightarrow> string" where
  "join_space [] = []"
| "join_space [x] = x"
| "join_space (x # y # ys) = x @ '' '' @ join_space (y # ys)"

definition format_properties :: "properties \<Rightarrow> u8 list option" where
  "format_properties p = (let parts =
       (case p_content_type p of Some v \<Rightarrow> [''content-type='' @ v] | None \<Rightarrow> [])
     @ (case p_message_expiry_interval p of Some v \<Rightarrow> [''message-expiry-interval='' @ show_nat (unat v)] | None \<Rightarrow> [])
     @ (case p_payload_format_indicator p of Some v \<Rightarrow> [''payload-format-indicator='' @ show_nat (unat v)] | None \<Rightarrow> [])
     @ map (\<lambda>(k, v). ''user:'' @ k @ ''='' @ v) (p_user_properties p) in
     if parts = [] then None else Some (as_bytes (join_space parts)))"

definition print_message :: "os \<Rightarrow> publish_packet \<Rightarrow> bool \<Rightarrow> u8 list \<Rightarrow> u8 list" where
  "print_message sys m show_topic out =
     (let tty = stdout_is_terminal sys;
          out = (if show_topic then
              (let out = (case format_properties (pub_properties m) of
                   Some line \<Rightarrow> write_payload line tty out @ [10]
                 | None \<Rightarrow> out) in
               write_payload (as_bytes (pub_topic m)) tty out @ [32])
            else out) in
      write_payload (pub_payload m) tty out @ [10])"

section \<open>The receive loop\<close>

text \<open>A connected client and the standard output it prints to.\<close>

record session =
  se_client :: client
  se_stdout :: "u8 list"

definition on_client :: "(client, error, 'a) io \<Rightarrow> (session, error, 'a) io" where
  "on_client m = zoom_io se_client (\<lambda>c s. s\<lparr>se_client := c\<rparr>) m"

definition print_io :: "os \<Rightarrow> publish_packet \<Rightarrow> bool \<Rightarrow> (session, error, unit) io" where
  "print_io sys m show_topic s = (Return (), s\<lparr>se_stdout := print_message sys m show_topic (se_stdout s)\<rparr>)"

abbreviation pending :: "session \<Rightarrow> net_event list" where
  "pending s \<equiv> unread (se_client s)"

lemma on_client_Return_iff:
  "on_client m s = (Return x, t) \<longleftrightarrow> (\<exists>c. m (se_client s) = (Return x, c) \<and> t = s\<lparr>se_client := c\<rparr>)"
  by (auto simp: on_client_def zoom_io_def split: prod.splits)

lemma acknowledge_unread: "acknowledge P m c = (r, d) \<Longrightarrow> unread d = unread c"
  by (auto simp: acknowledge_def Let_def split: option.splits qos.splits dest: send_unread)

function sub_loop :: "protocol_crate \<Rightarrow> os \<Rightarrow> bool \<Rightarrow> u64 option \<Rightarrow> u64 \<Rightarrow> (session, error, unit) io" where
  "sub_loop P sys show_topic limit seen s = bind_io (on_client recv_keepalive) (\<lambda>p t. case p of
      Publish m \<Rightarrow>
        bind_io (on_client (acknowledge P m)) (\<lambda>_ u.
        bind_io (print_io sys m show_topic) (\<lambda>_ v.
          if (case limit of Some c \<Rightarrow> c \<le> seen + 1 | None \<Rightarrow> False) then return_io () v
          else sub_loop P sys show_topic limit (seen + 1) v) u) t
    | Pubrel rel \<Rightarrow>
        bind_io (on_client (send (Pubcomp (pub_ack_new (ack_packet_id rel) (rc_success P))))) (\<lambda>_ u.
          sub_loop P sys show_topic limit seen u) t
    | Disconnect code \<Rightarrow> raise_io (Rejected ''subscription'' code) t
    | _ \<Rightarrow> sub_loop P sys show_topic limit seen t) s"
  by pat_completeness auto
termination
  by (relation "measure (\<lambda>(P, sys, show_topic, limit, seen, s). length (pending s))")
    (auto simp: on_client_Return_iff print_io_def
      dest!: recv_keepalive_unread acknowledge_unread send_unread)

declare sub_loop.simps [simp del]

section \<open>The run\<close>

definition with_session :: "client \<Rightarrow> (session, error, 'a) io \<Rightarrow> (world, error, 'a) io" where
  "with_session c m w = (case m \<lparr>se_client = c, se_stdout = w_stdout w\<rparr> of
     (r, s) \<Rightarrow> (r, w\<lparr>w_stdout := se_stdout s, w_stream := cl_stream (se_client s)\<rparr>))"

definition sub_session :: "protocol_crate \<Rightarrow> os \<Rightarrow> sub_args \<Rightarrow> qos \<Rightarrow> (session, error, unit) io" where
  "sub_session P sys a q =
     bind_io (on_client (subscribe P (sa_topic a) q)) (\<lambda>_.
       if effective_limit a = Some 0 then on_client (disconnect P)
       else bind_io (sub_loop P sys (sa_show_topic a) (effective_limit a) 0) (\<lambda>_. on_client (disconnect P)))"

definition sub_run ::
  "protocol_crate \<Rightarrow> ('tcp, 'tls, 'req) network \<Rightarrow> os \<Rightarrow> sub_args \<Rightarrow> (world, error, unit) io" where
  "sub_run P N sys a =
     (if sa_topic a = [] then raise_io (Usage ''sub needs at least one --topic'')
      else bind_io (try_io (map_sum from_mqtt id (qos_from_u8 P (sa_qos a)))) (\<lambda>q.
           bind_io (connect P N sys (sa_conn a)) (\<lambda>c. with_session c (sub_session P sys a q))))"

section \<open>Lemmas\<close>

subsection \<open>Output\<close>

definition escape_byte :: "u8 \<Rightarrow> u8 list" where
  "escape_byte byte = (if printable byte then [byte] else escaped byte)"

lemma escape_loop_eq:
  "bytes = front @ rest \<Longrightarrow> index = length front \<Longrightarrow> plain_from \<le> index \<Longrightarrow>
     list_all printable (drop plain_from front) \<Longrightarrow>
     escape_loop bytes plain_from index rest out = out @ drop plain_from front @ concat (map escape_byte rest)"
proof (induction rest arbitrary: front index plain_from out)
  case Nil
  then show ?case by simp
next
  case (Cons byte rest)
  show ?case
  proof (cases "printable byte")
    case True
    then show ?thesis
      using Cons.prems Cons.IH [of "front @ [byte]" "Suc index" plain_from out]
      by (simp add: escape_byte_def)
  next
    case False
    have "take (index - plain_from) (drop plain_from bytes) = drop plain_from front"
      using Cons.prems by simp
    then show ?thesis
      using False Cons.prems Cons.IH [of "front @ [byte]" "Suc index" "Suc index"]
      by (simp add: escape_byte_def)
  qed
qed

lemma write_payload_eq:
  "write_payload bytes escape out = out @ (if escape then concat (map escape_byte bytes) else bytes)"
  using escape_loop_eq [of bytes "[]" bytes 0 0 out] by (simp add: write_payload_def)

lemma printable_unat: "printable b \<longleftrightarrow> unat b = 9 \<or> (32 \<le> unat b \<and> unat b < 127) \<or> 128 \<le> unat b"
  by (simp add: printable_def word_le_nat_alt word_less_nat_alt word_unat_eq_iff [of b])

lemma hex_digit_printable: "d < 16 \<Longrightarrow> printable (of_char (digit_char d))"
  by (auto simp: printable_unat digit_char_def)

lemma escape_byte_printable: "list_all printable (escape_byte byte)"
proof -
  have "unat byte < 256" using unsigned_less [where w = byte and 'a = nat] by simp
  then have "unat byte div 16 < 16" "unat byte mod 16 < 16" by auto
  then show ?thesis
    using hex_digit_printable
    by (auto simp: escape_byte_def escaped_def hex2_def as_bytes_def) (auto simp: printable_def)
qed

lemma escape_bytes_printable: "list_all printable (concat (map escape_byte bytes))"
  using escape_byte_printable by (induction bytes) auto

lemma escape_plain: "list_all printable bytes \<Longrightarrow> concat (map escape_byte bytes) = bytes"
  by (induction bytes) (auto simp: escape_byte_def)

lemma newline_escaped: "\<not> printable 10"
  by (simp add: printable_def)

text \<open>What one message adds to standard output.\<close>

definition shown :: "os \<Rightarrow> bool \<Rightarrow> publish_packet \<Rightarrow> u8 list" where
  "shown sys show_topic m = print_message sys m show_topic []"

lemma print_message_shown: "print_message sys m show_topic out = out @ shown sys show_topic m"
  by (simp add: shown_def print_message_def Let_def write_payload_eq split: option.splits)

subsection \<open>What a receive loop consumes, answers and prints\<close>

text \<open>The messages among a run of events.\<close>

definition messages :: "net_event list \<Rightarrow> publish_packet list" where
  "messages es = List.map_filter (\<lambda>e. case e of Arrives (Publish m) \<Rightarrow> Some m | _ \<Rightarrow> None) es"

lemma messages_simps [simp]:
  "messages [] = []" "messages (es @ fs) = messages es @ messages fs"
  "messages (replicate n Quiet) = []"
  "messages (Arrives (Publish m) # es) = m # messages es"
  by (auto simp: messages_def List.map_filter_def)

lemma messages_other: "(\<And>m. p \<noteq> Publish m) \<Longrightarrow> messages (Arrives p # es) = messages es"
  by (auto simp: messages_def List.map_filter_def split: packet.splits)

text \<open>What is sent for an event: a PINGREQ for a quiet interval, and the replies to a packet.\<close>

fun event_replies :: "u16 \<Rightarrow> (packet \<Rightarrow> packet list) \<Rightarrow> net_event \<Rightarrow> packet list" where
  "event_replies k replies Quiet = (if k = 0 then [] else [Pingreq])"
| "event_replies k replies (Arrives p) = replies p"
| "event_replies k replies Closed = []"
| "event_replies k replies (Broken e) = []"

lemma event_replies_quiet:
  "concat (map (event_replies k replies) (replicate n Quiet)) = (if k = 0 then [] else replicate n Pingreq)"
  by (induction n) auto

definition reached :: "u64 option \<Rightarrow> u64 \<Rightarrow> bool" where
  "reached goal seen \<longleftrightarrow> (case goal of Some c \<Rightarrow> c \<le> seen | None \<Rightarrow> False)"

definition count_up :: "packet \<Rightarrow> u64 \<Rightarrow> u64" where
  "count_up p seen = (case p of Publish m \<Rightarrow> seen + 1 | _ \<Rightarrow> seen)"

definition output_of :: "(publish_packet \<Rightarrow> u8 list) \<Rightarrow> packet \<Rightarrow> u8 list" where
  "output_of display p = (case p of Publish m \<Rightarrow> display m | _ \<Rightarrow> [])"

lemma succ_nonzero: "a < b \<Longrightarrow> a + 1 \<noteq> (0 :: 'a :: len word)"
  using word_order.extremum [of b] by (auto simp: eq_neg_iff_add_eq_0 [symmetric])

text \<open>
  The contract of a receive loop: a loop that returns before its goal was reached received one packet,
  sent the replies to it, printed it, counted it, and either reached the goal or went on from there.
\<close>

locale receive_loop =
  fixes loop :: "u64 \<Rightarrow> (session, error, unit) io"
    and replies :: "packet \<Rightarrow> packet list"
    and display :: "publish_packet \<Rightarrow> u8 list"
    and goal :: "u64 option"
  assumes loop_Return: "loop seen s = (Return (), t) \<Longrightarrow> \<not> reached goal seen \<Longrightarrow>
     (\<exists>p d e u. recv_keepalive (se_client s) = (Return p, d)
        \<and> sent_by e = sent_by d @ replies p \<and> unread e = unread d \<and> cl_keep_alive e = cl_keep_alive d
        \<and> u = s\<lparr>se_client := e, se_stdout := se_stdout s @ output_of display p\<rparr>
        \<and> (\<not> reached goal (count_up p seen) \<and> loop (count_up p seen) u = (Return (), t)
           \<or> reached goal (count_up p seen) \<and> t = u))"
begin

lemma loop_consumes:
  "loop seen s = (Return (), t) \<Longrightarrow> \<not> reached goal seen \<Longrightarrow>
     \<exists>es n. pending s = es @ pending t
       \<and> sent_by (se_client t) = sent_by (se_client s)
           @ concat (map (event_replies (cl_keep_alive (se_client s)) replies) es)
       \<and> se_stdout t = se_stdout s @ concat (map display (messages es))
       \<and> goal = Some n \<and> unat n = unat seen + length (messages es)"
proof (induction "length (pending s)" arbitrary: s seen rule: less_induct)
  case less
  let ?k = "cl_keep_alive (se_client s)"
  obtain p d e u where rk: "recv_keepalive (se_client s) = (Return p, d)"
    and e: "sent_by e = sent_by d @ replies p" "unread e = unread d" "cl_keep_alive e = cl_keep_alive d"
    and u: "u = s\<lparr>se_client := e, se_stdout := se_stdout s @ output_of display p\<rparr>"
    and next_: "\<not> reached goal (count_up p seen) \<and> loop (count_up p seen) u = (Return (), t)
           \<or> reached goal (count_up p seen) \<and> t = u"
    using loop_Return [OF less.prems] by blast
  obtain n where n: "unread (se_client s) = replicate n Quiet @ Arrives p # unread d"
    "sent_by d = sent_by (se_client s) @ (if ?k = 0 then [] else replicate n Pingreq)"
    "cl_keep_alive d = ?k"
    using recv_keepalive_Return [OF rk] by blast
  let ?es = "replicate n Quiet @ [Arrives p]"
  have step: "pending s = ?es @ pending u"
    "sent_by (se_client u) = sent_by (se_client s) @ concat (map (event_replies ?k replies) ?es)"
    using n e u by (simp_all add: event_replies_quiet)
  have out: "se_stdout u = se_stdout s @ concat (map display (messages ?es))"
    using u by (cases p) (auto simp: output_of_def messages_other)
  have cnt: "length (messages ?es) = (if \<exists>m. p = Publish m then 1 else 0)"
    by (cases p) (auto simp: messages_other)
  have up: "unat (count_up p seen) = unat seen + length (messages ?es)" if g: "goal = Some c" for c
  proof -
    have "seen < c" using less.prems(2) g by (auto simp: reached_def)
    then have "seen + 1 \<noteq> 0" by (rule succ_nonzero)
    then show ?thesis by (cases p) (auto simp: messages_other count_up_def unatSuc add.commute)
  qed
  show ?case
  proof (cases "reached goal (count_up p seen)")
    case True
    then obtain c where c: "goal = Some c" "c \<le> count_up p seen" by (auto simp: reached_def split: option.splits)
    have "unat c = unat seen + length (messages ?es)"
      using up [OF c(1)] c less.prems(2) cnt
      by (cases p) (auto simp: reached_def count_up_def word_le_nat_alt)
    then show ?thesis using True next_ step out c by (intro exI [of _ ?es]) auto
  next
    case False
    then have lt: "loop (count_up p seen) u = (Return (), t)" using next_ by blast
    have "length (pending u) < length (pending s)" using step by simp
    from less.hyps [OF this lt False] obtain fs m where fs: "pending u = fs @ pending t"
      "sent_by (se_client t) = sent_by (se_client u) @ concat (map (event_replies (cl_keep_alive (se_client u)) replies) fs)"
      "se_stdout t = se_stdout u @ concat (map display (messages fs))"
      "goal = Some m" "unat m = unat (count_up p seen) + length (messages fs)" by blast
    have "cl_keep_alive (se_client u) = ?k" using n e u by simp
    then show ?thesis
      using fs step out up [OF fs(4)] messages_simps(2) [of "[Arrives p]" fs] by (intro exI [of _ "?es @ fs"] exI [of _ m]) simp
  qed
qed

end

definition ack_packets :: "protocol_crate \<Rightarrow> publish_packet \<Rightarrow> packet list" where
  "ack_packets P m = (case pub_packet_id m of
      None \<Rightarrow> []
    | Some i \<Rightarrow> (case pub_qos m of
          AtMostOnce \<Rightarrow> []
        | AtLeastOnce \<Rightarrow> [Puback (pub_ack_new i (rc_success P))]
        | ExactlyOnce \<Rightarrow> [Pubrec (pub_ack_new i (rc_success P))]))"

lemma acknowledge_Return:
  "acknowledge P m c = (Return (), d) \<Longrightarrow>
     sent_by d = sent_by c @ ack_packets P m \<and> unread d = unread c \<and> cl_keep_alive d = cl_keep_alive c"
  by (auto simp: acknowledge_def ack_packets_def Let_def send_Return_iff split: option.splits qos.splits)

lemma send_Return:
  "send p c = (Return (), d) \<Longrightarrow>
     sent_by d = sent_by c @ [p] \<and> unread d = unread c \<and> cl_keep_alive d = cl_keep_alive c"
  by (auto simp: send_Return_iff)

definition sub_replies :: "protocol_crate \<Rightarrow> packet \<Rightarrow> packet list" where
  "sub_replies P p = (case p of
      Publish m \<Rightarrow> ack_packets P m
    | Pubrel rel \<Rightarrow> [Pubcomp (pub_ack_new (ack_packet_id rel) (rc_success P))]
    | _ \<Rightarrow> [])"

text \<open>One turn of the loop, by the packet it received.\<close>

lemma sub_loop_turn:
  assumes "sub_loop P sys show_topic limit seen s = (Return (), t)"
  obtains (message) m d e where "recv_keepalive (se_client s) = (Return (Publish m), d)"
      "acknowledge P m d = (Return (), e)"
      "if reached limit (seen + 1) then t = s\<lparr>se_client := e, se_stdout := se_stdout s @ shown sys show_topic m\<rparr>
       else sub_loop P sys show_topic limit (seen + 1)
         (s\<lparr>se_client := e, se_stdout := se_stdout s @ shown sys show_topic m\<rparr>) = (Return (), t)"
    | (release) rel d e where "recv_keepalive (se_client s) = (Return (Pubrel rel), d)"
      "send (Pubcomp (pub_ack_new (ack_packet_id rel) (rc_success P))) d = (Return (), e)"
      "sub_loop P sys show_topic limit seen (s\<lparr>se_client := e\<rparr>) = (Return (), t)"
    | (other) p d where "recv_keepalive (se_client s) = (Return p, d)"
      "sub_replies P p = []" "output_of (shown sys show_topic) p = []" "count_up p seen = seen"
      "sub_loop P sys show_topic limit seen (s\<lparr>se_client := d\<rparr>) = (Return (), t)"
proof -
  obtain p d where p: "recv_keepalive (se_client s) = (Return p, d)"
    and rest: "(case p of
      Publish m \<Rightarrow>
        bind_io (on_client (acknowledge P m)) (\<lambda>_ u.
        bind_io (print_io sys m show_topic) (\<lambda>_ v.
          if reached limit (seen + 1) then return_io () v
          else sub_loop P sys show_topic limit (seen + 1) v) u) (s\<lparr>se_client := d\<rparr>)
    | Pubrel rel \<Rightarrow>
        bind_io (on_client (send (Pubcomp (pub_ack_new (ack_packet_id rel) (rc_success P))))) (\<lambda>_ u.
          sub_loop P sys show_topic limit seen u) (s\<lparr>se_client := d\<rparr>)
    | Disconnect code \<Rightarrow> raise_io (Rejected ''subscription'' code) (s\<lparr>se_client := d\<rparr>)
    | _ \<Rightarrow> sub_loop P sys show_topic limit seen (s\<lparr>se_client := d\<rparr>)) = (Return (), t)"
    using assms unfolding reached_def
    by (subst (asm) sub_loop.simps) (auto simp: bind_Return_iff on_client_Return_iff)
  consider (m) m where "p = Publish m" | (r) rel where "p = Pubrel rel" | (o) "\<And>m. p \<noteq> Publish m" "\<And>rel. p \<noteq> Pubrel rel"
    by blast
  then show thesis
  proof cases
    case m
    obtain e where e: "acknowledge P m d = (Return (), e)"
      "if reached limit (seen + 1) then t = s\<lparr>se_client := e, se_stdout := se_stdout s @ shown sys show_topic m\<rparr>
       else sub_loop P sys show_topic limit (seen + 1)
         (s\<lparr>se_client := e, se_stdout := se_stdout s @ shown sys show_topic m\<rparr>) = (Return (), t)"
      using rest unfolding m
      by (cases "reached limit (seen + 1)")
        (auto simp: bind_Return_iff on_client_Return_iff print_io_def print_message_shown)
    show thesis using message p e unfolding m by blast
  next
    case r
    show thesis
      using rest p unfolding r by (auto simp: bind_Return_iff on_client_Return_iff intro: release)
  next
    case o
    then have "sub_loop P sys show_topic limit seen (s\<lparr>se_client := d\<rparr>) = (Return (), t)"
      using rest by (cases p) auto
    moreover have "sub_replies P p = []" "output_of (shown sys show_topic) p = []" "count_up p seen = seen"
      using o by (cases p; auto simp: sub_replies_def output_of_def count_up_def)+
    ultimately show thesis using p other by blast
  qed
qed

interpretation sub_receive: receive_loop "sub_loop P sys show_topic limit" "sub_replies P" "shown sys show_topic" limit
  for P sys show_topic limit
proof
  fix seen s t
  assume "sub_loop P sys show_topic limit seen s = (Return (), t)" and goal: "\<not> reached limit seen"
  then show "\<exists>p d e u. recv_keepalive (se_client s) = (Return p, d)
        \<and> sent_by e = sent_by d @ sub_replies P p \<and> unread e = unread d \<and> cl_keep_alive e = cl_keep_alive d
        \<and> u = s\<lparr>se_client := e, se_stdout := se_stdout s @ output_of (shown sys show_topic) p\<rparr>
        \<and> (\<not> reached limit (count_up p seen) \<and> sub_loop P sys show_topic limit (count_up p seen) u = (Return (), t)
           \<or> reached limit (count_up p seen) \<and> t = u)"
  proof (cases rule: sub_loop_turn)
    case (message m d e)
    then show ?thesis
      using acknowledge_Return [of P m d e]
      by (intro exI [of _ "Publish m"] exI [of _ d] exI [of _ e])
        (auto simp: sub_replies_def output_of_def count_up_def split: if_splits)
  next
    case (release rel d e)
    then show ?thesis
      using goal send_Return [of _ d e]
      by (intro exI [of _ "Pubrel rel"] exI [of _ d] exI [of _ e])
        (auto simp: sub_replies_def output_of_def count_up_def)
  next
    case (other p d)
    then show ?thesis
      using goal by (intro exI [of _ p] exI [of _ d]) auto
  qed
qed

subsection \<open>Subscribing\<close>

lemma check_codes_Inr_iff: "check_codes P xs = Inr () \<longleftrightarrow> (\<forall>(f, code)\<in>set xs. \<not> rc_is_error P code)"
  by (induction P xs rule: check_codes.induct) auto

lemma await_suback_Return:
  "await_suback P filters c = (Return (), d) \<Longrightarrow>
     \<exists>pre ack. unread c = pre @ Arrives (Suback ack) # unread d
       \<and> (\<forall>(f, code)\<in>set (zip filters (suback_reason_codes ack)). \<not> rc_is_error P code)
       \<and> sent_by d = sent_by c \<and> cl_keep_alive d = cl_keep_alive c"
proof (induction "length (unread c)" arbitrary: c rule: less_induct)
  case less
  obtain p e where rc: "recv c = (Return p, e)"
    and rest: "(case p of
      Suback ack \<Rightarrow> try_io (check_codes P (zip filters (suback_reason_codes ack))) e
    | Disconnect code \<Rightarrow> raise_io (Rejected ''subscription'' code) e
    | _ \<Rightarrow> await_suback P filters e) = (Return (), d)"
    using less.prems by (subst (asm) await_suback.simps) (auto simp: bind_Return_iff)
  obtain n where n: "unread c = replicate n Quiet @ Arrives p # unread e" "sent_by e = sent_by c"
    "cl_keep_alive e = cl_keep_alive c"
    using rc by (auto simp: recv_Return_iff dest: next_event_Got_split)
  show ?case
  proof (cases "\<exists>ack. p = Suback ack")
    case True
    then show ?thesis
      using rest n by (auto simp: try_io_Return_iff check_codes_Inr_iff)
  next
    case False
    then have "await_suback P filters e = (Return (), d)" using rest by (cases p) auto
    from less.hyps [OF recv_unread [OF rc] this] obtain pre ack where
      "unread c = (replicate n Quiet @ Arrives p # pre) @ Arrives (Suback ack) # unread d
       \<and> (\<forall>(f, code)\<in>set (zip filters (suback_reason_codes ack)). \<not> rc_is_error P code)
       \<and> sent_by d = sent_by c \<and> cl_keep_alive d = cl_keep_alive c"
      using n by auto
    then show ?thesis by blast
  qed
qed

lemma subscribe_Return:
  assumes "subscribe P filters q c = (Return (), d)"
  shows "\<exists>pre ack. unread c = pre @ Arrives (Suback ack) # unread d
       \<and> (\<forall>(f, code)\<in>set (zip filters (suback_reason_codes ack)). \<not> rc_is_error P code)
       \<and> sent_by d = sent_by c @ [Subscribe (subscribe_packet_for filters q (bump (cl_next_packet_id c)))]
       \<and> cl_keep_alive d = cl_keep_alive c"
  using assms
  by (auto simp: subscribe_def bind_Return_iff fresh_id_def next_packet_id_def bump_def Let_def send_Return_iff
      dest!: await_suback_Return)

subsection \<open>What a session keeps\<close>

lemma keeps_acknowledge [intro]: "client_io.keeps (acknowledge P m)"
  by (auto simp: acknowledge_def Let_def intro!: client_io.keeps_intros split: option.splits qos.splits)

lemma keeps_await_suback [intro]: "client_io.keeps (await_suback P filters)"
proof (rule client_io.keepsI)
  show "await_suback P filters c = (r, d) \<Longrightarrow> client_extends c d" for c r d
  proof (induction "length (unread c)" arbitrary: c rule: less_induct)
    case less
    obtain q e where rc: "recv c = (q, e)" by (cases "recv c")
    have ce: "client_extends c e" using client_io.keepsD [OF keeps_recv rc] .
    have "d = e \<or> (\<exists>p. q = Return p \<and> await_suback P filters e = (r, d))"
      using less.prems rc
      by (subst (asm) await_suback.simps)
        (auto simp: bind_io_def try_io_def split: outcome.splits packet.splits sum.splits)
    then show ?case
      using ce less.hyps [of e] recv_unread rc client_io.le_trans by blast
  qed
qed

lemma keeps_subscribe [intro]: "filters \<noteq> [] \<Longrightarrow> client_io.keeps (subscribe P filters q)"
  unfolding subscribe_def
  by (rule client_io.keeps_bind_value [OF keeps_fresh_id], intro client_io.keeps_intros keeps_send keeps_await_suback)
    (auto simp: subscribe_packet_for_def dest: fresh_id_nonzero)

definition session_extends :: "session \<Rightarrow> session \<Rightarrow> bool" where
  "session_extends s t \<longleftrightarrow> client_extends (se_client s) (se_client t) \<and> (\<exists>out. se_stdout t = se_stdout s @ out)"

interpretation session_io: io_preorder session_extends
proof
  show "session_extends s s" for s
    by (simp add: session_extends_def client_io.le_refl)
  show "session_extends s t \<Longrightarrow> session_extends t u \<Longrightarrow> session_extends s u" for s t u
    using client_io.le_trans by (fastforce simp: session_extends_def)
qed

lemma keeps_on_client: "client_io.keeps m \<Longrightarrow> session_io.keeps (on_client m)"
  by (rule session_io.keepsI)
    (auto simp: on_client_def zoom_io_def session_extends_def split: prod.splits dest: client_io.keepsD)

lemma keeps_print_io: "session_io.keeps (print_io sys m show_topic)"
  by (rule session_io.keepsI)
    (auto simp: print_io_def print_message_shown session_extends_def client_io.le_refl)

lemma pending_steps:
  "on_client recv_keepalive s = (Return p, t) \<Longrightarrow> length (pending t) < length (pending s)"
  "on_client (acknowledge P m) s = (Return x, t) \<Longrightarrow> pending t = pending s"
  "on_client (send q) s = (Return x, t) \<Longrightarrow> pending t = pending s"
  "print_io sys m show_topic s = (Return x, t) \<Longrightarrow> pending t = pending s"
  by (auto simp: on_client_Return_iff print_io_def dest: recv_keepalive_unread acknowledge_unread send_unread)

lemmas session_keeps = keeps_on_client keeps_print_io keeps_recv_keepalive keeps_acknowledge keeps_send
  keeps_disconnect keeps_subscribe

lemma sub_loop_extends: "session_extends s (snd (sub_loop P sys show_topic limit seen s))"
proof (induction "length (pending s)" arbitrary: s seen rule: less_induct)
  case less
  show ?case
    by (subst sub_loop.simps)
      (auto intro!: session_io.le_bind session_keeps session_io.le_stop less.hyps split: packet.split
        dest!: pending_steps)
qed

lemmas keeps_sub_loop = session_io.keeps_le [OF sub_loop_extends]

lemma keeps_sub_session: "sa_topic a \<noteq> [] \<Longrightarrow> session_io.keeps (sub_session P sys a q)"
  unfolding sub_session_def
  by (auto intro!: session_io.keeps_intros session_keeps keeps_sub_loop)

section \<open>Properties\<close>



text \<open>
  C39: bytes are never altered where they are data. Into a pipe or a file, and for any bytes without
  control characters also on a terminal, the loop of \<^verbatim>\<open>write_payload\<close> writes exactly the bytes it is
  given; otherwise it is the byte-wise escaping.
\<close>

theorem write_payload_exact:
  "write_payload bytes escape out =
     out @ (if escape then concat (map (\<lambda>b. if printable b then [b] else escaped b) bytes) else bytes)
   \<and> (list_all printable bytes \<longrightarrow> write_payload bytes escape out = out @ bytes)"
  using escape_plain [of bytes] by (simp add: write_payload_eq escape_byte_def [abs_def])

theorem write_payload_exact_witness: "write_payload [104, 9, 200] True [] = [104, 9, 200]"
  using write_payload_exact [of "[104, 9, 200]" True "[]"] by (simp add: printable_def)

text \<open>
  C38: a subscription that is accepted was asked for with one SUBSCRIBE carrying every filter in
  order under a non-zero identifier, and the SUBACK that came back holds no error code for any of
  the filters it answers.
\<close>

theorem subscribe_checked:
  assumes "subscribe P filters q c = (Return (), d)"
  shows "\<exists>i pre ack. i \<noteq> 0 \<and> sent_by d = sent_by c @ [Subscribe (subscribe_packet_for filters q i)]
     \<and> map tf_filter (sub_filters (subscribe_packet_for filters q i)) = filters
     \<and> unread c = pre @ Arrives (Suback ack) # unread d
     \<and> (\<forall>k < min (length filters) (length (suback_reason_codes ack)). \<not> rc_is_error P (suback_reason_codes ack ! k))"
proof -
  obtain pre ack where "unread c = pre @ Arrives (Suback ack) # unread d"
    and ok: "\<forall>(f, code)\<in>set (zip filters (suback_reason_codes ack)). \<not> rc_is_error P code"
    and "sent_by d = sent_by c @ [Subscribe (subscribe_packet_for filters q (bump (cl_next_packet_id c)))]"
    using subscribe_Return [OF assms] by blast
  moreover have "bump (cl_next_packet_id c) \<noteq> 0"
    using unat_bump [of "cl_next_packet_id c"] by auto
  moreover have "map tf_filter (sub_filters (subscribe_packet_for filters q i)) = filters" for i
    by (simp add: subscribe_packet_for_def comp_def)
  moreover have "\<not> rc_is_error P (suback_reason_codes ack ! k)"
    if "k < min (length filters) (length (suback_reason_codes ack))" for k
    using that ok by (force simp: set_zip)
  ultimately show ?thesis by blast
qed

definition suback_ok :: net_event where
  "suback_ok = Arrives (Suback \<lparr>suback_packet_id = 1, suback_reason_codes = [0]\<rparr>)"

lemma subscribe_sample:
  "\<exists>d. subscribe mqtt_documented [''t''] AtMostOnce (sample_client (suback_ok # es)) = (Return (), d)
     \<and> unread d = es \<and> reliable d \<and> cl_keep_alive d = 60"
  by (simp add: subscribe_def bind_io_def fresh_id_def next_packet_id_def Let_def send_reliable
      await_suback.simps recv_eq suback_ok_def return_io_def)
    (simp add: sample_client_def)

theorem subscribe_checked_witness:
  "\<exists>d i. subscribe mqtt_documented [''t''] AtMostOnce (sample_client [suback_ok]) = (Return (), d)
     \<and> sent_by d = [Subscribe (subscribe_packet_for [''t''] AtMostOnce i)]"
proof -
  obtain d where d: "subscribe mqtt_documented [''t''] AtMostOnce (sample_client [suback_ok]) = (Return (), d)"
    using subscribe_sample [of "[]"] by blast
  with subscribe_checked [OF d] show ?thesis by auto
qed

text \<open>
  C3: a \<^verbatim>\<open>sub\<close> session that ends successfully printed exactly as many messages as its limit says:
  those of the events it consumed after the SUBACK, in order, each once. What it sent is exactly the
  SUBSCRIBE, the replies those events call for (PUBACK, PUBREC, PUBCOMP, PINGREQ) in order, and
  DISCONNECT.
\<close>

theorem sub_session_delivers:
  assumes "sub_session P sys a q s = (Return (), t)" "effective_limit a \<noteq> Some 0"
  shows "\<exists>pre ack es n. pending s = pre @ Arrives (Suback ack) # es @ pending t
     \<and> effective_limit a = Some n \<and> length (messages es) = unat n
     \<and> se_stdout t = se_stdout s @ concat (map (shown sys (sa_show_topic a)) (messages es))
     \<and> sent_by (se_client t) = sent_by (se_client s)
         @ [Subscribe (subscribe_packet_for (sa_topic a) q (bump (cl_next_packet_id (se_client s))))]
         @ concat (map (event_replies (cl_keep_alive (se_client s)) (sub_replies P)) es)
         @ [Disconnect (rc_success P)]"
proof -
  obtain d u e where sub: "subscribe P (sa_topic a) q (se_client s) = (Return (), d)"
    and loop: "sub_loop P sys (sa_show_topic a) (effective_limit a) 0 (s\<lparr>se_client := d\<rparr>) = (Return (), u)"
    and disc: "disconnect P (se_client u) = (Return (), e)" and t: "t = u\<lparr>se_client := e\<rparr>"
    using assms by (auto simp: sub_session_def bind_Return_iff on_client_Return_iff)
  obtain pre ack where pre: "unread (se_client s) = pre @ Arrives (Suback ack) # unread d"
    "sent_by d = sent_by (se_client s)
       @ [Subscribe (subscribe_packet_for (sa_topic a) q (bump (cl_next_packet_id (se_client s))))]"
    "cl_keep_alive d = cl_keep_alive (se_client s)"
    using subscribe_Return [OF sub] by blast
  have "\<not> reached (effective_limit a) 0"
    using assms(2) by (auto simp: reached_def split: option.splits)
  from sub_receive.loop_consumes [OF loop this] obtain es n where "unread d = es @ pending u"
    "sent_by (se_client u) = sent_by d @ concat (map (event_replies (cl_keep_alive d) (sub_replies P)) es)"
    "se_stdout u = se_stdout s @ concat (map (shown sys (sa_show_topic a)) (messages es))"
    "effective_limit a = Some n" "unat n = length (messages es)" by auto
  moreover have "sent_by e = sent_by (se_client u) @ [Disconnect (rc_success P)]" "unread e = pending u"
    using disc by (auto simp: disconnect_def bind_Return_iff send_Return_iff)
  ultimately show ?thesis
    using pre t by (intro exI [of _ pre] exI [of _ ack] exI [of _ es] exI [of _ n]) simp
qed

definition sample_message :: publish_packet where
  "sample_message = \<lparr>pub_dup = False, pub_qos = AtLeastOnce, pub_retain = False, pub_topic = ''t'',
     pub_packet_id = Some 9, pub_properties = properties_new, pub_payload = [104, 105]\<rparr>"

definition sample_sub :: sub_args where
  "sample_sub = \<lparr>sa_conn = default_connection, sa_topic = [''t''], sa_qos = 0, sa_show_topic = False,
     sa_count = Some 1, sa_max_messages = DEFAULT_MAX_MESSAGES\<rparr>"

lemma sample_limit: "effective_limit sample_sub = Some 1"
  by (simp add: effective_limit_def sample_sub_def DEFAULT_MAX_MESSAGES_def Let_def min_def)

lemma sub_session_sample:
  "\<exists>t. sub_session mqtt_documented bare_os sample_sub AtMostOnce
     \<lparr>se_client = sample_client [suback_ok, Quiet, Arrives (Publish sample_message)], se_stdout = []\<rparr> = (Return (), t)"
proof -
  obtain d where d: "subscribe mqtt_documented [''t''] AtMostOnce
      (sample_client [suback_ok, Quiet, Arrives (Publish sample_message)]) = (Return (), d)"
    "unread d = [Quiet, Arrives (Publish sample_message)]" "reliable d" "cl_keep_alive d = 60"
    using subscribe_sample [of "[Quiet, Arrives (Publish sample_message)]"] by blast
  have rk: "\<exists>e. recv_keepalive d = (Return (Publish sample_message), e) \<and> reliable e"
    using d by (simp add: recv_keepalive_def ping_loop_reliable recv_eq)
  then obtain e where e: "recv_keepalive d = (Return (Publish sample_message), e)" "reliable e" by blast
  have ack: "acknowledge mqtt_documented sample_message e = (Return (), after_send (Puback (pub_ack_new 9 0)) e)"
    using e(2) by (simp add: acknowledge_def sample_message_def send_reliable)
  have disc: "disconnect mqtt_documented f = (Return (), after_send (Disconnect 0) f)" if "reliable f" for f
    using that by (simp add: disconnect_def io_simps)
  have "\<exists>u. sub_loop mqtt_documented bare_os False (Some 1) 0 \<lparr>se_client = d, se_stdout = []\<rparr> = (Return (), u)
      \<and> reliable (se_client u)"
    using e ack by (subst sub_loop.simps) (simp add: bind_io_def on_client_def zoom_io_def print_io_def return_io_def)
  then obtain u where u: "sub_loop mqtt_documented bare_os False (Some 1) 0 \<lparr>se_client = d, se_stdout = []\<rparr> = (Return (), u)"
    "reliable (se_client u)" by blast
  have "sa_topic sample_sub = [''t'']" "\<not> sa_show_topic sample_sub" by (simp_all add: sample_sub_def)
  then show ?thesis
    using d(1) u disc [OF u(2)]
    by (simp add: sub_session_def sample_limit bind_io_def on_client_def zoom_io_def)
qed

theorem sub_session_delivers_witness:
  "\<exists>t es. sub_session mqtt_documented bare_os sample_sub AtMostOnce
     \<lparr>se_client = sample_client [suback_ok, Quiet, Arrives (Publish sample_message)], se_stdout = []\<rparr> = (Return (), t)
     \<and> length (messages es) = 1 \<and> se_stdout t = concat (map (shown bare_os False) (messages es))"
proof -
  obtain t where t: "sub_session mqtt_documented bare_os sample_sub AtMostOnce
     \<lparr>se_client = sample_client [suback_ok, Quiet, Arrives (Publish sample_message)], se_stdout = []\<rparr> = (Return (), t)"
    using sub_session_sample by blast
  with sub_session_delivers [OF t] sample_limit show ?thesis
    by (auto simp: sample_sub_def)
qed

end
