(* ===== verification/Cmd_Request.thy ===== *)
theory Cmd_Request
  imports Cmd_Subscribe Cmd_Publish
begin

text \<open>
  The subcommand \<^verbatim>\<open>request\<close> (\<^verbatim>\<open>src/request.rs\<close>): subscribe to the reply topic, publish the request,
  and print replies until the count is reached.
\<close>

section \<open>The receive loop\<close>

function request_loop :: "protocol_crate \<Rightarrow> os \<Rightarrow> bool \<Rightarrow> u64 \<Rightarrow> u64 \<Rightarrow> (session, error, unit) io" where
  "request_loop P sys show_topic wanted seen s =
     (if \<not> seen < wanted then return_io () s
      else bind_io (on_client recv_keepalive) (\<lambda>p t. case p of
          Publish m \<Rightarrow>
            bind_io (on_client (acknowledge P m)) (\<lambda>_ u.
            bind_io (print_io sys m show_topic) (\<lambda>_ v.
              request_loop P sys show_topic wanted (seen + 1) v) u) t
        | Pubrel rel \<Rightarrow>
            bind_io (on_client (send (Pubcomp (pub_ack_new (ack_packet_id rel) (rc_success P))))) (\<lambda>_ u.
              request_loop P sys show_topic wanted seen u) t
        | Puback _ \<Rightarrow> request_loop P sys show_topic wanted seen t
        | Pubcomp _ \<Rightarrow> request_loop P sys show_topic wanted seen t
        | Pingresp \<Rightarrow> request_loop P sys show_topic wanted seen t
        | Pubrec rec \<Rightarrow>
            bind_io (on_client (send (Pubrel (pub_ack_new (ack_packet_id rec) (rc_success P))))) (\<lambda>_ u.
              request_loop P sys show_topic wanted seen u) t
        | Disconnect code \<Rightarrow> raise_io (Rejected ''request'' code) t
        | _ \<Rightarrow> request_loop P sys show_topic wanted seen t) s)"
  by pat_completeness auto
termination
  by (relation "measure (\<lambda>(P, sys, show_topic, wanted, seen, s). length (pending s))")
    (auto dest!: pending_steps)

declare request_loop.simps [simp del]

section \<open>The run\<close>

definition request_properties :: "protocol_crate \<Rightarrow> request_args \<Rightarrow> properties" where
  "request_properties P a =
     (if has_properties P (version (ra_conn a)) then properties_new\<lparr>p_response_topic := Some (ra_reply_topic a)\<rparr>
      else properties_new)"

definition request_message :: "protocol_crate \<Rightarrow> request_args \<Rightarrow> qos \<Rightarrow> u16 option \<Rightarrow> publish_packet" where
  "request_message P a q packet_id =
     \<lparr>pub_dup = False, pub_qos = q, pub_retain = False, pub_topic = ra_topic a, pub_packet_id = packet_id,
      pub_properties = request_properties P a,
      pub_payload = as_bytes (case ra_message a of Some m \<Rightarrow> m | None \<Rightarrow> [])\<rparr>"

definition request_id :: "qos \<Rightarrow> (client, error, u16 option) io" where
  "request_id q = (case q of
      AtMostOnce \<Rightarrow> return_io None
    | _ \<Rightarrow> bind_io fresh_id (\<lambda>i. return_io (Some i)))"

definition request_session :: "protocol_crate \<Rightarrow> os \<Rightarrow> request_args \<Rightarrow> qos \<Rightarrow> (session, error, unit) io" where
  "request_session P sys a q =
     bind_io (on_client (subscribe P [ra_reply_topic a] q)) (\<lambda>_.
     bind_io (on_client (request_id q)) (\<lambda>packet_id.
     bind_io (on_client (send (Publish (request_message P a q packet_id)))) (\<lambda>_.
     bind_io (request_loop P sys (ra_show_topic a) (ra_count a) 0) (\<lambda>_. on_client (disconnect P)))))"

definition request_run ::
  "protocol_crate \<Rightarrow> ('tcp, 'tls, 'req) network \<Rightarrow> os \<Rightarrow> request_args \<Rightarrow> (world, error, unit) io" where
  "request_run P N sys a =
     (if version (ra_conn a) = V3_1 then
        raise_io (Unsupported ''request requires MQTT v5.0 or v3.1.1: v3.1 has no Response Topic property and no way to correlate a reply'')
      else bind_io (try_io (map_sum from_mqtt id (qos_from_u8 P (ra_qos a)))) (\<lambda>q.
           bind_io (connect P N sys (ra_conn a)) (\<lambda>c. with_session c (request_session P sys a q))))"

section \<open>Lemmas\<close>

definition request_replies :: "protocol_crate \<Rightarrow> packet \<Rightarrow> packet list" where
  "request_replies P p = (case p of
      Publish m \<Rightarrow> ack_packets P m
    | Pubrel rel \<Rightarrow> [Pubcomp (pub_ack_new (ack_packet_id rel) (rc_success P))]
    | Pubrec rec \<Rightarrow> [Pubrel (pub_ack_new (ack_packet_id rec) (rc_success P))]
    | _ \<Rightarrow> [])"

lemma request_loop_stop: "\<not> seen < wanted \<Longrightarrow> request_loop P sys show_topic wanted seen s = (Return (), s)"
  by (subst request_loop.simps) (simp add: return_io_def)

lemma request_loop_turn:
  assumes "request_loop P sys show_topic wanted seen s = (Return (), t)" "seen < wanted"
  shows "\<exists>p d e. recv_keepalive (se_client s) = (Return p, d)
    \<and> sent_by e = sent_by d @ request_replies P p \<and> unread e = unread d \<and> cl_keep_alive e = cl_keep_alive d
    \<and> request_loop P sys show_topic wanted (count_up p seen)
        (s\<lparr>se_client := e, se_stdout := se_stdout s @ output_of (shown sys show_topic) p\<rparr>) = (Return (), t)"
proof -
  let ?loop = "request_loop P sys show_topic wanted"
  obtain p d where p: "recv_keepalive (se_client s) = (Return p, d)"
    and rest: "(case p of
          Publish m \<Rightarrow>
            bind_io (on_client (acknowledge P m)) (\<lambda>_ u.
            bind_io (print_io sys m show_topic) (\<lambda>_ v. ?loop (seen + 1) v) u) (s\<lparr>se_client := d\<rparr>)
        | Pubrel rel \<Rightarrow>
            bind_io (on_client (send (Pubcomp (pub_ack_new (ack_packet_id rel) (rc_success P))))) (\<lambda>_ u.
              ?loop seen u) (s\<lparr>se_client := d\<rparr>)
        | Puback _ \<Rightarrow> ?loop seen (s\<lparr>se_client := d\<rparr>)
        | Pubcomp _ \<Rightarrow> ?loop seen (s\<lparr>se_client := d\<rparr>)
        | Pingresp \<Rightarrow> ?loop seen (s\<lparr>se_client := d\<rparr>)
        | Pubrec rec \<Rightarrow>
            bind_io (on_client (send (Pubrel (pub_ack_new (ack_packet_id rec) (rc_success P))))) (\<lambda>_ u.
              ?loop seen u) (s\<lparr>se_client := d\<rparr>)
        | Disconnect code \<Rightarrow> raise_io (Rejected ''request'' code) (s\<lparr>se_client := d\<rparr>)
        | _ \<Rightarrow> ?loop seen (s\<lparr>se_client := d\<rparr>)) = (Return (), t)"
    using assms by (subst (asm) request_loop.simps) (auto simp: bind_Return_iff on_client_Return_iff)
  have "\<exists>e. sent_by e = sent_by d @ request_replies P p \<and> unread e = unread d \<and> cl_keep_alive e = cl_keep_alive d
    \<and> ?loop (count_up p seen) (s\<lparr>se_client := e, se_stdout := se_stdout s @ output_of (shown sys show_topic) p\<rparr>) = (Return (), t)"
  proof (cases p)
    case (Publish m)
    then obtain e where "acknowledge P m d = (Return (), e)"
      "?loop (seen + 1) (s\<lparr>se_client := e, se_stdout := se_stdout s @ shown sys show_topic m\<rparr>) = (Return (), t)"
      using rest by (auto simp: bind_Return_iff on_client_Return_iff print_io_def print_message_shown)
    then show ?thesis
      using Publish acknowledge_Return by (fastforce simp: request_replies_def output_of_def count_up_def)
  next
    case (Pubrel rel)
    then obtain e where "send (Pubcomp (pub_ack_new (ack_packet_id rel) (rc_success P))) d = (Return (), e)"
      "?loop seen (s\<lparr>se_client := e\<rparr>) = (Return (), t)"
      using rest by (auto simp: bind_Return_iff on_client_Return_iff)
    then show ?thesis
      using Pubrel send_Return by (fastforce simp: request_replies_def output_of_def count_up_def)
  next
    case (Pubrec rec)
    then obtain e where "send (Pubrel (pub_ack_new (ack_packet_id rec) (rc_success P))) d = (Return (), e)"
      "?loop seen (s\<lparr>se_client := e\<rparr>) = (Return (), t)"
      using rest by (auto simp: bind_Return_iff on_client_Return_iff)
    then show ?thesis
      using Pubrec send_Return by (fastforce simp: request_replies_def output_of_def count_up_def)
  qed (use rest in \<open>auto simp: request_replies_def output_of_def count_up_def intro!: exI [of _ d]\<close>)
  with p show ?thesis by blast
qed

interpretation request_receive: receive_loop "request_loop P sys show_topic wanted" "request_replies P"
    "shown sys show_topic" "Some wanted"
  for P sys show_topic wanted
proof
  fix seen s t
  assume "request_loop P sys show_topic wanted seen s = (Return (), t)" "\<not> reached (Some wanted) seen"
  then obtain p d e where p: "recv_keepalive (se_client s) = (Return p, d)"
    "sent_by e = sent_by d @ request_replies P p" "unread e = unread d" "cl_keep_alive e = cl_keep_alive d"
    and loop: "request_loop P sys show_topic wanted (count_up p seen)
        (s\<lparr>se_client := e, se_stdout := se_stdout s @ output_of (shown sys show_topic) p\<rparr>) = (Return (), t)"
    using request_loop_turn [of P sys show_topic wanted seen s t] by (auto simp: reached_def not_le)
  then show "\<exists>p d e u. recv_keepalive (se_client s) = (Return p, d)
        \<and> sent_by e = sent_by d @ request_replies P p \<and> unread e = unread d \<and> cl_keep_alive e = cl_keep_alive d
        \<and> u = s\<lparr>se_client := e, se_stdout := se_stdout s @ output_of (shown sys show_topic) p\<rparr>
        \<and> (\<not> reached (Some wanted) (count_up p seen) \<and> request_loop P sys show_topic wanted (count_up p seen) u = (Return (), t)
           \<or> reached (Some wanted) (count_up p seen) \<and> t = u)"
    using request_loop_stop [of "count_up p seen" wanted P sys show_topic]
    by (cases "reached (Some wanted) (count_up p seen)") (auto simp: reached_def not_le)
qed

lemma request_loop_extends: "session_extends s (snd (request_loop P sys show_topic wanted seen s))"
proof (induction "length (pending s)" arbitrary: s seen rule: less_induct)
  case less
  show ?case
    by (subst request_loop.simps)
      (auto intro!: session_io.le_bind session_keeps session_io.le_stop less.hyps split: packet.split
        dest!: pending_steps)
qed

lemmas keeps_request_loop = session_io.keeps_le [OF request_loop_extends]

lemma keeps_request_id [intro]: "client_io.keeps (request_id q)"
  by (cases q) (auto simp: request_id_def intro!: client_io.keeps_intros)

lemma request_id_Return:
  "request_id q c = (Return i, d) \<Longrightarrow> sent_by d = sent_by c \<and> unread d = unread c \<and> cl_keep_alive d = cl_keep_alive c
     \<and> i = (if q = AtMostOnce then None else Some (bump (cl_next_packet_id c)))"
  by (cases q) (auto simp: request_id_def bind_Return_iff fresh_id_def next_packet_id_bump)

lemma keeps_request_session: "session_io.keeps (request_session P sys a q)"
  unfolding request_session_def
proof (rule session_io.keeps_bind [OF keeps_on_client [OF keeps_subscribe]], simp, rule session_io.keeps_bind_value)
  show "session_io.keeps (on_client (request_id q))" by (intro session_keeps keeps_request_id)
next
  fix s i t
  assume "on_client (request_id q) s = (Return i, t)"
  then obtain c d where "request_id q c = (Return i, d)" by (auto simp: on_client_Return_iff)
  then have "client_packet_ok (Publish (request_message P a q i))"
    using request_id_Return by (fastforce simp: request_message_def)
  then show "session_io.keeps (bind_io (on_client (send (Publish (request_message P a q i)))) (\<lambda>_.
     bind_io (request_loop P sys (ra_show_topic a) (ra_count a) 0) (\<lambda>_. on_client (disconnect P))))"
    by (intro session_io.keeps_intros session_keeps keeps_request_loop)
qed

section \<open>Properties\<close>


definition sample_request :: request_args where
  "sample_request = \<lparr>ra_conn = default_connection, ra_topic = ''q'', ra_reply_topic = ''t'', ra_message = Some ''hi'',
     ra_qos = 0, ra_show_topic = False, ra_count = 1\<rparr>"

lemma request_session_sample:
  "\<exists>t. request_session mqtt_documented bare_os sample_request AtMostOnce
     \<lparr>se_client = sample_client [suback_ok, Arrives (Publish sample_message)], se_stdout = []\<rparr> = (Return (), t)"
proof -
  obtain d where d: "subscribe mqtt_documented [''t''] AtMostOnce
      (sample_client [suback_ok, Arrives (Publish sample_message)]) = (Return (), d)"
    "unread d = [Arrives (Publish sample_message)]" "reliable d" "cl_keep_alive d = 60"
    using subscribe_sample [of "[Arrives (Publish sample_message)]"] by blast
  let ?d1 = "after_send (Publish (request_message mqtt_documented sample_request AtMostOnce None)) d"
  have "\<exists>e. recv_keepalive ?d1 = (Return (Publish sample_message), e) \<and> reliable e"
    using d by (simp add: recv_keepalive_def ping_loop_reliable recv_eq)
  then obtain e where e: "recv_keepalive ?d1 = (Return (Publish sample_message), e)" "reliable e" by blast
  have ack: "acknowledge mqtt_documented sample_message e = (Return (), after_send (Puback (pub_ack_new 9 0)) e)"
    using e(2) by (simp add: acknowledge_def sample_message_def send_reliable)
  have disc: "disconnect mqtt_documented f = (Return (), after_send (Disconnect 0) f)" if "reliable f" for f
    using that by (simp add: disconnect_def io_simps)
  have "\<exists>u. request_loop mqtt_documented bare_os False 1 0 \<lparr>se_client = ?d1, se_stdout = []\<rparr> = (Return (), u)
      \<and> reliable (se_client u)"
    using e ack request_loop_stop [of 1 1 mqtt_documented bare_os False]
    by (subst request_loop.simps) (simp add: bind_io_def on_client_def zoom_io_def print_io_def)
  then obtain u where u: "request_loop mqtt_documented bare_os False 1 0 \<lparr>se_client = ?d1, se_stdout = []\<rparr> = (Return (), u)"
    "reliable (se_client u)" by blast
  have "ra_reply_topic sample_request = ''t''" "\<not> ra_show_topic sample_request" "ra_count sample_request = 1"
    by (simp_all add: sample_request_def)
  then show ?thesis
    using d(1,3) u disc [OF u(2)]
    by (simp add: request_session_def bind_io_def on_client_def zoom_io_def request_id_def return_io_def send_reliable)
qed


end
