(* ===== verification/Bench_Payload.thy ===== *)
theory Bench_Payload
  imports Wisp_Prelude
begin

text \<open>
  The measurement header of benchmark payloads (\<^verbatim>\<open>src/bench/payload.rs\<close>): sixteen big-endian bytes
  at the front of a payload of the requested size.
\<close>

definition HEADER_LEN :: nat where
  "HEADER_LEN = 16"

record header =
  hd_elapsed_ns :: u64
  hd_publisher :: u32
  hd_seq :: u32

text \<open>\<^verbatim>\<open>buf[i..i + bytes.len()].copy_from_slice(bytes)\<close>, within bounds.\<close>

definition copy_at :: "nat \<Rightarrow> u8 list \<Rightarrow> u8 list \<Rightarrow> u8 list" where
  "copy_at i bytes buf = take i buf @ bytes @ drop (i + length bytes) buf"

definition u64_be_bytes :: "u64 \<Rightarrow> u8 list" where
  "u64_be_bytes x = be_bytes 8 (unat x)"

definition u32_be_bytes :: "u32 \<Rightarrow> u8 list" where
  "u32_be_bytes x = be_bytes 4 (unat x)"

definition build :: "nat \<Rightarrow> header \<Rightarrow> u8 list" where
  "build sz h =
     (let buf = replicate (max sz HEADER_LEN) 0;
          buf = copy_at 0 (u64_be_bytes (hd_elapsed_ns h)) buf;
          buf = copy_at 8 (u32_be_bytes (hd_publisher h)) buf;
          buf = copy_at 12 (u32_be_bytes (hd_seq h)) buf in
      buf)"

text \<open>\<^verbatim>\<open>payload[i..j]\<close>; the conversions of slices of the right length cannot fail.\<close>

definition slice :: "nat \<Rightarrow> nat \<Rightarrow> u8 list \<Rightarrow> u8 list" where
  "slice i j payload = take (j - i) (drop i payload)"

definition decode :: "u8 list \<Rightarrow> header option" where
  "decode payload =
     (if length payload < HEADER_LEN then None
      else Some \<lparr>hd_elapsed_ns = of_nat (from_be (slice 0 8 payload)),
                 hd_publisher = of_nat (from_be (slice 8 12 payload)),
                 hd_seq = of_nat (from_be (slice 12 16 payload))\<rparr>)"

section \<open>Lemmas\<close>

lemma build_layout:
  "build sz h = u64_be_bytes (hd_elapsed_ns h) @ u32_be_bytes (hd_publisher h) @ u32_be_bytes (hd_seq h)
     @ replicate (sz - HEADER_LEN) 0"
proof -
  have "max sz 16 - 16 = sz - 16" by simp
  then show ?thesis
    by (simp add: build_def copy_at_def HEADER_LEN_def u64_be_bytes_def u32_be_bytes_def Let_def
        min_def max_def)
qed

lemma from_be_u64: "of_nat (from_be (u64_be_bytes x)) = x"
  using unsigned_less [where w = x and 'a = nat] by (simp add: u64_be_bytes_def from_be_be_bytes)

lemma from_be_u32: "of_nat (from_be (u32_be_bytes x)) = x"
  using unsigned_less [where w = x and 'a = nat] by (simp add: u32_be_bytes_def from_be_be_bytes)

lemma from_be_append: "from_be (xs @ ys) = from_be xs * 256 ^ length ys + from_be ys"
proof (induction ys rule: rev_induct)
  case Nil
  then show ?case by simp
next
  case (snoc y ys)
  have "from_be (xs @ ys @ [y]) = from_be (xs @ ys) * 256 + unat y"
    using from_be_snoc [of "xs @ ys" y] by simp
  then show ?case using snoc by (simp add: from_be_snoc algebra_simps)
qed

lemma from_be_bound: "from_be bs < 256 ^ length bs"
proof (induction bs rule: rev_induct)
  case Nil
  then show ?case by simp
next
  case (snoc b bs)
  have "unat b < 256" using unsigned_less [where w = b and 'a = nat] by simp
  then show ?case using snoc by (simp add: from_be_snoc)
qed

lemma be_bytes_from_be: "length bs = k \<Longrightarrow> be_bytes k (from_be bs) = bs"
proof (induction bs arbitrary: k rule: rev_induct)
  case Nil
  then show ?case by simp
next
  case (snoc b bs)
  have b: "unat b < 256" using unsigned_less [where w = b and 'a = nat] by simp
  then have "(from_be bs * 256 + unat b) div 256 = from_be bs" "(from_be bs * 256 + unat b) mod 256 = unat b"
    by auto
  then show ?case using snoc by (auto simp: from_be_snoc)
qed

lemma decode_build: "decode (build sz h) = Some h"
  by (cases h)
    (simp add: decode_def build_layout slice_def HEADER_LEN_def u64_be_bytes_def u32_be_bytes_def
      from_be_u64 [unfolded u64_be_bytes_def] from_be_u32 [unfolded u32_be_bytes_def])

lemma length_build: "length (build sz h) = max sz HEADER_LEN"
  by (simp add: build_layout HEADER_LEN_def u64_be_bytes_def u32_be_bytes_def max_def)

section \<open>Properties\<close>

text \<open>
  C21: a header survives the wire. The payload built for a size carries the header back out
  unchanged, has the requested size (and never less than the sixteen header bytes), and is zero
  behind the header.
\<close>

theorem header_roundtrip:
  "decode (build sz h) = Some h \<and> length (build sz h) = max sz HEADER_LEN
   \<and> drop HEADER_LEN (build sz h) = replicate (sz - HEADER_LEN) 0"
  by (simp add: decode_build length_build) (simp add: build_layout HEADER_LEN_def u64_be_bytes_def u32_be_bytes_def)

text \<open>
  Decoding loses nothing of the sixteen bytes: a payload decodes exactly when it has them, and
  the header it gives encodes to the very same bytes.
\<close>

theorem decode_faithful:
  "(decode payload = None \<longleftrightarrow> length payload < HEADER_LEN)
   \<and> (\<forall>h. decode payload = Some h \<longrightarrow> take HEADER_LEN (build sz h) = take HEADER_LEN payload)"
proof -
  have "take HEADER_LEN (build sz h) = take HEADER_LEN payload" if d: "decode payload = Some h" for h
  proof -
    have len: "16 \<le> length payload"
      using d by (auto simp: decode_def HEADER_LEN_def split: if_splits)
    let ?a = "slice 0 8 payload" and ?b = "slice 8 12 payload" and ?c = "slice 12 16 payload"
    have ls: "length ?a = 8" "length ?b = 4" "length ?c = 4" using len by (auto simp: slice_def)
    have h: "unat (hd_elapsed_ns h) = from_be ?a" "unat (hd_publisher h) = from_be ?b" "unat (hd_seq h) = from_be ?c"
      using d from_be_bound [of ?a] from_be_bound [of ?b] from_be_bound [of ?c] ls
      by (auto simp: decode_def unat_of_nat split: if_splits)
    have "take 16 (build sz h) = ?a @ ?b @ ?c"
      using h ls be_bytes_from_be [OF ls(1)] be_bytes_from_be [OF ls(2)] be_bytes_from_be [OF ls(3)]
      by (simp add: build_layout u64_be_bytes_def u32_be_bytes_def)
    also have "\<dots> = take 16 payload"
      using take_add [of 8 8 payload] take_add [of 4 4 "drop 8 payload"] by (simp add: slice_def)
    finally show ?thesis by (simp add: HEADER_LEN_def)
  qed
  then show ?thesis by (auto simp: decode_def)
qed

theorem decode_faithful_witness:
  "take 16 (build 40 \<lparr>hd_elapsed_ns = 258, hd_publisher = 7, hd_seq = 42\<rparr>)
     = [0, 0, 0, 0, 0, 0, 1, 2, 0, 0, 0, 7, 0, 0, 0, 42]"
proof -
  let ?p = "[0, 0, 0, 0, 0, 0, 1, 2, 0, 0, 0, 7, 0, 0, 0, 42] :: u8 list"
  have "decode ?p = Some \<lparr>hd_elapsed_ns = 258, hd_publisher = 7, hd_seq = 42\<rparr>"
    by (simp add: decode_def slice_def from_be_def HEADER_LEN_def)
  then show ?thesis
    using decode_faithful [of ?p 40] by (simp add: HEADER_LEN_def)
qed

end
