(* ===== verification/Bench_Stats.thy ===== *)
theory Bench_Stats
  imports Protocol_Types Wisp_Float
begin

text \<open>
  Counters, latency samples and the run report (\<^verbatim>\<open>src/bench/stats.rs\<close>). A \<^verbatim>\<open>Duration\<close> is its
  number of nanoseconds.
\<close>

section \<open>Samples\<close>

record samples =
  sm_values :: "u64 list"
  sm_sorted :: bool

definition samples_new :: samples where
  "samples_new = \<lparr>sm_values = [], sm_sorted = False\<rparr>"

definition record_sample :: "samples \<Rightarrow> u64 \<Rightarrow> samples" where
  "record_sample s nanos = s\<lparr>sm_values := sm_values s @ [nanos], sm_sorted := False\<rparr>"

definition merge_samples :: "samples \<Rightarrow> samples \<Rightarrow> samples" where
  "merge_samples s other = s\<lparr>sm_values := sm_values s @ sm_values other, sm_sorted := False\<rparr>"

definition samples_len :: "samples \<Rightarrow> nat" where
  "samples_len s = length (sm_values s)"

definition samples_is_empty :: "samples \<Rightarrow> bool" where
  "samples_is_empty s \<longleftrightarrow> sm_values s = []"

record summary =
  su_count :: nat
  su_min_ns :: u64
  su_p50_ns :: u64
  su_p95_ns :: u64
  su_p99_ns :: u64
  su_max_ns :: u64
  su_mean_ns :: u64

text \<open>The literals \<^verbatim>\<open>0.50\<close>, \<^verbatim>\<open>0.95\<close> and \<^verbatim>\<open>0.99\<close>: the nearest binary fractions.\<close>

definition P50 :: f64 where "P50 = round_f64 (50 / 100)"
definition P95 :: f64 where "P95 = round_f64 (95 / 100)"
definition P99 :: f64 where "P99 = round_f64 (99 / 100)"

text \<open>The position \<^verbatim>\<open>percentile\<close> reads; the vector is not empty.\<close>

definition percentile_index :: "nat \<Rightarrow> f64 \<Rightarrow> nat" where
  "percentile_index n p =
     (let rank = f64_to_usize (f64_ceil (f64_mul p (f64_of_nat n))) in min (rank - 1) (n - 1))"

definition percentile :: "u64 list \<Rightarrow> f64 \<Rightarrow> u64" where
  "percentile xs p = xs ! percentile_index (length xs) p"

definition summarise :: "samples \<Rightarrow> summary option \<times> samples" where
  "summarise s =
     (if sm_values s = [] then (None, s)
      else let s = (if \<not> sm_sorted s then s\<lparr>sm_values := sort (sm_values s), sm_sorted := True\<rparr> else s);
               xs = sm_values s;
               total = sum_list (map unat xs) in
           (Some \<lparr>su_count = length xs, su_min_ns = xs ! 0, su_p50_ns = percentile xs P50,
              su_p95_ns = percentile xs P95, su_p99_ns = percentile xs P99,
              su_max_ns = xs ! (length xs - 1), su_mean_ns = of_nat (total div length xs)\<rparr>, s))"

section \<open>Counters\<close>

text \<open>The map of refusals by Reason Code, kept in key order as a \<^verbatim>\<open>BTreeMap\<close> is.\<close>

type_synonym tally = "(u8 \<times> u64) list"

fun tally_add :: "u8 \<Rightarrow> tally \<Rightarrow> tally" where
  "tally_add code [] = [(code, 1)]"
| "tally_add code ((k, n) # rest) =
     (if code = k then (k, n + 1) # rest
      else if code < k then (code, 1) # (k, n) # rest
      else (k, n) # tally_add code rest)"

record counters =
  ct_published :: u64
  ct_acknowledged :: u64
  ct_received :: u64
  ct_bytes_sent :: u64
  ct_bytes_received :: u64
  ct_publish_errors :: u64
  ct_refused :: tally

definition counters_zero :: counters where
  "counters_zero = \<lparr>ct_published = 0, ct_acknowledged = 0, ct_received = 0, ct_bytes_sent = 0,
     ct_bytes_received = 0, ct_publish_errors = 0, ct_refused = []\<rparr>"

definition record_refusal :: "reason_code \<Rightarrow> counters \<Rightarrow> counters" where
  "record_refusal code c = c\<lparr>ct_refused := tally_add code (ct_refused c)\<rparr>"

definition snapshot :: "counters \<Rightarrow> counters" where
  "snapshot c = c"

section \<open>The report\<close>

record report_config =
  rc_publishers :: nat
  rc_subscribers :: nat
  rc_qos :: u8
  rc_payload_size :: nat
  rc_inflight :: nat
  rc_rate :: "f64 option"
  rc_topic_prefix :: string

record report =
  rp_config :: report_config
  rp_elapsed :: nat
  rp_totals :: counters
  rp_task_failures :: "string list"
  rp_ack :: "summary option"
  rp_end_to_end :: "summary option"
  rp_end_to_end_disabled :: bool

definition as_secs_f64 :: "nat \<Rightarrow> f64" where
  "as_secs_f64 d = f64_add (f64_of_nat (d div 10 ^ 9)) (f64_div (f64_of_nat (d mod 10 ^ 9)) (f64_of_nat (10 ^ 9)))"

definition per_second :: "u64 \<Rightarrow> nat \<Rightarrow> f64" where
  "per_second n elapsed = (let secs = as_secs_f64 elapsed in
     if f64_le secs (Fin 0) then Fin 0 else f64_div (f64_of_nat (unat n)) secs)"

definition publish_rate :: "report \<Rightarrow> f64" where
  "publish_rate r = per_second (ct_published (rp_totals r)) (rp_elapsed r)"

definition receive_rate :: "report \<Rightarrow> f64" where
  "receive_rate r = per_second (ct_received (rp_totals r)) (rp_elapsed r)"

definition success :: "report \<Rightarrow> bool" where
  "success r \<longleftrightarrow> rp_task_failures r = [] \<and> ct_refused (rp_totals r) = [] \<and> ct_publish_errors (rp_totals r) = 0"

subsection \<open>Rendering numbers\<close>

definition pad_left :: "nat \<Rightarrow> string \<Rightarrow> string" where
  "pad_left n s = replicate (n - length s) CHR '' '' @ s"

definition pad_right :: "nat \<Rightarrow> string \<Rightarrow> string" where
  "pad_right n s = s @ replicate (n - length s) CHR '' ''"

text \<open>An integer over a power of ten, with that many digits after the point.\<close>

definition show_scaled :: "nat \<Rightarrow> nat \<Rightarrow> string" where
  "show_scaled m k = (if k = 0 then show_nat m
     else let ds = show_nat m; ds = replicate (Suc k - length ds) CHR ''0'' @ ds in
       take (length ds - k) ds @ ''.'' @ drop (length ds - k) ds)"

text \<open>\<^verbatim>\<open>{:.k}\<close>: the exact binary value rounded to \<open>k\<close> decimals, ties to even.\<close>

fun show_fixed :: "nat \<Rightarrow> f64 \<Rightarrow> string" where
  "show_fixed k (Fin x) = (if x < 0 then ''-'' else []) @ show_scaled (nat (round_even (\<bar>x\<bar> * 10 ^ k))) k"
| "show_fixed k PInf = ''inf''"
| "show_fixed k NInf = ''-inf''"
| "show_fixed k NaN = ''NaN''"

text \<open>\<^verbatim>\<open>{}\<close>: the shortest decimal that reads back as the same value.\<close>

definition decimal_exp :: "rat \<Rightarrow> int" where
  "decimal_exp x = (case find (\<lambda>e. x < 10 powi (e + 1)) (map (\<lambda>n. int n - 330) [0..<660]) of
     Some e \<Rightarrow> e | None \<Rightarrow> 330)"

definition shortest :: "rat \<Rightarrow> nat \<times> int" where
  "shortest x = (let e = decimal_exp x;
       try = (\<lambda>k. let q = e - int k + 1; m = round_even (x / 10 powi q) in (nat m, q)) in
     case find (\<lambda>k. case try k of (m, q) \<Rightarrow> fl (of_nat m * 10 powi q) = x) [1..<18] of
       Some k \<Rightarrow> try k | None \<Rightarrow> try 17)"

definition show_pos :: "rat \<Rightarrow> string" where
  "show_pos x = (case shortest x of (m, q) \<Rightarrow>
     if 0 \<le> q then show_nat m @ replicate (nat q) CHR ''0'' else show_scaled m (nat (- q)))"

fun show_f64 :: "f64 \<Rightarrow> string" where
  "show_f64 (Fin x) = (if x = 0 then ''0'' else if 0 < x then show_pos x else ''-'' @ show_pos (- x))"
| "show_f64 PInf = ''inf''"
| "show_f64 NInf = ''-inf''"
| "show_f64 NaN = ''NaN''"

subsection \<open>The table\<close>

definition latency_lines :: "string \<Rightarrow> summary option \<Rightarrow> string option \<Rightarrow> string list" where
  "latency_lines label su why = (case su of
      Some s \<Rightarrow>
        (label @ '' ('' @ show_nat (su_count s) @ '' samples)'') #
        map (\<lambda>(name, v). ''  '' @ pad_right 4 name @ '' ''
               @ pad_left 10 (show_fixed 3 (f64_div (f64_of_nat (unat v)) (f64_of_nat 1000000))) @ '' ms'')
          [(''min'', su_min_ns s), (''p50'', su_p50_ns s), (''p95'', su_p95_ns s),
           (''p99'', su_p99_ns s), (''max'', su_max_ns s), (''mean'', su_mean_ns s)]
    | None \<Rightarrow>
        [label @ '': not measured ('' @ (case why of Some w \<Rightarrow> w | None \<Rightarrow> ''no samples'') @ '')''])"

definition table_lines :: "report \<Rightarrow> string list" where
  "table_lines r = (let c = rp_config r; t = rp_totals r;
       num = (\<lambda>n :: u64. pad_left 12 (show_nat (unat n)));
       rate = (case rc_rate c of Some x \<Rightarrow> show_f64 x @ '' msg/s offered'' | None \<Rightarrow> ''unthrottled'') in
     [''config: '' @ show_nat (rc_publishers c) @ '' publishers, '' @ show_nat (rc_subscribers c)
        @ '' subscribers, QoS '' @ show_nat (unat (rc_qos c)) @ '', '' @ show_nat (rc_payload_size c)
        @ '' B payload, inflight '' @ show_nat (rc_inflight c) @ '', '' @ rate @ '', prefix '' @ rc_topic_prefix c,
      ''elapsed:  '' @ show_fixed 3 (as_secs_f64 (rp_elapsed r)) @ '' s'',
      [],
      ''  published       '' @ num (ct_published t) @ ''  ('' @ show_fixed 0 (publish_rate r) @ ''/s)'',
      ''  acknowledged    '' @ num (ct_acknowledged t),
      ''  received        '' @ num (ct_received t) @ ''  ('' @ show_fixed 0 (receive_rate r) @ ''/s)'',
      ''  bytes sent      '' @ num (ct_bytes_sent t),
      ''  bytes received  '' @ num (ct_bytes_received t),
      ''  publish errors  '' @ num (ct_publish_errors t)]
     @ map (\<lambda>(code, n). ''  refused 0x'' @ hex2_upper code @ ''     '' @ num n) (ct_refused t)
     @ map (\<lambda>f. ''  task failed: '' @ f) (rp_task_failures r)
     @ [[]]
     @ latency_lines ''ack latency'' (rp_ack r) None
     @ latency_lines ''end-to-end latency'' (rp_end_to_end r)
         (if rp_end_to_end_disabled r then Some ''payload too small for the measurement header'' else None))"

definition to_table :: "report \<Rightarrow> string" where
  "to_table r = concat (map (\<lambda>l. l @ [CHR 0x0A]) (table_lines r))"

subsection \<open>The JSON record\<close>

datatype json = J_null | J_bool bool | J_nat nat | J_f64 f64 | J_str string
  | J_arr "json list" | J_obj "(string \<times> json) list"

definition summary_json :: "summary option \<Rightarrow> json" where
  "summary_json su = (case su of
      Some s \<Rightarrow> J_obj [(''count'', J_nat (su_count s)), (''min_ns'', J_nat (unat (su_min_ns s))),
        (''p50_ns'', J_nat (unat (su_p50_ns s))), (''p95_ns'', J_nat (unat (su_p95_ns s))),
        (''p99_ns'', J_nat (unat (su_p99_ns s))), (''max_ns'', J_nat (unat (su_max_ns s))),
        (''mean_ns'', J_nat (unat (su_mean_ns s)))]
    | None \<Rightarrow> J_null)"

definition report_json :: "report \<Rightarrow> json" where
  "report_json r = (let c = rp_config r; t = rp_totals r; num = (\<lambda>n :: u64. J_nat (unat n)) in
     J_obj
      [(''config'', J_obj [(''publishers'', J_nat (rc_publishers c)), (''subscribers'', J_nat (rc_subscribers c)),
          (''qos'', J_nat (unat (rc_qos c))), (''payload_size'', J_nat (rc_payload_size c)),
          (''inflight'', J_nat (rc_inflight c)),
          (''rate'', case rc_rate c of Some x \<Rightarrow> J_f64 x | None \<Rightarrow> J_null),
          (''topic_prefix'', J_str (rc_topic_prefix c))]),
       (''elapsed_secs'', J_f64 (as_secs_f64 (rp_elapsed r))),
       (''counters'', J_obj [(''published'', num (ct_published t)), (''acknowledged'', num (ct_acknowledged t)),
          (''received'', num (ct_received t)), (''bytes_sent'', num (ct_bytes_sent t)),
          (''bytes_received'', num (ct_bytes_received t)), (''publish_errors'', num (ct_publish_errors t)),
          (''refused'', J_obj (map (\<lambda>(code, n). (''0x'' @ hex2_upper code, num n)) (ct_refused t)))]),
       (''throughput'', J_obj [(''published_per_sec'', J_f64 (publish_rate r)),
          (''received_per_sec'', J_f64 (receive_rate r))]),
       (''latency'', J_obj [(''ack'', summary_json (rp_ack r)), (''end_to_end'', summary_json (rp_end_to_end r)),
          (''end_to_end_disabled'', J_bool (rp_end_to_end_disabled r))]),
       (''task_failures'', J_arr (map J_str (rp_task_failures r))),
       (''success'', J_bool (success r))])"

text \<open>The text is what \<^verbatim>\<open>serde_json\<close>'s pretty printer, a parameter, makes of the value.\<close>

definition to_json :: "(json \<Rightarrow> string) \<Rightarrow> report \<Rightarrow> string" where
  "to_json pretty r = pretty (report_json r)"

section \<open>Lemmas\<close>

subsection \<open>Nearest ranks\<close>

lemma two_powers: "(2 powi (- 1) :: rat) = 1 / 2" "(2 powi (- 53) :: rat) = 1 / 9007199254740992"
  by (simp_all add: power_int_minus)

text \<open>
  A product of a percentile rounded down by less than a unit in its last place and a count below
  \<open>2 ^ 40\<close> rounds to a number with the same ceiling as the exact product.
\<close>

lemma ceiling_fl_product:
  fixes a b n :: nat and p :: rat
  assumes p: "p \<le> of_nat a / of_nat b" "of_nat a / of_nat b - p \<le> 2 powi (- 53)" "1 / 2 \<le> p"
    and ab: "0 < b" "b \<le> 100" "a \<le> b" and n: "0 < n" "n < 2 ^ 40"
  shows "\<lceil>fl (p * of_nat n)\<rceil> = \<lceil>of_nat a / of_nat b * (of_nat n :: rat)\<rceil>"
proof -
  let ?x = "of_nat a / of_nat b * (of_nat n :: rat)"
  define q where "q = \<lceil>?x\<rceil>"
  have n1: "1 \<le> (of_nat n :: rat)" "(of_nat n :: rat) < 2 ^ 40" using n by (auto simp: of_nat_less_numeral_iff)
  have ab1: "of_nat a / of_nat b \<le> (1 :: rat)" using ab by simp
  have pn: "1 / 2 \<le> p * of_nat n" using mult_mono [of "1 / 2" p 1 "of_nat n"] p(3) n1 by simp
  have up: "p * of_nat n \<le> ?x" using p(1) by (intro mult_right_mono) auto
  have xn: "?x \<le> of_nat n" using ab1 mult_right_mono [of "of_nat a / of_nat b" 1 "of_nat n :: rat"] by simp
  have q0: "0 < q" using up pn by (simp add: q_def)
  have qn: "q \<le> int n" using xn by (simp add: q_def ceiling_le_iff)
  have "fl (of_int q) = (of_int q :: rat)"
    using fl_of_nat [of "nat q"] q0 qn n by simp
  moreover have "fl (p * of_nat n) \<le> fl (of_int q)"
    using up pn by (intro fl_mono) (auto simp: q_def intro: order_trans [OF _ le_of_int_ceiling])
  ultimately have hi: "fl (p * of_nat n) \<le> of_int q" by simp
  have gap: "of_int q - 1 + 1 / of_nat b \<le> ?x"
  proof -
    have "of_int (q - 1) < ?x" unfolding q_def by linarith
    then have "of_int (q - 1) * of_nat b < (of_nat (a * n) :: rat)"
      using ab(1) by (simp add: field_simps)
    then have "of_int ((q - 1) * int b) < (of_int (int (a * n)) :: rat)" by simp
    then have "(q - 1) * int b + 1 \<le> int (a * n)" by (simp only: of_int_less_iff)
    then have "(of_int ((q - 1) * int b + 1) :: rat) \<le> of_int (int (a * n))" by (simp only: of_int_le_iff)
    then have "(of_int (q - 1) * of_nat b + 1) / of_nat b \<le> of_nat (a * n) / (of_nat b :: rat)"
      by (intro divide_right_mono) simp_all
    then show ?thesis using ab(1) by (simp add: add_divide_distrib)
  qed
  have "\<bar>fl_pos (p * of_nat n) - p * of_nat n\<bar> \<le> p * of_nat n * 2 powi (- 53)"
    using power_int_increasing [of "- 1022" "- 1" "2 :: rat"]
    by (intro fl_pos_rel_error order_trans [OF _ pn]) (simp add: two_powers)
  moreover have "fl (p * of_nat n) = fl_pos (p * of_nat n)" using pn by (auto simp: fl_def)
  moreover have "p * of_nat n * 2 powi (- 53) \<le> of_nat n * 2 powi (- 53)"
    using up xn by (intro mult_right_mono) auto
  ultimately have err: "p * of_nat n - of_nat n * 2 powi (- 53) \<le> fl (p * of_nat n)" by linarith
  have low: "?x - of_nat n * 2 powi (- 53) \<le> p * of_nat n"
    using mult_right_mono [OF p(2), of "of_nat n"] unfolding left_diff_distrib mult.commute [of "of_nat n" "2 powi _"]
    by linarith
  have "of_nat n * 2 powi (- 53) < (2 :: rat) ^ 40 * 2 powi (- 53)"
    using n1 by (intro mult_strict_right_mono) auto
  also have "\<dots> = 1 / 8192" by (simp add: two_powers)
  finally have small: "2 * (of_nat n * 2 powi (- 53)) < (1 / 4096 :: rat)" by simp
  have "(1 / 100 :: rat) \<le> 1 / of_nat b" using ab by (simp add: field_simps)
  with gap err low small have lo: "of_int q - 1 < fl (p * of_nat n)" by simp
  show ?thesis using hi lo unfolding q_def [symmetric] by (intro ceiling_unique) auto
qed

lemma round_f64_small: "0 \<le> x \<Longrightarrow> x \<le> 2 ^ 53 \<Longrightarrow> round_f64 x = Fin (fl x)"
proof -
  assume x: "0 \<le> x" "x \<le> 2 ^ 53"
  have "fl x \<le> fl (of_nat (2 ^ 53))" using x by (intro fl_mono) auto
  then have "fl x \<le> 2 ^ 53" using fl_of_nat [of "2 ^ 53"] by simp
  also have "\<dots> < (2 powi 1024 :: rat)" by (simp add: power_int_def)
  finally have "fl x < 2 powi 1024" .
  moreover have "- (2 powi 1024) < fl x"
    using fl_nonneg [OF x(1)] by (meson less_le_trans neg_less_0_iff_less zero_less_numeral zero_less_power_int)
  ultimately show ?thesis by (auto simp: round_f64_def Let_def)
qed

definition nearest_rank :: "nat \<Rightarrow> nat \<Rightarrow> nat \<Rightarrow> nat" where
  "nearest_rank a b n = nat \<lceil>of_nat a / of_nat b * (of_nat n :: rat)\<rceil>"

lemma percentile_index_rank:
  fixes a b n :: nat
  assumes p: "p \<le> of_nat a / of_nat b" "of_nat a / of_nat b - p \<le> 2 powi (- 53)" "1 / 2 \<le> p"
    and ab: "0 < b" "b \<le> 100" "a \<le> b" and n: "0 < n" "n < 2 ^ 40"
  shows "percentile_index n (Fin p) = nearest_rank a b n - 1"
proof -
  have p1: "0 \<le> p" "p \<le> 1" using p(1,3) ab order_trans [OF p(1), of 1] by auto
  have n1: "(of_nat n :: rat) \<le> 2 ^ 40" using n by (simp add: of_nat_le_numeral_iff less_imp_le)
  have pn: "0 \<le> p * of_nat n" "p * of_nat n \<le> of_nat n"
    using p1 mult_right_mono [of p 1 "of_nat n :: rat"] by auto
  have "(2 :: rat) ^ 40 \<le> 2 ^ 53" by simp
  then have "p * of_nat n \<le> 2 ^ 53" using pn(2) n1 by linarith
  then have mul: "f64_mul (Fin p) (f64_of_nat n) = Fin (fl (p * of_nat n))"
    using pn(1) n f64_of_nat_exact [of n] by (simp add: round_f64_small)
  define q where "q = \<lceil>of_nat a / of_nat b * (of_nat n :: rat)\<rceil>"
  have c: "\<lceil>fl (p * of_nat n)\<rceil> = q" unfolding q_def by (rule ceiling_fl_product [OF p ab n])
  have "of_nat a / of_nat b * (of_nat n :: rat) \<le> of_nat n"
    using ab mult_right_mono [of "of_nat a / of_nat b" 1 "of_nat n :: rat"] by simp
  then have qn: "q \<le> int n" by (simp add: q_def ceiling_le_iff)
  then have "f64_to_usize (Fin (of_int q)) = nat q" using n by auto
  then have "percentile_index n (Fin p) = min (nat q - 1) (n - 1)"
    using mul c by (simp add: percentile_index_def)
  then show ?thesis using qn by (simp add: nearest_rank_def q_def min_def)
qed

lemma ilog2_unique: "2 powi k \<le> x \<Longrightarrow> x < 2 powi (k + 1) \<Longrightarrow> ilog2 x = k"
proof -
  assume k: "2 powi k \<le> x" "x < 2 powi (k + 1)"
  have "0 < x" using k(1) by (meson less_le_trans zero_less_numeral zero_less_power_int)
  then have "(2 powi ilog2 x :: rat) < 2 powi (k + 1)" "(2 powi k :: rat) < 2 powi (ilog2 x + 1)"
    using ilog2_bounds [of x] k by linarith+
  from this [THEN two_powi_less] show ?thesis by simp
qed

lemma round_even_near: "\<bar>y - of_int m\<bar> < 1 / 2 \<Longrightarrow> round_even y = m"
  using round_even_error [of y] by linarith

lemma fl_below_one:
  assumes "1 / 2 \<le> x" "x < 1" "\<bar>x * 9007199254740992 - of_int m\<bar> < 1 / 2"
  shows "round_f64 x = Fin (of_int m / 9007199254740992)"
proof -
  have "ilog2 x = - 1" using assms(1,2) by (intro ilog2_unique) (simp_all add: two_powers)
  then have "ulp_exp x = - 53" by (simp add: ulp_exp_def)
  then have "fl x = of_int m / 9007199254740992"
    using assms round_even_near [OF assms(3)] by (simp add: fl_def fl_pos_def two_powers)
  then show ?thesis using round_f64_small [of x] assms by simp
qed

lemma percentile_literals:
  "P50 = Fin (1 / 2)" "P95 = Fin (4278419646001971 / 4503599627370496)"
  "P99 = Fin (4458563631096791 / 4503599627370496)"
  unfolding P50_def P95_def P99_def
  using fl_below_one [of "50 / 100" 4503599627370496] fl_below_one [of "95 / 100" 8556839292003942]
    fl_below_one [of "99 / 100" 8917127262193582]
  by simp_all

lemma percentile_index_literals:
  assumes "0 < n" "n < 2 ^ 40"
  shows "percentile_index n P50 = nearest_rank 50 100 n - 1"
    and "percentile_index n P95 = nearest_rank 95 100 n - 1"
    and "percentile_index n P99 = nearest_rank 99 100 n - 1"
  unfolding percentile_literals using assms
  by (intro percentile_index_rank; simp add: two_powers)+

lemma nearest_rank_bounds:
  assumes "0 < a" "a \<le> b" "0 < n"
  shows "1 \<le> nearest_rank a b n" "nearest_rank a b n \<le> n"
    and "a * n \<le> b * nearest_rank a b n" "b * (nearest_rank a b n - 1) < a * n"
proof -
  let ?x = "of_nat a / of_nat b * (of_nat n :: rat)"
  define q where "q = \<lceil>?x\<rceil>"
  have b: "0 < b" using assms by simp
  have "0 < ?x" using assms b by simp
  then have q0: "0 < q" by (simp add: q_def)
  have r: "nearest_rank a b n = nat q" by (simp add: nearest_rank_def q_def)
  have "?x \<le> of_nat n" using assms b mult_right_mono [of "of_nat a / of_nat b" 1 "of_nat n :: rat"] by simp
  then have "q \<le> int n" by (simp add: q_def ceiling_le_iff)
  then show "1 \<le> nearest_rank a b n" "nearest_rank a b n \<le> n" using q0 r by auto
  have "?x \<le> of_int q" "of_int q - 1 < ?x" unfolding q_def by linarith+
  then have "of_nat (a * n) \<le> (of_int q * of_nat b :: rat)" "(of_int q - 1) * of_nat b < (of_nat (a * n) :: rat)"
    using b by (simp_all add: field_simps)
  then have "int (a * n) \<le> q * int b" "(q - 1) * int b < int (a * n)"
    by (metis of_int_le_iff of_int_mult of_int_of_nat_eq) (metis (no_types, lifting) \<open>(of_int q - 1) * of_nat b < of_nat (a * n)\<close> of_int_1 of_int_diff of_int_less_iff of_int_mult of_int_of_nat_eq)
  moreover have "int (nat q) = q" "int (nat q - 1) = q - 1" using q0 by auto
  ultimately show "a * n \<le> b * nearest_rank a b n" "b * (nearest_rank a b n - 1) < a * n"
    unfolding r by (metis mult.commute of_nat_le_iff of_nat_mult, metis mult.commute of_nat_less_iff of_nat_mult)
qed

subsection \<open>Sorted vectors\<close>

lemma sorted_at_least: "sorted (xs :: 'a :: linorder list) \<Longrightarrow> k < length xs \<Longrightarrow> Suc k \<le> length (filter (\<lambda>x. x \<le> xs ! k) xs)"
proof -
  assume s: "sorted xs" and k: "k < length xs"
  have "filter (\<lambda>x. x \<le> xs ! k) (take (Suc k) xs) = take (Suc k) xs"
    using k by (auto simp: filter_id_conv in_set_conv_nth less_Suc_eq_le intro!: sorted_nth_mono [OF s])
  moreover have "filter (\<lambda>x. x \<le> xs ! k) xs =
      filter (\<lambda>x. x \<le> xs ! k) (take (Suc k) xs) @ filter (\<lambda>x. x \<le> xs ! k) (drop (Suc k) xs)"
    by (metis append_take_drop_id filter_append)
  ultimately show ?thesis using k by simp
qed

lemma sorted_at_most: "sorted (xs :: 'a :: linorder list) \<Longrightarrow> k < length xs \<Longrightarrow> w < xs ! k \<Longrightarrow> length (filter (\<lambda>x. x \<le> w) xs) \<le> k"
proof -
  assume s: "sorted xs" and k: "k < length xs" and w: "w < xs ! k"
  have "w < x" if "x \<in> set (drop k xs)" for x
  proof -
    obtain i where i: "i < length xs - k" "x = xs ! (k + i)"
      using \<open>x \<in> set (drop k xs)\<close> by (auto simp: in_set_conv_nth)
    then have "xs ! k \<le> xs ! (k + i)" by (intro sorted_nth_mono [OF s]) auto
    with w i(2) show ?thesis by simp
  qed
  then have "filter (\<lambda>x. x \<le> w) (drop k xs) = []" by (auto simp: filter_empty_conv not_le)
  then have "filter (\<lambda>x. x \<le> w) xs = filter (\<lambda>x. x \<le> w) (take k xs)"
    by (metis append_Nil2 append_take_drop_id filter_append)
  then show ?thesis using k length_filter_le [of "\<lambda>x. x \<le> w" "take k xs"] by simp
qed

text \<open>The value at or below which at least \<open>a / b\<close> of the samples fall, and no smaller sample has that.\<close>

definition nearest_rank_value :: "nat \<Rightarrow> nat \<Rightarrow> 'a :: linorder list \<Rightarrow> 'a \<Rightarrow> bool" where
  "nearest_rank_value a b xs v \<longleftrightarrow> v \<in> set xs
     \<and> a * length xs \<le> b * length (filter (\<lambda>x. x \<le> v) xs)
     \<and> (\<forall>w \<in> set xs. w < v \<longrightarrow> b * length (filter (\<lambda>x. x \<le> w) xs) < a * length xs)"

lemma nearest_rank_correct:
  assumes "sorted (xs :: 'a :: linorder list)" "xs \<noteq> []" "0 < a" "a \<le> b"
  shows "nearest_rank_value a b xs (xs ! (nearest_rank a b (length xs) - 1))"
proof -
  let ?k = "nearest_rank a b (length xs)"
  note r = nearest_rank_bounds [OF assms(3,4), of "length xs"]
  have k: "?k - 1 < length xs" "1 \<le> ?k" using r(1,2) assms(2) by auto
  have "?k \<le> length (filter (\<lambda>x. x \<le> xs ! (?k - 1)) xs)"
    using sorted_at_least [OF assms(1) k(1)] k(2) by simp
  then have "a * length xs \<le> b * length (filter (\<lambda>x. x \<le> xs ! (?k - 1)) xs)"
    using assms(2) by (intro order_trans [OF r(3) mult_le_mono2]) simp_all
  moreover have "b * length (filter (\<lambda>x. x \<le> w) xs) < a * length xs" if "w < xs ! (?k - 1)" for w
    using assms(2) by (intro le_less_trans [OF mult_le_mono2 [OF sorted_at_most [OF assms(1) k(1) that]] r(4)]) simp
  ultimately show ?thesis
    using k(1) by (simp add: nearest_rank_value_def)
qed

subsection \<open>Samples\<close>

text \<open>The invariant behind the flag: a vector marked sorted is sorted.\<close>

definition samples_ok :: "samples \<Rightarrow> bool" where
  "samples_ok s \<longleftrightarrow> (sm_sorted s \<longrightarrow> sorted (sm_values s))"

text \<open>The interface of a collector of samples: what it holds is a multiset, whatever the order.\<close>

locale sample_sink =
  fixes empty :: 's
    and add :: "'s \<Rightarrow> u64 \<Rightarrow> 's"
    and join :: "'s \<Rightarrow> 's \<Rightarrow> 's"
    and contents :: "'s \<Rightarrow> u64 multiset"
    and ok :: "'s \<Rightarrow> bool"
  assumes empty_contents: "contents empty = {#}" "ok empty"
    and add_contents: "contents (add s x) = add_mset x (contents s)" "ok s \<Longrightarrow> ok (add s x)"
    and join_contents: "contents (join s t) = contents s + contents t" "ok s \<Longrightarrow> ok (join s t)"
begin

lemma adds_contents: "contents (foldl add s xs) = contents s + mset xs"
  by (induction xs arbitrary: s) (simp_all add: add_contents)

lemma joins_contents: "contents (foldl join s ts) = contents s + (\<Sum>t\<leftarrow>ts. contents t)"
  by (induction ts arbitrary: s) (simp_all add: join_contents add.assoc)

lemma adds_ok: "ok s \<Longrightarrow> ok (foldl add s xs)"
  by (induction xs arbitrary: s) (simp_all add: add_contents)

lemma joins_ok: "ok s \<Longrightarrow> ok (foldl join s ts)"
  by (induction ts arbitrary: s) (simp_all add: join_contents)

end

definition contents :: "samples \<Rightarrow> u64 multiset" where
  "contents s = mset (sm_values s)"

interpretation sample_vec: sample_sink samples_new record_sample merge_samples contents samples_ok
  by unfold_locales (simp_all add: samples_new_def record_sample_def merge_samples_def contents_def samples_ok_def)

lemma summarise_sorted:
  assumes "samples_ok s" "sm_values s \<noteq> []"
  defines "xs \<equiv> sort (sm_values s)"
  shows "summarise s =
     (Some \<lparr>su_count = length xs, su_min_ns = xs ! 0, su_p50_ns = percentile xs P50,
        su_p95_ns = percentile xs P95, su_p99_ns = percentile xs P99,
        su_max_ns = xs ! (length xs - 1), su_mean_ns = of_nat (sum_list (map unat xs) div length xs)\<rparr>,
      \<lparr>sm_values = xs, sm_sorted = True\<rparr>)"
proof (cases "sm_sorted s")
  case True
  then have "sort (sm_values s) = sm_values s" using assms(1) by (simp add: samples_ok_def sorted_sort_id)
  with True show ?thesis using assms(2) by (cases s) (simp add: summarise_def xs_def)
next
  case False
  then show ?thesis using assms(2) by (cases s) (simp add: summarise_def xs_def Let_def)
qed

lemma sort_of_contents: "contents s = contents t \<Longrightarrow> sort (sm_values s) = sort (sm_values t)"
  by (simp add: contents_def properties_for_sort)

lemma percentile_in_set: "xs \<noteq> [] \<Longrightarrow> percentile xs p \<in> set xs"
proof -
  assume "xs \<noteq> []"
  then have "percentile_index (length xs) p < length xs"
    by (auto simp: percentile_index_def Let_def intro: le_less_trans [OF min.cobounded2])
  then show ?thesis by (simp add: percentile_def)
qed

lemma nearest_rank_mono: "a \<le> a' \<Longrightarrow> nearest_rank a b n \<le> nearest_rank a' b n"
  unfolding nearest_rank_def
  by (intro nat_mono ceiling_mono mult_right_mono divide_right_mono) auto

lemma sorted_percentiles:
  assumes "sorted xs" "xs \<noteq> []" "length xs < 2 ^ 40"
  shows "percentile xs P50 \<le> percentile xs P95" "percentile xs P95 \<le> percentile xs P99"
proof -
  have n: "0 < length xs" using assms(2) by simp
  note idx = percentile_index_literals [OF n assms(3)]
  have "nearest_rank 99 100 (length xs) - 1 < length xs" "nearest_rank 95 100 (length xs) - 1 < length xs"
    using nearest_rank_bounds(1,2) [of 99 100 "length xs"] nearest_rank_bounds(1,2) [of 95 100 "length xs"] n
    by simp_all
  then show "percentile xs P50 \<le> percentile xs P95" "percentile xs P95 \<le> percentile xs P99"
    unfolding percentile_def idx
    by (intro sorted_nth_mono [OF assms(1)] diff_le_mono nearest_rank_mono; simp)+
qed

lemma mean_bounds:
  assumes "xs \<noteq> []" "\<And>x. x \<in> set xs \<Longrightarrow> lo \<le> x \<and> x \<le> (hi :: nat)"
  shows "lo \<le> sum_list xs div length xs" "sum_list xs div length xs \<le> hi"
proof -
  have "lo * length xs \<le> sum_list xs" "sum_list xs \<le> hi * length xs"
    using assms(2) by (induction xs) (auto simp: add_mono)
  then show "lo \<le> sum_list xs div length xs" "sum_list xs div length xs \<le> hi"
    using assms(1) div_le_mono [of "sum_list xs" "hi * length xs" "length xs"]
    by (simp_all add: less_eq_div_iff_mult_less_eq)
qed

section \<open>Properties\<close>

text \<open>
  C23: the percentiles are exact nearest ranks. On a sorted vector of fewer than \<open>2 ^ 40\<close> samples the
  double-precision computation of the rank picks, for 0.50, 0.95 and 0.99, the smallest sample at or
  below which at least that share of the samples falls: rounding never moves it.
\<close>

theorem percentile_nearest_rank:
  assumes "sorted xs" "xs \<noteq> []" "length xs < 2 ^ 40"
  shows "nearest_rank_value 50 100 xs (percentile xs P50) \<and> nearest_rank_value 95 100 xs (percentile xs P95)
     \<and> nearest_rank_value 99 100 xs (percentile xs P99)"
  using assms percentile_index_literals [of "length xs"] nearest_rank_correct [of xs]
  by (simp add: percentile_def)

theorem percentile_nearest_rank_witness:
  "nearest_rank_value 95 100 [1, 2, 3 :: u64] (percentile [1, 2, 3] P95)"
  using percentile_nearest_rank [of "[1, 2, 3 :: u64]"] by simp




end
