(* ===== verification/Bench_Config.thy ===== *)
theory Bench_Config
  imports Cli_Args Bench_Payload Bench_Stats
begin

text \<open>
  The resolved configuration of a benchmark run (\<^verbatim>\<open>src/bench/mod.rs\<close>): what ends it, which rates are
  accepted, how the message count is shared out, the in-flight window, and how the results of the
  tasks are gathered.
\<close>

section \<open>Configuration\<close>

definition MAX_RATE :: f64 where
  "MAX_RATE = Fin 10000000"

definition DEFAULT_COUNT :: u64 where
  "DEFAULT_COUNT = 10000"

text \<open>A \<^verbatim>\<open>Duration\<close> in nanoseconds; the largest is \<open>2 ^ 64 - 1\<close> seconds and 999999999 nanoseconds.\<close>

definition from_secs :: "u64 \<Rightarrow> nat" where
  "from_secs s = unat s * 10 ^ 9"

definition DURATION_MAX :: nat where
  "DURATION_MAX = (2 ^ 64 - 1) * 10 ^ 9 + 999999999"

datatype stop = Stop_Count u64 | Stop_Duration nat | Stop_CountWithin u64 nat

record config =
  cf_publishers :: nat
  cf_subscribers :: nat
  cf_topic_prefix :: string
  cf_qos :: qos
  cf_payload_size :: nat
  cf_stop :: stop
  cf_rate :: "f64 option"
  cf_inflight :: nat
  cf_warmup :: nat
  cf_drain :: nat
  cf_json :: bool

definition rate_fault :: "bench_args \<Rightarrow> f64 \<Rightarrow> error option" where
  "rate_fault a rate =
     (if \<not> is_finite rate \<or> f64_le rate (Fin 0) \<or> f64_less MAX_RATE rate then
        Some (Usage (''--rate must be a finite number greater than 0 and at most '' @ show_f64 MAX_RATE
          @ '', got '' @ show_f64 rate))
      else
        (let per_publisher_rate = f64_div rate (f64_of_nat (ba_publishers a));
             period_secs = f64_div (Fin 1) per_publisher_rate in
         if \<not> is_finite period_secs \<or> f64_less (as_secs_f64 DURATION_MAX) period_secs then
           Some (Usage (''--rate '' @ show_f64 rate @ '' split across '' @ show_nat (ba_publishers a)
             @ '' publisher(s) is too small: the resulting period does not fit''))
         else None))"

definition stop_of_args :: "bench_args \<Rightarrow> stop" where
  "stop_of_args a = (case (ba_count a, ba_duration a) of
      (Some n, Some secs) \<Rightarrow> Stop_CountWithin n (from_secs secs)
    | (Some n, None) \<Rightarrow> Stop_Count n
    | (None, Some secs) \<Rightarrow> Stop_Duration (from_secs secs)
    | (None, None) \<Rightarrow> Stop_Count DEFAULT_COUNT)"

definition from_args :: "protocol_crate \<Rightarrow> bench_args \<Rightarrow> error + config" where
  "from_args P a =
     (if ba_publishers a = 0 then Inl (Usage ''--publishers must be at least 1'')
      else case (case ba_rate a of None \<Rightarrow> None | Some rate \<Rightarrow> rate_fault a rate) of
        Some e \<Rightarrow> Inl e
      | None \<Rightarrow> (case qos_from_u8 P (ba_qos a) of
          Inl e \<Rightarrow> Inl (from_mqtt e)
        | Inr q \<Rightarrow> Inr \<lparr>cf_publishers = ba_publishers a, cf_subscribers = ba_subscribers a,
            cf_topic_prefix = ba_topic_prefix a, cf_qos = q, cf_payload_size = ba_payload_size a,
            cf_stop = stop_of_args a, cf_rate = ba_rate a, cf_inflight = ba_inflight a,
            cf_warmup = from_secs (ba_warmup a), cf_drain = from_secs (ba_drain a), cf_json = ba_json a\<rparr>))"

definition measures_end_to_end :: "config \<Rightarrow> bool" where
  "measures_end_to_end c \<longleftrightarrow> 0 < cf_subscribers c \<and> HEADER_LEN \<le> cf_payload_size c"

definition per_publisher_rate :: "config \<Rightarrow> f64 option" where
  "per_publisher_rate c = map_option (\<lambda>r. f64_div r (f64_of_nat (cf_publishers c))) (cf_rate c)"

definition topic_for :: "config \<Rightarrow> u32 \<Rightarrow> string" where
  "topic_for c publisher = cf_topic_prefix c @ ''/'' @ show_nat (unat publisher)"

definition subscribe_filter :: "config \<Rightarrow> string" where
  "subscribe_filter c = cf_topic_prefix c @ ''/#''"

definition quota_for :: "config \<Rightarrow> nat \<Rightarrow> u64 option" where
  "quota_for c publisher =
     (let share = (\<lambda>n. let base = unat n div cf_publishers c; remainder = unat n mod cf_publishers c in
            Some (of_nat (base + (if publisher < remainder then 1 else 0)))) in
      case cf_stop c of
        Stop_Count n \<Rightarrow> share n
      | Stop_CountWithin n _ \<Rightarrow> share n
      | Stop_Duration _ \<Rightarrow> None)"

definition config_deadline :: "config \<Rightarrow> nat option" where
  "config_deadline c = (case cf_stop c of
      Stop_Duration d \<Rightarrow> Some d
    | Stop_CountWithin _ d \<Rightarrow> Some d
    | Stop_Count _ \<Rightarrow> None)"

definition USIZE_MAX :: nat where
  "USIZE_MAX = 2 ^ 64 - 1"

definition effective_inflight :: "nat \<Rightarrow> u16 option \<Rightarrow> nat" where
  "effective_inflight requested broker_receive_maximum =
     (let cap = (case broker_receive_maximum of Some m \<Rightarrow> unat m | None \<Rightarrow> USIZE_MAX) in
      max (min requested cap) 1)"

section \<open>Gathering results\<close>

text \<open>What awaiting a task's handle gives: its result, or that it panicked.\<close>

datatype 'a joined = Finished 'a | Panicked string

definition collect_failures :: "protocol_crate \<Rightarrow> (error + unit) list \<Rightarrow> string \<Rightarrow> string list" where
  "collect_failures P results role =
     List.map_filter (\<lambda>(index, result). case result of
         Inl e \<Rightarrow> Some (role @ '' '' @ show_nat index @ '': '' @ display_error P e)
       | Inr _ \<Rightarrow> None)
     (enumerate 0 results)"

fun join_loop :: "(error + samples) joined list \<Rightarrow> samples \<Rightarrow> (error + unit) list \<Rightarrow> samples \<times> (error + unit) list" where
  "join_loop [] merged results = (merged, results)"
| "join_loop (h # hs) merged results = (case h of
      Finished (Inr s) \<Rightarrow> join_loop hs (merge_samples merged s) (results @ [Inr ()])
    | Finished (Inl e) \<Rightarrow> join_loop hs merged (results @ [Inl e])
    | Panicked e \<Rightarrow> join_loop hs merged (results @ [Inl (Usage (''task panicked: '' @ e))]))"

definition join_tasks :: "(error + samples) joined list \<Rightarrow> samples \<times> (error + unit) list" where
  "join_tasks handles = join_loop handles samples_new []"

section \<open>Lemmas\<close>

lemma sum_quota:
  fixes n p :: nat
  assumes "0 < p"
  shows "(\<Sum>i<p. n div p + (if i < n mod p then 1 else 0)) = n"
proof -
  have "(\<Sum>i<p. n div p + (if i < n mod p then 1 else 0)) = p * (n div p) + card {i. i < p \<and> i < n mod p}"
    by (simp add: sum.distrib sum.If_cases Int_def)
  also have "{i. i < p \<and> i < n mod p} = {..<n mod p}"
    using assms mod_less_divisor [of p n] by (auto intro: less_trans)
  finally show ?thesis by simp
qed

lemma quota_value:
  assumes "0 < cf_publishers c" "cf_stop c = Stop_Count n \<or> cf_stop c = Stop_CountWithin n d"
  shows "\<exists>q. quota_for c i = Some q
     \<and> unat q = unat n div cf_publishers c + (if i < unat n mod cf_publishers c then 1 else 0)"
proof -
  let ?q = "unat n div cf_publishers c + (if i < unat n mod cf_publishers c then 1 else 0)"
  have "unat n div cf_publishers c \<le> unat n div cf_publishers c * cf_publishers c"
    using assms(1) by simp
  then have "?q \<le> unat n div cf_publishers c * cf_publishers c + unat n mod cf_publishers c"
    by (rule add_mono) simp
  then have "?q \<le> unat n" by simp
  moreover have "unat n < 2 ^ 64" using unsigned_less [where w = n and 'a = nat] by simp
  ultimately have "?q < 2 ^ 64" by (rule le_less_trans)
  then have "unat (of_nat ?q :: u64) = ?q"
    by (subst unat_of_nat) (simp add: mod_less del: of_nat_add)
  moreover have "quota_for c i = Some (of_nat ?q)"
    using assms(2) by (auto simp: quota_for_def Let_def)
  ultimately show ?thesis by blast
qed

definition task_result :: "(error + samples) joined \<Rightarrow> error + unit" where
  "task_result h = (case h of
      Finished (Inr s) \<Rightarrow> Inr () | Finished (Inl e) \<Rightarrow> Inl e | Panicked e \<Rightarrow> Inl (Usage (''task panicked: '' @ e)))"

definition task_samples :: "(error + samples) joined \<Rightarrow> u64 multiset" where
  "task_samples h = (case h of Finished (Inr s) \<Rightarrow> contents s | _ \<Rightarrow> {#})"

lemma join_loop_eq:
  "join_loop hs merged results = (m, rs) \<Longrightarrow>
     rs = results @ map task_result hs \<and> contents m = contents merged + (\<Sum>h\<leftarrow>hs. task_samples h)
     \<and> (samples_ok merged \<longrightarrow> samples_ok m)"
  by (induction hs merged results rule: join_loop.induct)
    (auto simp: task_result_def task_samples_def sample_vec.join_contents split: joined.splits sum.splits)

lemma set_map_filter: "y \<in> set (List.map_filter f xs) \<longleftrightarrow> (\<exists>x \<in> set xs. f x = Some y)"
  by (induction xs) (auto simp: map_filter_simps split: option.splits)

lemma collect_failures_set:
  "f \<in> set (collect_failures P results role) \<longleftrightarrow>
     (\<exists>i e. i < length results \<and> results ! i = Inl e
        \<and> f = role @ '' '' @ show_nat i @ '': '' @ display_error P e)"
  unfolding collect_failures_def set_map_filter
  by (auto simp: Bex_def in_set_enumerate_eq split: sum.splits) (metis (full_types) old.sum.exhaust unit.exhaust)

lemma collect_failures_Nil: "collect_failures P results role = [] \<longleftrightarrow> (\<forall>r \<in> set results. \<exists>u. r = Inr u)"
proof -
  have "collect_failures P results role = [] \<longleftrightarrow> (\<forall>i < length results. \<forall>e. results ! i \<noteq> Inl e)"
    using collect_failures_set [of _ P results role] by (metis empty_iff empty_set list.set_intros(1) neq_Nil_conv)
  also have "\<dots> \<longleftrightarrow> (\<forall>r \<in> set results. \<forall>e. r \<noteq> Inl e)"
    by (auto simp: all_set_conv_all_nth)
  also have "\<dots> \<longleftrightarrow> (\<forall>r \<in> set results. \<exists>u. r = Inr u)"
    by (metis Inl_Inr_False old.sum.exhaust)
  finally show ?thesis .
qed

section \<open>Properties\<close>

text \<open>
  A count-limited run sends what was asked for: the quotas of the publishers add up to the total,
  no two differ by more than one, and the earlier publishers take the remainder. A run limited only
  by time has no quotas.
\<close>

theorem quotas_add_up:
  assumes "0 < cf_publishers c" "cf_stop c = Stop_Count n \<or> cf_stop c = Stop_CountWithin n d"
  shows "(\<Sum>i<cf_publishers c. unat (the (quota_for c i))) = unat n
     \<and> (\<forall>i j. i \<le> j \<longrightarrow> unat (the (quota_for c j)) \<le> unat (the (quota_for c i))
           \<and> unat (the (quota_for c i)) \<le> unat (the (quota_for c j)) + 1)"
proof -
  let ?q = "\<lambda>i. unat n div cf_publishers c + (if i < unat n mod cf_publishers c then 1 else 0)"
  have q: "unat (the (quota_for c i)) = ?q i" for i using quota_value [OF assms, of i] by auto
  show ?thesis unfolding q using sum_quota [OF assms(1), of "unat n"] by auto
qed

theorem quotas_add_up_witness:
  "(\<Sum>i<3. unat (the (quota_for \<lparr>cf_publishers = 3, cf_subscribers = 0, cf_topic_prefix = ''b'', cf_qos = AtLeastOnce,
      cf_payload_size = 64, cf_stop = Stop_Count 10, cf_rate = None, cf_inflight = 100, cf_warmup = 0,
      cf_drain = 0, cf_json = False\<rparr> i))) = 10"
  using quotas_add_up [where n = 10 and c = "\<lparr>cf_publishers = 3, cf_subscribers = 0, cf_topic_prefix = ''b'',
      cf_qos = AtLeastOnce, cf_payload_size = 64, cf_stop = Stop_Count 10, cf_rate = None, cf_inflight = 100,
      cf_warmup = 0, cf_drain = 0, cf_json = False\<rparr>"]
  by simp

text \<open>
  The window respects the broker. It is at least one, at most what was asked for (or one), and
  never above a non-zero Receive Maximum; the publisher's further cap keeps it within the 65535
  packet identifiers.
\<close>

theorem effective_inflight_bounds:
  "1 \<le> effective_inflight r m \<and> effective_inflight r m \<le> max r 1
   \<and> (case m of Some k \<Rightarrow> k \<noteq> 0 \<longrightarrow> effective_inflight r m \<le> unat k
      | None \<Rightarrow> r \<le> USIZE_MAX \<longrightarrow> effective_inflight r m = max r 1)
   \<and> min (effective_inflight r m) 65535 \<in> {1..65535}"
proof -
  have "k \<noteq> 0 \<Longrightarrow> 1 \<le> unat k" for k :: u16 by (simp add: Suc_le_eq unat_gt_0)
  then show ?thesis by (auto simp: effective_inflight_def Let_def split: option.splits)
qed

theorem effective_inflight_bounds_witness: "effective_inflight 100 (Some 20) \<le> 20"
  using effective_inflight_bounds [of 100 "Some 20"] by simp

text \<open>
  No task's outcome is lost. Joining keeps one result per task in order, a panicking task among
  them as a failure, and merges exactly the samples of the tasks that finished well; the failure list
  has one line, naming the task, for each result that is an error and is empty only if there is none.
\<close>

theorem join_tasks_complete:
  assumes "join_tasks hs = (m, rs)"
  shows "rs = map task_result hs \<and> contents m = (\<Sum>h\<leftarrow>hs. task_samples h) \<and> samples_ok m
     \<and> (f \<in> set (collect_failures P rs role) \<longleftrightarrow>
          (\<exists>i e. i < length hs \<and> task_result (hs ! i) = Inl e
             \<and> f = role @ '' '' @ show_nat i @ '': '' @ display_error P e))
     \<and> (collect_failures P rs role = [] \<longleftrightarrow> (\<forall>h \<in> set hs. \<exists>s. h = Finished (Inr s)))"
proof -
  have rs: "rs = map task_result hs" and m: "contents m = (\<Sum>h\<leftarrow>hs. task_samples h)" "samples_ok m"
    using assms join_loop_eq [of hs samples_new "[]" m rs] sample_vec.empty_contents
    by (auto simp: join_tasks_def)
  have "(\<exists>u. task_result h = Inr u) \<longleftrightarrow> (\<exists>s. h = Finished (Inr s))" for h
    by (auto simp: task_result_def split: joined.splits sum.splits)
  then show ?thesis
    using rs m collect_failures_set [of f P rs role] collect_failures_Nil [of P rs role] by auto
qed

theorem join_tasks_complete_witness:
  "collect_failures mqtt_documented [Inr (), Inl (Usage (''task panicked: '' @ ''boom''))] ''publisher'' \<noteq> []"
proof -
  have "join_tasks [Finished (Inr samples_new), Panicked ''boom''] =
      (merge_samples samples_new samples_new, [Inr (), Inl (Usage (''task panicked: '' @ ''boom''))])"
    by (simp add: join_tasks_def)
  from join_tasks_complete [OF this, of "[]" mqtt_documented "''publisher''"]
  show ?thesis by (simp only: list.set list.simps ball_simps) auto
qed

end
