(* ===== verification/Bench_Schedule.thy ===== *)
theory Bench_Schedule
  imports Bench_Config
begin

text \<open>
  Pacing of a publisher (\<^verbatim>\<open>src/bench/schedule.rs\<close>). A \<^verbatim>\<open>Duration\<close> is a number of nanoseconds, an
  \<^verbatim>\<open>Instant\<close> the nanoseconds of the monotonic clock, whose seconds are a non-negative \<^verbatim>\<open>i64\<close>. A
  panic of \<^verbatim>\<open>Duration::from_secs_f64\<close>, \<^verbatim>\<open>Duration::mul_f64\<close> or the addition of a duration to an
  instant is \<^const>\<open>None\<close>.
\<close>

section \<open>Durations and instants\<close>

fun from_secs_f64 :: "f64 \<Rightarrow> nat option" where
  "from_secs_f64 (Fin x) = (if x < 0 \<or> 2 ^ 64 \<le> x then None else Some (nat (round_even (x * 10 ^ 9))))"
| "from_secs_f64 _ = None"

definition mul_f64 :: "nat \<Rightarrow> f64 \<Rightarrow> nat option" where
  "mul_f64 d rhs = from_secs_f64 (f64_mul rhs (as_secs_f64 d))"

definition INSTANT_MAX :: nat where
  "INSTANT_MAX = (2 ^ 63 - 1) * 10 ^ 9 + 999999999"

definition instant_add :: "nat \<Rightarrow> nat \<Rightarrow> nat option" where
  "instant_add t d = (if t + d \<le> INSTANT_MAX then Some (t + d) else None)"

section \<open>The schedule\<close>

record schedule =
  sd_start :: nat
  sd_interval :: "nat option"

definition schedule_new :: "nat \<Rightarrow> f64 option \<Rightarrow> schedule option" where
  "schedule_new start rate_share = (case rate_share of
      Some rate \<Rightarrow> if f64_less (Fin 0) rate
        then map_option (\<lambda>i. \<lparr>sd_start = start, sd_interval = Some i\<rparr>) (from_secs_f64 (f64_div (Fin 1) rate))
        else Some \<lparr>sd_start = start, sd_interval = None\<rparr>
    | None \<Rightarrow> Some \<lparr>sd_start = start, sd_interval = None\<rparr>)"

text \<open>The outer option is a panic, the inner one the absence of a deadline.\<close>

definition schedule_deadline :: "schedule \<Rightarrow> u64 \<Rightarrow> nat option option" where
  "schedule_deadline sd index = (case sd_interval sd of
      None \<Rightarrow> Some None
    | Some i \<Rightarrow> (case mul_f64 i (f64_of_nat (unat index)) of
        None \<Rightarrow> None
      | Some d \<Rightarrow> map_option Some (instant_add (sd_start sd) d)))"

section \<open>Lemmas\<close>

lemma round_f64_Fin: "0 \<le> x \<Longrightarrow> round_f64 x = Fin y \<Longrightarrow> y = fl x"
  by (auto simp: round_f64_def Let_def split: if_splits)

lemma round_f64_cases: "0 \<le> x \<Longrightarrow> round_f64 x = Fin (fl x) \<or> round_f64 x = PInf"
proof -
  assume "0 \<le> x"
  then have "- (2 powi 1024) < fl x" using fl_nonneg [of x] by (intro less_le_trans [of _ 0 "fl x"]) simp_all
  then show ?thesis by (auto simp: round_f64_def Let_def)
qed

lemma round_f64_bounded:
  assumes "0 \<le> x" "x \<le> 2 ^ k" "k < 1024"
  shows "round_f64 x = Fin (fl x)" and "fl x \<le> 2 ^ k"
proof -
  have "fl (2 ^ k) = (2 ^ k :: rat)" using fl_exact [of "2 ^ k" 1 "int k"] by (simp add: power_int_def)
  then show le: "fl x \<le> 2 ^ k" using fl_mono [OF assms(1,2)] by simp
  have "(2 ^ k :: rat) < 2 ^ 1024" using assms(3) by (intro power_strict_increasing) auto
  then show "round_f64 x = Fin (fl x)"
    using round_f64_cases [OF assms(1)] le by (auto simp: round_f64_def Let_def power_int_def)
qed

lemma f64_of_nat_Fin: "n < 2 ^ 64 \<Longrightarrow> f64_of_nat n = Fin (fl (of_nat n))"
proof -
  assume "n < 2 ^ 64"
  then have "(of_nat n :: rat) \<le> of_nat (2 ^ 64)" by (simp only: of_nat_le_iff less_imp_le)
  then show ?thesis unfolding f64_of_nat_def by (intro round_f64_bounded [where k = 64]) auto
qed

lemma fl_of_nat_nonneg: "0 \<le> fl (of_nat n)"
  by (simp add: fl_nonneg)

text \<open>The seconds of a duration, for every duration that can be built.\<close>

lemma as_secs_Fin:
  assumes "d \<le> 2 ^ 64 * 10 ^ 9"
  shows "as_secs_f64 d = Fin (fl (fl (of_nat (d div 10 ^ 9)) + fl (of_nat (d mod 10 ^ 9) / 10 ^ 9)))"
    and "0 \<le> fl (fl (of_nat (d div 10 ^ 9)) + fl (of_nat (d mod 10 ^ 9) / 10 ^ 9))"
proof -
  let ?q = "d div 10 ^ 9" and ?r = "d mod 10 ^ 9"
  have "?q \<le> 2 ^ 64" using div_le_mono [OF assms, of "10 ^ 9"] by simp
  then have "(of_nat ?q :: rat) \<le> of_nat (2 ^ 64)" by (simp only: of_nat_le_iff)
  then have q: "f64_of_nat ?q = Fin (fl (of_nat ?q))" "fl (of_nat ?q :: rat) \<le> 2 ^ 64"
    unfolding f64_of_nat_def by (intro round_f64_bounded [where k = 64]; simp)+
  have r: "f64_of_nat ?r = Fin (of_nat ?r)"
    by (rule f64_of_nat_exact) (rule order_trans [of _ "10 ^ 9"], auto intro: less_imp_le)
  have "(of_nat ?r :: rat) / 10 ^ 9 \<le> 2 ^ 0"
    using mod_less_divisor [of "10 ^ 9" d] by simp
  then have s: "round_f64 (of_nat ?r / 10 ^ 9) = Fin (fl (of_nat ?r / 10 ^ 9))" "fl (of_nat ?r / 10 ^ 9 :: rat) \<le> 1"
    using round_f64_bounded [of "of_nat ?r / 10 ^ 9" 0] by auto
  have b: "f64_of_nat (10 ^ 9) = Fin (10 ^ 9)" using f64_of_nat_exact [of "10 ^ 9"] by simp
  let ?s = "fl (of_nat ?q) + fl (of_nat ?r / 10 ^ 9)"
  have pos: "0 \<le> ?s" using fl_nonneg by simp
  have "?s \<le> 2 ^ 65" using q(2) s(2) by simp
  then have "round_f64 ?s = Fin (fl ?s)" by (intro round_f64_bounded [where k = 65]) (use pos in auto)
  then show "as_secs_f64 d = Fin (fl ?s)"
    unfolding as_secs_f64_def q(1) r b by (simp add: s(1) [simplified])
  show "0 \<le> fl ?s" using pos by (rule fl_nonneg)
qed


lemma fl_near:
  assumes "2 powi k \<le> x" "x < 2 powi (k + 1)" "- 1022 \<le> k" "\<bar>x / 2 powi (k - 52) - of_int m\<bar> < 1 / 2"
  shows "fl x = of_int m * 2 powi (k - 52)"
proof -
  have "0 < x" using assms(1) by (meson less_le_trans zero_less_numeral zero_less_power_int)
  moreover have "ulp_exp x = k - 52" using ilog2_unique [OF assms(1,2)] assms(3) by (simp add: ulp_exp_def)
  ultimately show ?thesis using round_even_near [OF assms(4)] by (simp add: fl_def fl_pos_def)
qed

lemma as_secs_max: "as_secs_f64 DURATION_MAX = Fin (2 ^ 64)"
proof -
  let ?s = "2 ^ 64 + fl (of_nat 999999999 / 10 ^ 9)"
  have q: "fl (2 ^ 64 - 1) = 2 ^ 64"
    using fl_near [of 63 "2 ^ 64 - 1" "2 ^ 53"] by (simp add: power_int_def)
  have f: "0 \<le> fl (of_nat 999999999 / 10 ^ 9)" "fl (of_nat 999999999 / 10 ^ 9) \<le> 1"
    using fl_nonneg [of "of_nat 999999999 / 10 ^ 9"] round_f64_bounded(2) [of "of_nat 999999999 / 10 ^ 9" 0] by auto
  then have "fl ?s = 2 ^ 64"
    using fl_near [of 64 ?s "2 ^ 52"] by (simp add: power_int_def)
  moreover have "DURATION_MAX div 10 ^ 9 = 2 ^ 64 - 1" "DURATION_MAX mod 10 ^ 9 = 999999999"
    "DURATION_MAX \<le> 2 ^ 64 * 10 ^ 9"
    by (simp_all add: DURATION_MAX_def)
  ultimately show ?thesis using as_secs_Fin(1) [of DURATION_MAX] q by simp
qed

lemma from_secs_f64_bound: "from_secs_f64 x = Some d \<Longrightarrow> d \<le> 2 ^ 64 * 10 ^ 9"
proof -
  assume "from_secs_f64 x = Some d"
  then obtain y where y: "x = Fin y" "0 \<le> y" "y < 2 ^ 64" "d = nat (round_even (y * 10 ^ 9))"
    by (cases x) (auto split: if_splits)
  have "round_even (y * 10 ^ 9) \<le> round_even (of_int (2 ^ 64 * 10 ^ 9))"
    using y(3) by (intro round_even_mono) simp
  then show ?thesis unfolding round_even_of_int y(4) by simp
qed

lemma schedule_new_interval:
  "schedule_new start r = Some sd \<Longrightarrow> sd_start sd = start
     \<and> (\<forall>i. sd_interval sd = Some i \<longrightarrow> i \<le> 2 ^ 64 * 10 ^ 9)"
  using from_secs_f64_bound by (auto simp: schedule_new_def split: option.splits if_splits)

text \<open>The seconds from the start of the schedule to a message, as the multiplication computes them.\<close>

definition due_secs :: "nat \<Rightarrow> nat \<Rightarrow> rat" where
  "due_secs i k = fl (fl (of_nat k) * fl (fl (of_nat (i div 10 ^ 9)) + fl (of_nat (i mod 10 ^ 9) / 10 ^ 9)))"

lemma due_secs_nonneg: "0 \<le> due_secs i n"
  unfolding due_secs_def by (intro fl_nonneg mult_nonneg_nonneg add_nonneg_nonneg) auto

lemma deadline_Some:
  assumes "sd_interval sd = Some i" "i \<le> 2 ^ 64 * 10 ^ 9" "schedule_deadline sd k = Some (Some t)"
  shows "t = sd_start sd + nat (round_even (due_secs i (unat k) * 10 ^ 9))"
proof -
  define n where "n = unat k"
  have "n < 2 ^ 64" unfolding n_def using unsigned_less [where w = k and 'a = nat] by simp
  then have "f64_mul (f64_of_nat n) (as_secs_f64 i) =
      round_f64 (fl (of_nat n) * fl (fl (of_nat (i div 10 ^ 9)) + fl (of_nat (i mod 10 ^ 9) / 10 ^ 9)))"
    using as_secs_Fin(1) [OF assms(2)] f64_of_nat_Fin by simp
  moreover have "0 \<le> fl (of_nat n) * fl (fl (of_nat (i div 10 ^ 9)) + fl (of_nat (i mod 10 ^ 9) / 10 ^ 9))"
    using as_secs_Fin(2) [OF assms(2)] fl_of_nat_nonneg by simp
  ultimately have "f64_mul (f64_of_nat n) (as_secs_f64 i) \<in> {Fin (due_secs i n), PInf}"
    unfolding due_secs_def using round_f64_cases by fastforce
  then show ?thesis using assms(1,3)
    by (auto simp: schedule_deadline_def mul_f64_def instant_add_def n_def [symmetric] split: option.splits if_splits)
qed

lemma due_secs_mono: "m \<le> n \<Longrightarrow> due_secs i m \<le> due_secs i n"
  unfolding due_secs_def
  by (intro fl_mono mult_right_mono mult_nonneg_nonneg fl_nonneg add_nonneg_nonneg) auto

lemma fl_rel_error: "x = 0 \<or> 2 powi (- 1022) \<le> x \<Longrightarrow> \<bar>fl x - x\<bar> \<le> x * 2 powi (- 53)"
  using fl_pos_rel_error [of x] less_le_trans [of 0 "2 powi (- 1022)" x] by (auto simp: fl_def)

text \<open>Three roundings of relative error \<open>2 ^ - 53\<close> each stay below \<open>2 ^ - 51\<close>.\<close>

lemma three_roundings:
  fixes D S T a x q k u :: rat
  assumes "\<bar>a - x\<bar> \<le> x * u" "\<bar>S - (q + a)\<bar> \<le> (q + a) * u" "\<bar>T - k * S\<bar> \<le> k * S * u"
    and "D = q + x" "0 \<le> x" "0 \<le> q" "0 \<le> k" "0 \<le> u" "4 * u \<le> 1"
  shows "\<bar>T - k * D\<bar> \<le> k * D * (4 * u)"
proof -
  have ux: "x * u \<le> D * u" using assms by (intro mult_right_mono) auto
  have "q + a \<le> D + D * u" using assms(1,4) ux by linarith
  then have "(q + a) * u \<le> (D + D * u) * u" using assms(8) by (rule mult_right_mono)
  then have SD: "\<bar>S - D\<bar> \<le> D * (2 * u + u * u)"
    using assms(1,2,4) ux by (simp add: algebra_simps)
  have D: "0 \<le> D" using assms by simp
  have S: "S \<le> D * (1 + 2 * u + u * u)" using SD by (simp add: algebra_simps abs_le_iff)
  have "k * S * u \<le> k * (D * (1 + 2 * u + u * u)) * u"
    using S assms(7,8) by (intro mult_right_mono mult_left_mono) auto
  moreover have "k * \<bar>S - D\<bar> \<le> k * (D * (2 * u + u * u))"
    using SD assms(7) by (rule mult_left_mono)
  moreover have "\<bar>T - k * D\<bar> \<le> \<bar>T - k * S\<bar> + k * \<bar>S - D\<bar>"
  proof -
    have "k * \<bar>S - D\<bar> = \<bar>k * S - k * D\<bar>" using assms(7) by (simp add: abs_mult right_diff_distrib [symmetric])
    then show ?thesis by linarith
  qed
  ultimately have "\<bar>T - k * D\<bar> \<le> k * (D * (1 + 2 * u + u * u)) * u + k * (D * (2 * u + u * u))"
    using assms(3) by linarith
  also have "\<dots> = k * D * (u * (3 + 3 * u + u * u))" by (simp add: algebra_simps)
  also have "\<dots> \<le> k * D * (u * 4)"
  proof -
    have "u * u \<le> u * 1" using assms(8,9) by (intro mult_left_mono) auto
    then have "3 + 3 * u + u * u \<le> 4" using assms(9) by linarith
    then show ?thesis using assms D by (intro mult_left_mono) auto
  qed
  finally show ?thesis by (simp add: mult.commute)
qed

lemma fl_lower: "2 powi (- 30) \<le> x \<Longrightarrow> 2 powi (- 30) \<le> fl x"
  using fl_mono [of "2 powi (- 30)" x] fl_exact [of "2 powi (- 30)" 1 "- 30"] by simp

lemma lower_normal: "2 powi (- 30) \<le> x \<Longrightarrow> (2 powi (- 1022) :: rat) \<le> x"
  using power_int_increasing [of "- 1022" "- 30" "2 :: rat"] by linarith

lemma fl_zero [simp]: "fl 0 = 0"
  by (simp add: fl_def)

lemma due_secs_accurate:
  assumes "i \<le> 2 ^ 53 * 10 ^ 9" "n \<le> 2 ^ 53"
  shows "\<bar>due_secs i n - of_nat n * (of_nat i / 10 ^ 9)\<bar> \<le> of_nat n * (of_nat i / 10 ^ 9) * (1 / 2 ^ 51)"
proof (cases "i = 0 \<or> n = 0")
  case True
  then show ?thesis by (auto simp: due_secs_def)
next
  case False
  define q x :: rat where "q = of_nat (i div 10 ^ 9)" and "x = of_nat (i mod 10 ^ 9) / 10 ^ 9"
  let ?S = "fl (q + fl x)" and ?n = "of_nat n :: rat"
  have "i div 10 ^ 9 \<le> 2 ^ 53" using div_le_mono [OF assms(1), of "10 ^ 9"] by simp
  then have q: "fl q = q" unfolding q_def by (rule fl_of_nat)
  have n: "fl ?n = ?n" using assms(2) by (rule fl_of_nat)
  have D: "of_nat i / 10 ^ 9 = q + x"
  proof -
    have "(of_nat i :: rat) = of_nat (i div 10 ^ 9 * 10 ^ 9 + i mod 10 ^ 9)" by simp
    also have "\<dots> = q * 10 ^ 9 + of_nat (i mod 10 ^ 9)" unfolding q_def of_nat_add of_nat_mult by simp
    finally show ?thesis by (simp add: x_def add_divide_distrib)
  qed
  have x: "x = 0 \<or> 2 powi (- 30) \<le> x"
  proof (cases "i mod 10 ^ 9 = 0")
    case False
    then have "(1 :: rat) \<le> of_nat (i mod 10 ^ 9)" by (simp add: Suc_le_eq)
    then have "1 / 10 ^ 9 \<le> x" unfolding x_def by (rule divide_right_mono) simp
    then show ?thesis by (simp add: power_int_minus)
  qed (simp add: x_def)
  have q1: "q = 0 \<or> 1 \<le> q" unfolding q_def by (cases "i div 10 ^ 9 = 0") (simp_all add: Suc_le_eq)
  have "q \<noteq> 0 \<or> x \<noteq> 0" using False D by (metis add.left_neutral divide_eq_0_iff of_nat_eq_0_iff power_not_zero zero_neq_numeral)
  then have qa: "2 powi (- 30) \<le> q + fl x"
    using q1 x fl_lower [of x] fl_nonneg [of x] by (auto simp: power_int_minus)
  then have S: "2 powi (- 30) \<le> ?S" by (rule fl_lower)
  have "1 \<le> ?n" using False by (simp add: Suc_le_eq)
  then have "1 * 2 powi (- 30) \<le> ?n * ?S" using S by (intro mult_mono) auto
  then have eT: "\<bar>fl (?n * ?S) - ?n * ?S\<bar> \<le> ?n * ?S * 2 powi (- 53)"
    by (intro fl_rel_error disjI2 lower_normal) simp
  have eS: "\<bar>?S - (q + fl x)\<bar> \<le> (q + fl x) * 2 powi (- 53)"
    using qa by (intro fl_rel_error disjI2 lower_normal)
  have ex: "\<bar>fl x - x\<bar> \<le> x * 2 powi (- 53)"
    using x lower_normal by (intro fl_rel_error) blast
  have "\<bar>fl (?n * ?S) - ?n * (q + x)\<bar> \<le> ?n * (q + x) * (4 * 2 powi (- 53))"
    by (rule three_roundings [OF ex eS eT refl]) (simp_all add: q_def x_def two_powers)
  then show ?thesis unfolding due_secs_def D q_def [symmetric] x_def [symmetric] q n by (simp add: two_powers)
qed

lemma rate_fault_None:
  assumes "rate_fault a r = None" "ba_publishers a \<noteq> 0"
  obtains x p where "f64_div r (f64_of_nat (ba_publishers a)) = Fin x" "0 < x"
    "f64_div (Fin 1) (Fin x) = Fin p" "0 \<le> p" "p \<le> 2 ^ 64"
proof -
  let ?n = "f64_of_nat (ba_publishers a)"
  obtain y where y: "r = Fin y" "0 < y" "y \<le> 10000000" and ok: "is_finite (f64_div (Fin 1) (f64_div r ?n))"
      "\<not> f64_less (Fin (2 ^ 64)) (f64_div (Fin 1) (f64_div r ?n))"
    using assms(1) by (cases r) (auto simp: rate_fault_def is_finite_def as_secs_max MAX_RATE_def Let_def split: if_splits)
  have pos: "0 \<le> (of_nat (ba_publishers a) :: rat)" by simp
  have "?n \<noteq> PInf" using ok(1) y(1) by (auto simp: is_finite_def)
  then have n: "?n = Fin (fl (of_nat (ba_publishers a)))"
    using round_f64_cases [OF pos] by (auto simp: f64_of_nat_def)
  have "(1 :: rat) \<le> fl (of_nat (ba_publishers a))"
    using fl_mono [of 1 "of_nat (ba_publishers a)"] fl_of_nat [of 1] assms(2) by (simp add: Suc_le_eq)
  moreover define m where "m = fl (of_nat (ba_publishers a) :: rat)"
  ultimately have m: "1 \<le> m" "?n = Fin m" using n by auto
  have "y / m \<le> y / 1" using y(2) m(1) by (intro divide_left_mono) auto
  then have "y / m \<le> 2 ^ 24" using y(3) by simp
  then have x: "f64_div r ?n = Fin (fl (y / m))"
    using round_f64_bounded(1) [of "y / m" 24] y(1,2) m by simp
  have x0: "fl (y / m) \<noteq> 0" using ok(1) unfolding x by (auto simp: is_finite_def)
  moreover have "0 \<le> fl (y / m)" using y(2) m(1) by (intro fl_nonneg) simp
  ultimately have x1: "0 < fl (y / m)" by simp
  then have "0 \<le> 1 / fl (y / m)" by simp
  from round_f64_cases [OF this] show ?thesis
  proof
    assume p: "round_f64 (1 / fl (y / m)) = Fin (fl (1 / fl (y / m)))"
    show ?thesis
      by (rule that [OF x x1]) (use ok x x0 p fl_nonneg \<open>0 \<le> 1 / fl (y / m)\<close> in \<open>auto simp: not_less\<close>)
  qed (use ok(1) x x0 in \<open>simp add: is_finite_def\<close>)
qed

section \<open>Properties\<close>

text \<open>
  C30: pacing is absolute. The first message is due at the start of the schedule, no message is due
  before an earlier one, and message \<open>k\<close> is due \<open>k\<close> intervals after the start up to half a nanosecond
  and a relative error of \<open>2 ^ - 51\<close>, whatever happened to the messages before it: the error does not
  add up over a run.
\<close>

theorem schedule_paces:
  assumes "schedule_new start r = Some sd" "sd_interval sd = Some i" "schedule_deadline sd k = Some (Some t)"
  shows "start \<le> t \<and> (k = 0 \<longrightarrow> t = start)
     \<and> (\<forall>j u. j \<le> k \<and> schedule_deadline sd j = Some (Some u) \<longrightarrow> u \<le> t)
     \<and> (i \<le> 2 ^ 53 * 10 ^ 9 \<and> unat k \<le> 2 ^ 53 \<longrightarrow>
          \<bar>(of_nat t :: rat) - of_nat (start + unat k * i)\<bar> \<le> 1 / 2 + of_nat (unat k * i) / 2 ^ 51)"
proof -
  have st: "sd_start sd = start" and i: "i \<le> 2 ^ 64 * 10 ^ 9"
    using schedule_new_interval [OF assms(1)] assms(2) by auto
  note due = deadline_Some [OF assms(2) i, unfolded st]
  have t: "t = start + nat (round_even (due_secs i (unat k) * 10 ^ 9))" by (rule due [OF assms(3)])
  have "due_secs i 0 = 0" by (simp add: due_secs_def)
  then have "k = 0 \<longrightarrow> t = start" using t round_even_of_int [of 0] by simp
  moreover have "u \<le> t" if "j \<le> k" "schedule_deadline sd j = Some (Some u)" for j u
  proof -
    have "due_secs i (unat j) * 10 ^ 9 \<le> due_secs i (unat k) * 10 ^ 9"
      using that(1) by (intro mult_right_mono due_secs_mono) (simp_all add: word_le_nat_alt)
    then show ?thesis using due [OF that(2)] t round_even_mono by (simp add: nat_mono)
  qed
  moreover have "\<bar>(of_nat t :: rat) - of_nat (start + unat k * i)\<bar> \<le> 1 / 2 + of_nat (unat k * i) / 2 ^ 51"
    if "i \<le> 2 ^ 53 * 10 ^ 9" "unat k \<le> 2 ^ 53"
  proof -
    define n where "n = unat k"
    let ?T = "due_secs i n" and ?r = "round_even (due_secs i n * 10 ^ 9)"
    have "0 \<le> ?r" using round_even_mono [of 0 "?T * 10 ^ 9"] round_even_of_int [of 0] due_secs_nonneg by simp
    then have rt: "(of_nat t :: rat) - of_nat start = of_int ?r" using t by (simp add: n_def)
    have "\<bar>of_int ?r - ?T * 10 ^ 9\<bar> \<le> 1 / 2" by (rule round_even_error)
    moreover have "\<bar>?T * 10 ^ 9 - of_nat (n * i)\<bar> \<le> of_nat (n * i) / 2 ^ 51"
      using due_secs_accurate [OF that(1), of n] that(2) by (simp add: n_def [symmetric] abs_le_iff field_simps)
    ultimately show ?thesis using rt unfolding n_def [symmetric] of_nat_add by linarith
  qed
  moreover have "start \<le> t" using t by simp
  ultimately show ?thesis by blast
qed

definition sample_schedule :: schedule where
  "sample_schedule = \<lparr>sd_start = 7, sd_interval = Some 500000000\<rparr>"

lemma sample_schedule_new: "schedule_new 7 (Some (Fin 2)) = Some sample_schedule"
proof -
  have "f64_div (Fin 1) (Fin 2) = Fin (1 / 2)"
    using fl_exact [of "1 / 2" 1 "- 1"] round_f64_bounded(1) [of "1 / 2" 0] by (simp add: two_powers)
  then show ?thesis using round_even_of_int [of 500000000] by (simp add: schedule_new_def sample_schedule_def)
qed

lemma sample_schedule_first: "schedule_deadline sample_schedule 0 = Some (Some 7)"
proof -
  have "f64_of_nat 0 = Fin 0" using f64_of_nat_exact [of 0] by simp
  then show ?thesis using as_secs_Fin(1) [of 500000000] round_even_of_int [of 0]
    by (simp add: schedule_deadline_def sample_schedule_def mul_f64_def instant_add_def INSTANT_MAX_def round_f64_def)
qed

theorem schedule_paces_witness:
  "schedule_deadline sample_schedule 0 = Some (Some 7) \<and> (7 :: nat) \<le> 7"
  using schedule_paces [OF sample_schedule_new, of 500000000 0 7] sample_schedule_first
  by (simp add: sample_schedule_def)

text \<open>
  C31: an accepted rate is one the schedule can use, with one exception. For a configuration that
  passed validation, building a publisher's schedule panics exactly when the period of its share is
  \<open>2 ^ 64\<close> seconds; otherwise the schedule has an interval exactly when a rate was given.
\<close>

theorem schedule_new_accepted:
  assumes "from_args P a = Inr c"
  shows "(schedule_new start (per_publisher_rate c) = None \<longleftrightarrow>
       (\<exists>r. per_publisher_rate c = Some r \<and> f64_div (Fin 1) r = Fin (2 ^ 64)))
     \<and> (\<forall>sd. schedule_new start (per_publisher_rate c) = Some sd \<longrightarrow>
          (sd_interval sd = None \<longleftrightarrow> cf_rate c = None))"
proof (cases "ba_rate a")
  case None
  then have "per_publisher_rate c = None" "cf_rate c = None"
    using assms by (auto simp: from_args_def per_publisher_rate_def split: if_splits option.splits sum.splits)
  then show ?thesis by (auto simp: schedule_new_def)
next
  case (Some r)
  then have c: "cf_rate c = Some r" "cf_publishers c = ba_publishers a"
    and ok: "rate_fault a r = None" "ba_publishers a \<noteq> 0"
    using assms by (auto simp: from_args_def split: if_splits option.splits sum.splits)
  obtain x p where x: "f64_div r (f64_of_nat (ba_publishers a)) = Fin x" "0 < x"
    "f64_div (Fin 1) (Fin x) = Fin p" "0 \<le> p" "p \<le> 2 ^ 64"
    using rate_fault_None [OF ok] by metis
  then have "per_publisher_rate c = Some (Fin x)" by (simp add: per_publisher_rate_def c)
  then show ?thesis using x c(1) by (auto simp: schedule_new_def simp del: f64_div.simps)
qed

text \<open>
  The exception exists: \<^verbatim>\<open>--rate 5.421010862427522e-20\<close>, which is \<open>2 ^ - 64\<close>, passes the validation, since
  the largest duration in seconds rounds up to \<open>2 ^ 64\<close>, and the schedule then panics.
\<close>

definition tiny_rate_args :: bench_args where
  "tiny_rate_args = \<lparr>ba_conn = default_connection, ba_publishers = 1, ba_subscribers = 0, ba_topic_prefix = ''bench'',
     ba_qos = 0, ba_payload_size = 64, ba_count = None, ba_duration = None, ba_rate = Some (Fin (1 / 2 ^ 64)),
     ba_inflight = 100, ba_warmup = 0, ba_drain = 2, ba_json = False\<rparr>"

lemma tiny_rate_period:
  "f64_div (Fin (1 / 2 ^ 64)) (f64_of_nat 1) = Fin (1 / 2 ^ 64)" "f64_div (Fin 1) (Fin (1 / 2 ^ 64)) = Fin (2 ^ 64)"
proof -
  have f: "fl (1 / 2 ^ 64) = 1 / 2 ^ 64" "fl (2 ^ 64) = 2 ^ 64"
    using fl_exact [of "1 / 2 ^ 64" 1 "- 64"] fl_exact [of "2 ^ 64" 1 64] by (simp_all add: power_int_def field_simps)
  have "round_f64 (1 / 2 ^ 64) = Fin (1 / 2 ^ 64)" "round_f64 (2 ^ 64) = Fin (2 ^ 64)"
    using round_f64_bounded(1) [of "1 / 2 ^ 64" 0] round_f64_bounded(1) [of "2 ^ 64" 64] f by simp_all
  then show "f64_div (Fin (1 / 2 ^ 64)) (f64_of_nat 1) = Fin (1 / 2 ^ 64)" "f64_div (Fin 1) (Fin (1 / 2 ^ 64)) = Fin (2 ^ 64)"
    using f64_of_nat_exact [of 1] by simp_all
qed

theorem schedule_new_accepted_witness:
  "\<exists>c. from_args mqtt_documented tiny_rate_args = Inr c \<and> schedule_new 0 (per_publisher_rate c) = None"
proof -
  have "rate_fault tiny_rate_args (Fin (1 / 2 ^ 64)) = None"
    using tiny_rate_period as_secs_max
    by (simp add: rate_fault_def tiny_rate_args_def MAX_RATE_def is_finite_def Let_def del: f64_div.simps One_nat_def)
  then obtain c where c: "from_args mqtt_documented tiny_rate_args = Inr c"
    "cf_rate c = Some (Fin (1 / 2 ^ 64))" "cf_publishers c = 1"
    using qos_from_u8_small by (auto simp: from_args_def tiny_rate_args_def documented_simps)
  then have "per_publisher_rate c = Some (Fin (1 / 2 ^ 64))"
    using tiny_rate_period(1) by (simp add: per_publisher_rate_def del: f64_div.simps One_nat_def)
  then show ?thesis using schedule_new_accepted [OF c(1), of 0] c(1) tiny_rate_period(2) by auto
qed

end
