(* ===== verification/Bench_Publisher.thy ===== *)
theory Bench_Publisher
  imports Bench_Schedule Mqtt_Client "HOL-Library.AList"
begin

text \<open>
  One publishing connection (\<^verbatim>\<open>src/bench/publisher.rs\<close>): a write side that paces sends and holds the
  in-flight window, and a read side, a task of its own, that matches acknowledgements. The two share
  the in-flight map, the semaphore and the channel of owed PUBRELs; every stretch of code between two
  points where another task can run is one step, and the tasks interleave freely. Reading a packet and
  completing its acknowledgement is one step, since a read commutes with everything the write side does.
  The counters are this publisher's own contributions to the shared ones.
\<close>

section \<open>State\<close>

text \<open>What is fixed once the connection stands.\<close>

record publisher_setup =
  px_index :: u32
  px_config :: config
  px_version :: protocol_version
  px_max_packet_size :: u32
  px_window :: nat
  px_baseline :: nat
  px_warmup_until :: nat
  px_schedule :: schedule

datatype ack_task =
    Reading samples
  | Ended samples "error option"
  | Crashed string

text \<open>
  Where the write side stands: in the drain at the top of its loop; waiting for a deadline; waiting for
  a permit; holding an identifier and the send time, before and after the in-flight entry is made;
  cleaning up a failed write; in the loop of the tail; in its last drain; before DISCONNECT; waiting
  for the read side since an instant; or finished.
\<close>

datatype write_phase =
    Draining
  | Pacing nat
  | Acquiring
  | Prepared "u16 option" nat
  | Writing "u16 option" nat
  | Failing "u16 option" mqtt_error
  | Tail_Check nat
  | Tail_Drain nat
  | Tail_Sleep nat nat
  | Last_Drain
  | Closing
  | Joining nat
  | Done_With "error + samples"
  | Write_Panicked

record publisher =
  pb_stream :: stream
  pb_permits :: nat
  pb_closed :: bool
  pb_in_flight :: "(u16 \<times> nat) list"
  pb_channel :: "u16 list"
  pb_ack :: ack_task
  pb_phase :: write_phase
  pb_sent :: u64
  pb_next_packet_id :: u16
  pb_window_closed :: bool
  pb_stop :: bool
  pb_counters :: counters

section \<open>The read side\<close>

definition complete_ack ::
  "protocol_crate \<Rightarrow> publisher_setup \<Rightarrow> nat \<Rightarrow> u16 \<Rightarrow> reason_code \<Rightarrow> samples \<Rightarrow> publisher \<Rightarrow> publisher" where
  "complete_ack P x now i code samples s =
     (let s = (if rc_is_error P code then s\<lparr>pb_counters := record_refusal code (pb_counters s)\<rparr> else s) in
      case map_of (pb_in_flight s) i of
        None \<Rightarrow> s
      | Some sent \<Rightarrow>
          let s = s\<lparr>pb_in_flight := AList.delete i (pb_in_flight s), pb_permits := pb_permits s + 1\<rparr> in
          if rc_is_error P code then s
          else s\<lparr>pb_counters := (pb_counters s)\<lparr>ct_acknowledged := ct_acknowledged (pb_counters s) + 1\<rparr>,
             pb_ack := Reading (if px_warmup_until x \<le> sent then record_sample samples (of_nat (now - sent)) else samples)\<rparr>)"

definition ack_packet ::
  "protocol_crate \<Rightarrow> publisher_setup \<Rightarrow> nat \<Rightarrow> packet \<Rightarrow> samples \<Rightarrow> publisher \<Rightarrow> publisher" where
  "ack_packet P x now p samples s = (case p of
      Puback a \<Rightarrow> complete_ack P x now (ack_packet_id a) (ack_reason_code a) samples s
    | Pubrec a \<Rightarrow>
        if rc_is_error P (ack_reason_code a)
        then complete_ack P x now (ack_packet_id a) (ack_reason_code a) samples s
        else s\<lparr>pb_channel := pb_channel s @ [ack_packet_id a]\<rparr>
    | Pubcomp a \<Rightarrow> complete_ack P x now (ack_packet_id a) (ack_reason_code a) samples s
    | _ \<Rightarrow> s)"

text \<open>One turn of the read loop; \<^const>\<open>None\<close> while nothing has arrived or once the task is over.\<close>

definition read_side :: "protocol_crate \<Rightarrow> publisher_setup \<Rightarrow> nat \<Rightarrow> publisher \<Rightarrow> publisher option" where
  "read_side P x now s = (case pb_ack s of
      Reading samples \<Rightarrow> (case read_packet (px_max_packet_size x) (px_version x) (pb_stream s) of
          (Return (Got p), st) \<Rightarrow> Some (ack_packet P x now p samples (s\<lparr>pb_stream := st\<rparr>))
        | (Return Eof, st) \<Rightarrow> Some (s\<lparr>pb_stream := st, pb_closed := True, pb_ack := Ended samples None\<rparr>)
        | (Raise e, st) \<Rightarrow> Some (s\<lparr>pb_stream := st, pb_closed := True, pb_ack := Ended samples (Some (from_mqtt e))\<rparr>)
        | (_, st) \<Rightarrow> None)
    | _ \<Rightarrow> None)"

section \<open>The write side\<close>

text \<open>One iteration of \<^verbatim>\<open>drain_pubrels\<close> for an identifier taken from the channel.\<close>

definition drain_pubrel ::
  "protocol_crate \<Rightarrow> publisher_setup \<Rightarrow> u16 \<Rightarrow> u16 list \<Rightarrow> publisher \<Rightarrow> mqtt_error option \<times> publisher" where
  "drain_pubrel P x i rest s =
     (case write_packet (Pubrel (pub_ack_new i (rc_success P))) (px_version x) (pb_stream s) of
        (Raise e, st) \<Rightarrow> (Some e, s\<lparr>pb_channel := rest, pb_stream := st\<rparr>)
      | (_, st) \<Rightarrow> (None, s\<lparr>pb_channel := rest, pb_stream := st\<rparr>))"

text \<open>Leaving the send loop: into the tail's wait of five seconds, or past it if the window closed.\<close>

definition leave_loop :: "nat \<Rightarrow> publisher \<Rightarrow> publisher" where
  "leave_loop now s = s\<lparr>pb_phase :=
     (if pb_window_closed s then Closing
      else case instant_add now (5 * 10 ^ 9) of Some d \<Rightarrow> Tail_Check d | None \<Rightarrow> Write_Panicked)\<rparr>"

definition next_id :: "u16 \<Rightarrow> u16 \<times> u16" where
  "next_id c = (let n = c + 1; n = (if n = 0 then 1 else n) in (n, n))"

text \<open>From the permit to the lock of the in-flight map.\<close>

definition prepare :: "publisher_setup \<Rightarrow> nat \<Rightarrow> publisher \<Rightarrow> publisher" where
  "prepare x now s =
     (if cf_qos (px_config x) = AtMostOnce then s\<lparr>pb_phase := Prepared None now\<rparr>
      else case next_id (pb_next_packet_id s) of
        (i, n) \<Rightarrow> s\<lparr>pb_next_packet_id := n, pb_phase := Prepared (Some i) now\<rparr>)"

definition proceed :: "publisher_setup \<Rightarrow> nat \<Rightarrow> publisher \<Rightarrow> publisher" where
  "proceed x now s =
     (if cf_qos (px_config x) = AtMostOnce then prepare x now s else s\<lparr>pb_phase := Acquiring\<rparr>)"

text \<open>From the end of the drain to the next point of waiting.\<close>

definition top_checks :: "publisher_setup \<Rightarrow> nat \<Rightarrow> publisher \<Rightarrow> publisher" where
  "top_checks x now s =
     (if (case quota_for (px_config x) (unat (px_index x)) of Some q \<Rightarrow> q \<le> pb_sent s | None \<Rightarrow> False)
      then leave_loop now s
      else if pb_stop s then leave_loop now s
      else case schedule_deadline (px_schedule x) (pb_sent s) of
        None \<Rightarrow> s\<lparr>pb_phase := Write_Panicked\<rparr>
      | Some None \<Rightarrow> proceed x now s
      | Some (Some d) \<Rightarrow> s\<lparr>pb_phase := Pacing d\<rparr>)"

definition publisher_message :: "publisher_setup \<Rightarrow> u64 \<Rightarrow> u16 option \<Rightarrow> nat \<Rightarrow> publish_packet" where
  "publisher_message x sent packet_id now = \<lparr>pub_dup = False, pub_qos = cf_qos (px_config x), pub_retain = False,
     pub_topic = topic_for (px_config x) (px_index x), pub_packet_id = packet_id, pub_properties = properties_new,
     pub_payload = build (cf_payload_size (px_config x))
       \<lparr>hd_elapsed_ns = of_nat (now - px_baseline x), hd_publisher = px_index x, hd_seq = ucast sent\<rparr>\<rparr>"

definition write_publish :: "publisher_setup \<Rightarrow> u16 option \<Rightarrow> nat \<Rightarrow> publisher \<Rightarrow> publisher" where
  "write_publish x packet_id now s =
     (let m = publisher_message x (pb_sent s) packet_id now; c = pb_counters s in
      case write_packet (Publish m) (px_version x) (pb_stream s) of
        (Raise e, st) \<Rightarrow> s\<lparr>pb_stream := st, pb_counters := c\<lparr>ct_publish_errors := ct_publish_errors c + 1\<rparr>,
            pb_phase := Failing packet_id e\<rparr>
      | (_, st) \<Rightarrow> s\<lparr>pb_stream := st,
            pb_counters := c\<lparr>ct_published := ct_published c + 1,
              ct_bytes_sent := ct_bytes_sent c + of_nat (length (pub_payload m))\<rparr>,
            pb_sent := pb_sent s + 1, pb_phase := Draining\<rparr>)"

text \<open>The identifier is dropped from the in-flight map and the permit returns its slot.\<close>

definition clean_up :: "u16 option \<Rightarrow> mqtt_error \<Rightarrow> publisher \<Rightarrow> publisher" where
  "clean_up packet_id e s =
     (let s = (case packet_id of
          None \<Rightarrow> s
        | Some i \<Rightarrow> s\<lparr>pb_in_flight := AList.delete i (pb_in_flight s), pb_permits := pb_permits s + 1\<rparr>) in
      s\<lparr>pb_phase := Done_With (Inl (from_mqtt e))\<rparr>)"

definition ack_wait :: "publisher_setup \<Rightarrow> nat" where
  "ack_wait x = max (cf_drain (px_config x)) (5 * 10 ^ 9)"

text \<open>What \<^verbatim>\<open>run\<close> returns once the read side is joined.\<close>

definition publisher_result ::
  "protocol_crate \<Rightarrow> publisher_setup \<Rightarrow> bool \<Rightarrow> u64 \<Rightarrow> ack_task \<Rightarrow> error + samples" where
  "publisher_result P x window_closed sent a =
     (let name = ''publisher '' @ show_nat (unat (px_index x)) in
      case a of
        Ended samples (Some e) \<Rightarrow> Inl (Usage (name @ '': the broker's reply stream failed: '' @ display_error P e))
      | Ended samples None \<Rightarrow>
          if window_closed then Inl (Usage (name @ '': the broker closed the connection after ''
            @ show_nat (unat sent) @ '' message(s), before acknowledging the rest''))
          else Inr samples
      | Crashed e \<Rightarrow> Inl (Usage (name @ '' ack task failed: '' @ e))
      | Reading samples \<Rightarrow> Inl (Usage (name @ '': acknowledgement task did not finish within the drain ''
            @ ''window; the broker likely never closed its half of the socket after DISCONNECT (3.14.4)'')))"

text \<open>
  One step of the write side, \<^const>\<open>None\<close> while it has to wait. The arms of its \<^verbatim>\<open>select!\<close>s for the stop
  signal, and the timeout of the final join, are steps of their own.
\<close>

definition write_side :: "protocol_crate \<Rightarrow> publisher_setup \<Rightarrow> nat \<Rightarrow> publisher \<Rightarrow> publisher option" where
  "write_side P x now s = (case pb_phase s of
      Draining \<Rightarrow> (case pb_channel s of
          [] \<Rightarrow> Some (top_checks x now s)
        | i # rest \<Rightarrow> (case drain_pubrel P x i rest s of
            (None, t) \<Rightarrow> Some t
          | (Some e, t) \<Rightarrow> Some (t\<lparr>pb_phase := Done_With (Inl (from_mqtt e))\<rparr>)))
    | Pacing d \<Rightarrow> if d \<le> now then Some (proceed x now s) else None
    | Acquiring \<Rightarrow>
        if pb_closed s then Some (leave_loop now (s\<lparr>pb_window_closed := True\<rparr>))
        else if 0 < pb_permits s then Some (prepare x now (s\<lparr>pb_permits := pb_permits s - 1\<rparr>))
        else None
    | Prepared packet_id t \<Rightarrow> Some (s\<lparr>pb_phase := Writing packet_id t,
        pb_in_flight := (case packet_id of Some i \<Rightarrow> AList.update i t (pb_in_flight s) | None \<Rightarrow> pb_in_flight s)\<rparr>)
    | Writing packet_id t \<Rightarrow> Some (write_publish x packet_id t s)
    | Failing packet_id e \<Rightarrow> Some (clean_up packet_id e s)
    | Tail_Check d \<Rightarrow> Some (s\<lparr>pb_phase := (if pb_in_flight s \<noteq> [] \<and> now < d then Tail_Drain d else Last_Drain)\<rparr>)
    | Tail_Drain d \<Rightarrow> (case pb_channel s of
          [] \<Rightarrow> Some (s\<lparr>pb_phase := Tail_Sleep d (now + 10 ^ 7)\<rparr>)
        | i # rest \<Rightarrow> (case drain_pubrel P x i rest s of
            (None, t) \<Rightarrow> Some t
          | (Some e, t) \<Rightarrow> Some (t\<lparr>pb_phase := Tail_Sleep d (now + 10 ^ 7)\<rparr>)))
    | Tail_Sleep d wake \<Rightarrow> if wake \<le> now then Some (s\<lparr>pb_phase := Tail_Check d\<rparr>) else None
    | Last_Drain \<Rightarrow> (case pb_channel s of
          [] \<Rightarrow> Some (s\<lparr>pb_phase := Closing\<rparr>)
        | i # rest \<Rightarrow> (case drain_pubrel P x i rest s of
            (None, t) \<Rightarrow> Some t
          | (Some e, t) \<Rightarrow> Some (t\<lparr>pb_phase := Closing\<rparr>)))
    | Closing \<Rightarrow> Some (s\<lparr>pb_phase := Joining now,
        pb_stream := snd (write_packet (Disconnect (rc_success P)) (px_version x) (pb_stream s))\<rparr>)
    | Joining since \<Rightarrow> (case pb_ack s of
          Reading samples \<Rightarrow> None
        | a \<Rightarrow> Some (s\<lparr>pb_phase := Done_With (publisher_result P x (pb_window_closed s) (pb_sent s) a)\<rparr>))
    | Done_With r \<Rightarrow> None
    | Write_Panicked \<Rightarrow> None)"

definition stop_arm :: "nat \<Rightarrow> publisher \<Rightarrow> publisher option" where
  "stop_arm now s =
     (if pb_stop s then (case pb_phase s of
          Pacing d \<Rightarrow> Some (leave_loop now s)
        | Acquiring \<Rightarrow> Some (leave_loop now s)
        | _ \<Rightarrow> None)
      else None)"

definition join_timeout :: "protocol_crate \<Rightarrow> publisher_setup \<Rightarrow> nat \<Rightarrow> publisher \<Rightarrow> publisher option" where
  "join_timeout P x now s = (case (pb_phase s, pb_ack s) of
      (Joining since, Reading samples) \<Rightarrow>
        if since + ack_wait x \<le> now
        then Some (s\<lparr>pb_ack := Crashed ''cancelled'',
          pb_phase := Done_With (publisher_result P x (pb_window_closed s) (pb_sent s) (Reading samples))\<rparr>)
        else None
    | _ \<Rightarrow> None)"

section \<open>Interleaving\<close>

datatype publisher_label = Stop_Signal | Read_Turn nat | Write_Turn nat | Stop_Turn nat | Give_Up nat

inductive publisher_step ::
  "protocol_crate \<Rightarrow> publisher_setup \<Rightarrow> publisher \<Rightarrow> publisher_label \<Rightarrow> publisher \<Rightarrow> bool"
  for P :: protocol_crate and x :: publisher_setup where
  stop_signal: "publisher_step P x s Stop_Signal (s\<lparr>pb_stop := True\<rparr>)"
| read_turn: "read_side P x now s = Some t \<Longrightarrow> publisher_step P x s (Read_Turn now) t"
| write_turn: "write_side P x now s = Some t \<Longrightarrow> publisher_step P x s (Write_Turn now) t"
| stop_turn: "stop_arm now s = Some t \<Longrightarrow> publisher_step P x s (Stop_Turn now) t"
| give_up: "join_timeout P x now s = Some t \<Longrightarrow> publisher_step P x s (Give_Up now) t"

inductive_simps publisher_step_simps:
  "publisher_step P x s Stop_Signal t"
  "publisher_step P x s (Read_Turn now) t"
  "publisher_step P x s (Write_Turn now) t"
  "publisher_step P x s (Stop_Turn now) t"
  "publisher_step P x s (Give_Up now) t"

inductive_cases publisher_stepE: "publisher_step P x s l t"

section \<open>Starting\<close>

definition publisher_client_id :: "os \<Rightarrow> connection_args \<Rightarrow> u32 \<Rightarrow> string" where
  "publisher_client_id sys a index =
     (case ca_client_id a of Some i \<Rightarrow> i | None \<Rightarrow> generated_client_id sys) @ ''-pub-'' @ show_nat (unat index)"

definition publisher_initial :: "stream \<Rightarrow> nat \<Rightarrow> publisher" where
  "publisher_initial st window = \<lparr>pb_stream = st, pb_permits = window, pb_closed = False, pb_in_flight = [],
     pb_channel = [], pb_ack = Reading samples_new, pb_phase = Draining, pb_sent = 0, pb_next_packet_id = 0,
     pb_window_closed = False, pb_stop = False, pb_counters = counters_zero\<rparr>"

definition publisher_start ::
  "protocol_crate \<Rightarrow> ('tcp, 'tls, 'req) network \<Rightarrow> os \<Rightarrow> u32 \<Rightarrow> config \<Rightarrow> connection_args \<Rightarrow> nat \<Rightarrow> nat \<Rightarrow> nat \<Rightarrow>
     (world, error, publisher_setup \<times> publisher) io" where
  "publisher_start P N sys index c a baseline warmup_until now =
     bind_io (transport_connect P N sys a) (\<lambda>t.
     bind_io (\<lambda>w. (Return (), w\<lparr>w_stream := framing N t\<rparr>)) (\<lambda>_.
     bind_io (handshake P sys a (publisher_client_id sys a index)) (\<lambda>neg.
     bind_io (try_io (map_sum Usage id (max_packet_size a))) (\<lambda>m.
       let window = min (effective_inflight (cf_inflight c) (neg_receive_maximum neg)) 65535 in
       case schedule_new now (per_publisher_rate c) of
         None \<Rightarrow> panic_io
       | Some sd \<Rightarrow> (\<lambda>w. (Return
           (\<lparr>px_index = index, px_config = c, px_version = neg_version neg, px_max_packet_size = m, px_window = window,
              px_baseline = baseline, px_warmup_until = warmup_until, px_schedule = sd\<rparr>,
            publisher_initial (w_stream w) window), w))))))"

section \<open>Lemmas\<close>

interpretation publisher_ids: id_allocator next_id id
  by unfold_locales (auto simp: next_id_def bump_def Let_def)

lemma drain_pubrel_cases:
  assumes "drain_pubrel P x i rest s = (r, t)"
  obtains st' where "t = s\<lparr>pb_channel := rest, pb_stream := st'\<rparr>" "inbox st' = inbox (pb_stream s)"
    "write_fault st' = write_fault (pb_stream s)"
    "sent_packets st' = sent_packets (pb_stream s) @ (if r = None then [Pubrel (pub_ack_new i (rc_success P))] else [])"
    "r = None \<or> (\<exists>n. write_fault (pb_stream s) n \<noteq> None)"
proof (cases rule: write_packet_cases [of "Pubrel (pub_ack_new i (rc_success P))" "px_version x" "pb_stream s"])
  case (ok st')
  with assms show ?thesis by (intro that [of st']) (auto simp: drain_pubrel_def)
next
  case (fault e st')
  from assms fault(1) have r: "r = Some e" "t = s\<lparr>pb_channel := rest, pb_stream := st'\<rparr>"
    by (auto simp: drain_pubrel_def)
  show ?thesis using r fault(2-4) by (intro that [of st']) (auto intro!: exI [of _ "attempts (pb_stream s)"] simp: fault(5))
qed

lemma write_publish_cases:
  assumes "write_publish x pid now s = t"
  obtains (ok) st' where "t = s\<lparr>pb_stream := st', pb_sent := pb_sent s + 1, pb_phase := Draining,
        pb_counters := (pb_counters s)\<lparr>ct_published := ct_published (pb_counters s) + 1, ct_bytes_sent :=
          ct_bytes_sent (pb_counters s) + of_nat (length (pub_payload (publisher_message x (pb_sent s) pid now)))\<rparr>\<rparr>"
      "sent_packets st' = sent_packets (pb_stream s) @ [Publish (publisher_message x (pb_sent s) pid now)]"
      "inbox st' = inbox (pb_stream s)" "write_fault st' = write_fault (pb_stream s)"
  | (fault) e st' where "t = s\<lparr>pb_stream := st', pb_phase := Failing pid e,
        pb_counters := (pb_counters s)\<lparr>ct_publish_errors := ct_publish_errors (pb_counters s) + 1\<rparr>\<rparr>"
      "sent_packets st' = sent_packets (pb_stream s)"
      "inbox st' = inbox (pb_stream s)" "write_fault st' = write_fault (pb_stream s)"
proof (cases rule: write_packet_cases [of "Publish (publisher_message x (pb_sent s) pid now)" "px_version x" "pb_stream s"])
  case (ok st')
  with assms show ?thesis by (intro that(1) [where st' = st']) (auto simp: write_publish_def Let_def)
next
  case (fault e st')
  with assms show ?thesis by (intro that(2) [where st' = st' and e = e]) (auto simp: write_publish_def Let_def)
qed

lemma complete_ack_cases:
  assumes "complete_ack P x now i code sm s = t"
  obtains (unknown) c where "map_of (pb_in_flight s) i = None" "t = s\<lparr>pb_counters := c\<rparr>"
      "ct_acknowledged c = ct_acknowledged (pb_counters s)" "ct_published c = ct_published (pb_counters s)"
  | (refused) c sent where "map_of (pb_in_flight s) i = Some sent"
      "t = s\<lparr>pb_counters := c, pb_in_flight := AList.delete i (pb_in_flight s), pb_permits := pb_permits s + 1\<rparr>"
      "ct_acknowledged c = ct_acknowledged (pb_counters s)" "ct_published c = ct_published (pb_counters s)"
  | (accepted) c sent sm' where "map_of (pb_in_flight s) i = Some sent"
      "t = s\<lparr>pb_counters := c, pb_in_flight := AList.delete i (pb_in_flight s), pb_permits := pb_permits s + 1,
         pb_ack := Reading sm'\<rparr>"
      "ct_acknowledged c = ct_acknowledged (pb_counters s) + 1" "ct_published c = ct_published (pb_counters s)"
      "length (sm_values sm') \<le> length (sm_values sm) + 1"
proof (cases "map_of (pb_in_flight s) i")
  case None
  with assms show ?thesis
    by (intro that(1) [where c = "if rc_is_error P code then record_refusal code (pb_counters s) else pb_counters s"])
      (auto simp: complete_ack_def record_refusal_def Let_def)
next
  case (Some sent)
  show ?thesis
  proof (cases "rc_is_error P code")
    case True
    with Some assms show ?thesis
      by (intro that(2) [where sent = sent and c = "record_refusal code (pb_counters s)"])
        (auto simp: complete_ack_def record_refusal_def Let_def)
  next
    case False
    with Some assms show ?thesis
      by (intro that(3) [where sent = sent and c = "(pb_counters s)\<lparr>ct_acknowledged := ct_acknowledged (pb_counters s) + 1\<rparr>"
            and sm' = "if px_warmup_until x \<le> sent then record_sample sm (of_nat (now - sent)) else sm"])
        (auto simp: complete_ack_def record_sample_def Let_def)
  qed
qed

text \<open>The in-flight map as a list of entries.\<close>

lemma in_flight_delete:
  "distinct (map fst xs) \<Longrightarrow> map_of xs i = Some t \<Longrightarrow> Suc (length (AList.delete i xs)) = length xs"
proof (induction xs)
  case (Cons y ys)
  show ?case
  proof (cases "fst y = i")
    case True
    then have "AList.delete i ys = ys" using Cons.prems(1) by (auto simp: delete_id)
    with True show ?thesis by (cases y) simp
  next
    case False
    with Cons show ?thesis by (cases y) auto
  qed
qed simp

lemma in_flight_update: "length (AList.update i t xs) \<le> Suc (length xs)"
  by (induction xs) auto

lemmas in_flight_simps = in_flight_update distinct_delete distinct_update

lemmas phase_defs = leave_loop_def top_checks_def proceed_def prepare_def clean_up_def stop_arm_def join_timeout_def

subsection \<open>What a step of the write side can do\<close>

datatype stage = Top | Waiting | Sending | Leaving | Over

fun stage_of :: "write_phase \<Rightarrow> stage" where
  "stage_of Draining = Top"
| "stage_of (Pacing d) = Waiting"
| "stage_of Acquiring = Waiting"
| "stage_of (Prepared i d) = Sending"
| "stage_of (Writing i d) = Sending"
| "stage_of (Failing i e) = Sending"
| "stage_of (Joining d) = Over"
| "stage_of (Done_With r) = Over"
| "stage_of ph = Leaving"

definition below_quota :: "publisher_setup \<Rightarrow> publisher \<Rightarrow> bool" where
  "below_quota x s \<longleftrightarrow> (case quota_for (px_config x) (unat (px_index x)) of Some q \<Rightarrow> pb_sent s < q | None \<Rightarrow> True)"

lemma leave_loop_moved:
  obtains ph where "leave_loop now s = s\<lparr>pb_phase := ph\<rparr>" "stage_of ph = Leaving"
  by (cases "instant_add now (5 * 10 ^ 9)") (auto simp: leave_loop_def)

lemma prepare_cases:
  obtains (unnumbered) "cf_qos (px_config x) = AtMostOnce" "prepare x now s = s\<lparr>pb_phase := Prepared None now\<rparr>"
  | (numbered) "cf_qos (px_config x) \<noteq> AtMostOnce"
      "prepare x now s = s\<lparr>pb_next_packet_id := bump (pb_next_packet_id s),
         pb_phase := Prepared (Some (bump (pb_next_packet_id s))) now\<rparr>"
  by (cases "cf_qos (px_config x) = AtMostOnce")
    (auto simp: prepare_def next_id_def bump_def Let_def)

lemma drain_step_cases:
  assumes "(case drain_pubrel P x i rest s of (None, u) \<Rightarrow> Some u | (Some e, u) \<Rightarrow> Some (u\<lparr>pb_phase := ph e\<rparr>)) = Some t"
  obtains (drained) st' where "t = s\<lparr>pb_channel := rest, pb_stream := st'\<rparr>"
      "sent_packets st' = sent_packets (pb_stream s) @ [Pubrel (pub_ack_new i (rc_success P))]"
      "inbox st' = inbox (pb_stream s)" "write_fault st' = write_fault (pb_stream s)"
  | (faulted) st' e where "t = s\<lparr>pb_channel := rest, pb_stream := st', pb_phase := ph e\<rparr>"
      "sent_packets st' = sent_packets (pb_stream s)" "\<exists>n. write_fault (pb_stream s) n \<noteq> None"
      "inbox st' = inbox (pb_stream s)" "write_fault st' = write_fault (pb_stream s)"
proof -
  obtain r u where d: "drain_pubrel P x i rest s = (r, u)" by (cases "drain_pubrel P x i rest s")
  from d obtain st' where st: "u = s\<lparr>pb_channel := rest, pb_stream := st'\<rparr>" "inbox st' = inbox (pb_stream s)"
    "write_fault st' = write_fault (pb_stream s)"
    "sent_packets st' = sent_packets (pb_stream s) @ (if r = None then [Pubrel (pub_ack_new i (rc_success P))] else [])"
    "r = None \<or> (\<exists>n. write_fault (pb_stream s) n \<noteq> None)"
    by (rule drain_pubrel_cases)
  show thesis
  proof (cases r)
    case None
    with st d assms show ?thesis by (intro drained [where st' = st']) auto
  next
    case (Some e)
    with st d assms show ?thesis by (intro faulted [where st' = st' and e = e]) auto
  qed
qed

lemma write_side_cases:
  assumes "write_side P x now s = Some t"
  obtains
    (drained) i rest st' where "pb_channel s = i # rest" "t = s\<lparr>pb_channel := rest, pb_stream := st'\<rparr>"
      "sent_packets st' = sent_packets (pb_stream s) @ [Pubrel (pub_ack_new i (rc_success P))]"
      "inbox st' = inbox (pb_stream s)" "write_fault st' = write_fault (pb_stream s)"
      "stage_of (pb_phase s) \<in> {Top, Leaving}"
  | (faulted) i rest st' ph where "pb_channel s = i # rest"
      "t = s\<lparr>pb_channel := rest, pb_stream := st', pb_phase := ph\<rparr>"
      "sent_packets st' = sent_packets (pb_stream s)" "\<exists>n. write_fault (pb_stream s) n \<noteq> None"
      "inbox st' = inbox (pb_stream s)" "write_fault st' = write_fault (pb_stream s)"
      "stage_of (pb_phase s) \<in> {Top, Leaving}" "stage_of ph = Leaving \<or> (\<exists>e. ph = Done_With (Inl e))"
  | (moved) ph b where "t = s\<lparr>pb_phase := ph, pb_window_closed := b\<rparr>" "stage_of ph \<in> {Waiting, Leaving}"
      "stage_of (pb_phase s) \<in> {Top, Waiting, Leaving}" "stage_of ph = Waiting \<longrightarrow> stage_of (pb_phase s) \<noteq> Leaving"
      "stage_of ph = Waiting \<longrightarrow> stage_of (pb_phase s) = Top \<longrightarrow> below_quota x s"
  | (prepared) pid p n where "t = s\<lparr>pb_permits := p, pb_next_packet_id := n, pb_phase := Prepared pid now\<rparr>"
      "stage_of (pb_phase s) \<in> {Top, Waiting}" "stage_of (pb_phase s) = Top \<longrightarrow> below_quota x s"
      "cf_qos (px_config x) = AtMostOnce \<and> pid = None \<and> p \<le> pb_permits s \<and> n = pb_next_packet_id s
       \<or> cf_qos (px_config x) \<noteq> AtMostOnce \<and> pid = Some n \<and> Suc p = pb_permits s \<and> n = bump (pb_next_packet_id s)"
  | (inserted) pid d where "pb_phase s = Prepared pid d" "t = s\<lparr>pb_phase := Writing pid d, pb_in_flight :=
        (case pid of Some i \<Rightarrow> AList.update i d (pb_in_flight s) | None \<Rightarrow> pb_in_flight s)\<rparr>"
  | (written) pid d where "pb_phase s = Writing pid d" "write_publish x pid d s = t"
  | (cleaned) pid e where "pb_phase s = Failing pid e" "t = clean_up pid e s"
  | (closing) st' r where "pb_phase s = Closing" "t = s\<lparr>pb_phase := Joining now, pb_stream := st'\<rparr>"
      "write_packet (Disconnect (rc_success P)) (px_version x) (pb_stream s) = (r, st')"
  | (joined) d where "pb_phase s = Joining d" "\<And>sm. pb_ack s \<noteq> Reading sm"
      "t = s\<lparr>pb_phase := Done_With (publisher_result P x (pb_window_closed s) (pb_sent s) (pb_ack s))\<rparr>"
proof -
  note drained' = drained and faulted' = faulted and w = assms [unfolded write_side_def]
  have drain: thesis
    if "pb_channel s = i # rest" "stage_of (pb_phase s) \<in> {Top, Leaving}"
      and "\<And>e. stage_of (ph e) = Leaving \<or> (\<exists>e'. ph e = Done_With (Inl e'))"
      and "(case drain_pubrel P x i rest s of (None, u) \<Rightarrow> Some u | (Some e, u) \<Rightarrow> Some (u\<lparr>pb_phase := ph e\<rparr>)) = Some t"
    for i rest ph
    using that(4)
  proof (cases rule: drain_step_cases)
    case (drained st')
    from that(1) drained that(2) show ?thesis by (rule drained')
  next
    case (faulted st' e)
    from that(1) faulted that(2) that(3) show ?thesis by (rule faulted')
  qed
  have move: thesis if "t = s\<lparr>pb_phase := ph\<rparr>" "stage_of ph \<in> {Waiting, Leaving}"
      "stage_of (pb_phase s) \<in> {Top, Waiting, Leaving}" "stage_of ph = Waiting \<longrightarrow> stage_of (pb_phase s) \<noteq> Leaving"
      "stage_of ph = Waiting \<longrightarrow> stage_of (pb_phase s) = Top \<longrightarrow> below_quota x s" for ph
    by (rule moved [where ph = ph and b = "pb_window_closed s"]) (use that in auto)
  have leave: thesis if "t = leave_loop now s" "stage_of (pb_phase s) \<in> {Top, Waiting, Leaving}"
    by (rule leave_loop_moved [of now s]) (rule move, use that in auto)
  have go: thesis if "t = proceed x now s" "stage_of (pb_phase s) \<in> {Top, Waiting}"
      "stage_of (pb_phase s) = Top \<longrightarrow> below_quota x s"
  proof (cases "cf_qos (px_config x) = AtMostOnce")
    case True
    then have "t = s\<lparr>pb_permits := pb_permits s, pb_next_packet_id := pb_next_packet_id s, pb_phase := Prepared None now\<rparr>"
      using that(1) by (simp add: proceed_def prepare_def)
    then show ?thesis by (rule prepared) (use that True in auto)
  next
    case False
    then show ?thesis using that by (intro move [of Acquiring]) (auto simp: proceed_def)
  qed
  show thesis
  proof (cases "pb_phase s")
    case Draining
    show ?thesis
    proof (cases "pb_channel s")
      case Nil
      then have "t = top_checks x now s" using w Draining by simp
      then show ?thesis using Draining leave go move
        by (auto simp: top_checks_def below_quota_def not_le split: if_splits option.splits)
    next
      case (Cons i rest)
      then show ?thesis using w Draining by (intro drain [of i rest "\<lambda>e. Done_With (Inl (from_mqtt e))"]) auto
    qed
  next
    case (Pacing d)
    then show ?thesis using w go by (auto split: if_splits)
  next
    case Acquiring
    show ?thesis
    proof (cases "pb_closed s")
      case True
      then have "t = leave_loop now (s\<lparr>pb_window_closed := True\<rparr>)" using w Acquiring by simp
      then show ?thesis using Acquiring by (intro moved [where ph = Closing and b = True]) (auto simp: leave_loop_def)
    next
      case False
      then have t: "t = prepare x now (s\<lparr>pb_permits := pb_permits s - 1\<rparr>)" "0 < pb_permits s"
        using w Acquiring by (auto split: if_splits)
      from prepare_cases [of x now "s\<lparr>pb_permits := pb_permits s - 1\<rparr>"] show ?thesis
        by cases (rule prepared [where p = "pb_permits s - 1"], use t Acquiring in auto)+
    qed
  next
    case (Tail_Drain d)
    then show ?thesis using w move drain [of _ _ "\<lambda>e. Tail_Sleep d (now + 10 ^ 7)"] by (auto split: list.splits)
  next
    case Last_Drain
    then show ?thesis using w move drain [of _ _ "\<lambda>e. Closing"] by (auto split: list.splits)
  next
    case (Joining d)
    then show ?thesis using w by (auto split: ack_task.splits intro: joined)
  next
    case Closing
    then show ?thesis using w by (intro closing [OF Closing _ prod.collapse [symmetric]]) simp
  qed (use w move inserted written cleaned in \<open>auto split: if_splits\<close>)
qed


text \<open>A step of the read side, seen from outside.\<close>

lemma read_side_cases:
  assumes "read_side P x now s = Some t"
  obtains (acked) sm p st' i code where "pb_ack s = Reading sm" "sent_packets st' = sent_packets (pb_stream s)"
      "write_fault st' = write_fault (pb_stream s)" "next_event (inbox (pb_stream s)) = (Return (Got p), inbox st')"
      "\<And>a. p = Pubrec a \<Longrightarrow> rc_is_error P (ack_reason_code a)"
      "t = complete_ack P x now i code sm (s\<lparr>pb_stream := st'\<rparr>)"
  | (received) sm a st' where "pb_ack s = Reading sm" "sent_packets st' = sent_packets (pb_stream s)"
      "write_fault st' = write_fault (pb_stream s)"
      "next_event (inbox (pb_stream s)) = (Return (Got (Pubrec a)), inbox st')" "\<not> rc_is_error P (ack_reason_code a)"
      "t = s\<lparr>pb_stream := st', pb_channel := pb_channel s @ [ack_packet_id a]\<rparr>"
  | (ignored) sm p st' where "pb_ack s = Reading sm" "sent_packets st' = sent_packets (pb_stream s)"
      "write_fault st' = write_fault (pb_stream s)" "next_event (inbox (pb_stream s)) = (Return (Got p), inbox st')"
      "\<And>a. p \<noteq> Pubrec a" "t = s\<lparr>pb_stream := st'\<rparr>"
  | (ended) sm st' e r where "pb_ack s = Reading sm" "sent_packets st' = sent_packets (pb_stream s)"
      "write_fault st' = write_fault (pb_stream s)" "next_event (inbox (pb_stream s)) = (r, inbox st')"
      "\<And>p. r \<noteq> Return (Got p)" "t = s\<lparr>pb_stream := st', pb_closed := True, pb_ack := Ended sm e\<rparr>"
proof -
  obtain sm where sm: "pb_ack s = Reading sm" using assms by (auto simp: read_side_def split: ack_task.splits)
  obtain r st' where r: "read_packet (px_max_packet_size x) (px_version x) (pb_stream s) = (r, st')"
    by (cases "read_packet (px_max_packet_size x) (px_version x) (pb_stream s)")
  note frame = read_packet_frame [OF r, THEN conjunct1] read_packet_frame [OF r, THEN conjunct2, THEN conjunct1]
    read_packet_frame [OF r, THEN conjunct2, THEN conjunct2]
  note step = assms [unfolded read_side_def, simplified sm r]
  show ?thesis
  proof (cases "\<exists>p. r = Return (Got p)")
    case True
    then obtain p where p: "r = Return (Got p)" by blast
    then have t: "t = ack_packet P x now p sm (s\<lparr>pb_stream := st'\<rparr>)" using step by simp
    show ?thesis
    proof (cases p)
      case (Pubrec a)
      then show ?thesis using t frame p
        by (cases "rc_is_error P (ack_reason_code a)") (auto simp: ack_packet_def intro: acked [OF sm] received [OF sm])
    qed (use t frame p in \<open>auto simp: ack_packet_def intro: acked [OF sm] ignored [OF sm]\<close>)
  next
    case False
    then show ?thesis using step frame
      by (cases r) (auto split: read_outcome.splits intro: ended [OF sm])
  qed
qed

lemma stop_arm_moved:
  assumes "stop_arm now s = Some t"
  obtains ph where "t = s\<lparr>pb_phase := ph\<rparr>" "stage_of ph = Leaving" "stage_of (pb_phase s) = Waiting"
  using assms leave_loop_moved [of now s] by (auto simp: stop_arm_def split: if_splits write_phase.splits)

lemma join_timeout_done:
  assumes "join_timeout P x now s = Some t"
  obtains d sm e where "pb_phase s = Joining d" "pb_ack s = Reading sm"
    "t = s\<lparr>pb_ack := Crashed ''cancelled'', pb_phase := Done_With (Inl e)\<rparr>"
  using assms by (auto simp: join_timeout_def publisher_result_def Let_def split: write_phase.splits ack_task.splits if_splits)

text \<open>The five kinds of step, for an invariant.\<close>

lemma publisher_step_inv:
  fixes I :: "publisher \<Rightarrow> bool"
  assumes "publisher_step P x s l t" "I s"
    and "I (s\<lparr>pb_stop := True\<rparr>)"
    and "\<And>now. read_side P x now s = Some t \<Longrightarrow> I t"
    and "\<And>now. write_side P x now s = Some t \<Longrightarrow> I t"
    and "\<And>ph. stage_of ph = Leaving \<Longrightarrow> stage_of (pb_phase s) = Waiting \<Longrightarrow> I (s\<lparr>pb_phase := ph\<rparr>)"
    and "\<And>d sm e. pb_phase s = Joining d \<Longrightarrow> pb_ack s = Reading sm \<Longrightarrow>
        I (s\<lparr>pb_ack := Crashed ''cancelled'', pb_phase := Done_With (Inl e)\<rparr>)"
  shows "I t"
  using assms(1)
proof cases
  case (stop_turn now)
  from stop_turn(2) show ?thesis by (rule stop_arm_moved) (simp add: assms(6))
next
  case (give_up now)
  from give_up(2) show ?thesis by (rule join_timeout_done) (simp add: assms(7))
qed (use assms(3-5) in simp_all)

end
