(* ===== verification/Publisher_Invariants.thy ===== *)
theory Publisher_Invariants
  imports Bench_Publisher
begin

text \<open>
  What holds in every state a publisher (\<^verbatim>\<open>src/bench/publisher.rs\<close>) can reach, whatever the broker sends
  and however its two tasks interleave: the bounds of the window, the packets written, the PUBRELs
  owed, the accounting of acknowledgements; and that a stop request always gets through.
\<close>

text \<open>A connection that has just been made.\<close>

definition publisher_init :: "publisher_setup \<Rightarrow> stream \<Rightarrow> publisher \<Rightarrow> bool" where
  "publisher_init x st s \<longleftrightarrow> s = publisher_initial st (px_window x) \<and> (\<exists>con. sent_packets st = [Connect con])
     \<and> 1 \<le> px_window x \<and> px_window x \<le> 65535"

section \<open>The window\<close>

fun finished :: "write_phase \<Rightarrow> bool" where
  "finished (Done_With r) = True"
| "finished ph = False"

text \<open>A permit that is held and not yet accounted for by an entry of the map.\<close>

definition held :: "write_phase \<Rightarrow> nat" where
  "held ph = (case ph of Prepared (Some _) _ \<Rightarrow> 1 | _ \<Rightarrow> 0)"

lemma held_simps [simp]:
  "held (Prepared (Some i) d) = 1" "held (Prepared None d) = 0" "stage_of ph \<noteq> Sending \<Longrightarrow> held ph = 0"
  "held (Writing j d) = 0" "held (Failing j e) = 0" "held ph \<le> 1"
  by (cases ph; simp add: held_def split: option.splits)+

fun prepared_nonzero :: "write_phase \<Rightarrow> bool" where
  "prepared_nonzero (Prepared (Some i) d) = (i \<noteq> 0)"
| "prepared_nonzero ph = True"

lemma prepared_nonzero_stage [simp]: "stage_of ph \<noteq> Sending \<Longrightarrow> prepared_nonzero ph"
  by (cases ph) auto

definition window_inv :: "publisher_setup \<Rightarrow> publisher \<Rightarrow> bool" where
  "window_inv x s \<longleftrightarrow> distinct (map fst (pb_in_flight s)) \<and> length (pb_in_flight s) \<le> px_window x
     \<and> (\<not> finished (pb_phase s) \<longrightarrow> pb_permits s + length (pb_in_flight s) + held (pb_phase s) \<le> px_window x)
     \<and> map_of (pb_in_flight s) 0 = None \<and> prepared_nonzero (pb_phase s)"

lemma finished_stage [simp]: "stage_of ph \<noteq> Over \<Longrightarrow> \<not> finished ph"
  by (cases ph) auto

lemma window_inv_ack:
  assumes "window_inv x s" "complete_ack P x now i code sm s = t"
  shows "window_inv x t"
  using assms(2)
  by (cases rule: complete_ack_cases)
    (use assms(1) in_flight_delete [of "pb_in_flight s" i] in \<open>auto simp: window_inv_def distinct_delete delete_conv simp del: map_of_eq_None_iff\<close>)

lemma window_inv_write:
  assumes inv: "window_inv x s" and w: "write_side P x now s = Some t"
  shows "window_inv x t"
  using w
proof (cases rule: write_side_cases)
  case (inserted pid d)
  then show ?thesis using inv in_flight_update [of "the pid" d "pb_in_flight s"]
    by (auto simp: window_inv_def distinct_update update_conv simp del: map_of_eq_None_iff split: option.splits)
next
  case (written pid d)
  from written(2) show ?thesis
    by (cases rule: write_publish_cases) (use inv written(1) in \<open>auto simp: window_inv_def\<close>)
next
  case (cleaned pid e)
  then show ?thesis using inv length_delete_le [of "the pid" "pb_in_flight s"]
    by (auto simp: clean_up_def window_inv_def distinct_delete delete_conv Let_def simp del: map_of_eq_None_iff split: option.splits)
qed (use inv in \<open>auto simp: window_inv_def\<close>)

lemma window_inv_stream: "window_inv x s \<Longrightarrow> window_inv x (s\<lparr>pb_stream := st\<rparr>)"
  by (simp add: window_inv_def)

lemma window_inv_read: "read_side P x now s = Some t \<Longrightarrow> window_inv x s \<Longrightarrow> window_inv x t"
  by (cases rule: read_side_cases) (auto simp: window_inv_ack [OF window_inv_stream], auto simp: window_inv_def)

interpretation publisher_window: inductive_invariant "publisher_init x st" "publisher_step P x" "window_inv x" for P x st
proof unfold_locales
  fix s l t
  assume inv: "window_inv x s" and step: "publisher_step P x s l t"
  from step inv show "window_inv x t"
    by (rule publisher_step_inv)
      (use window_inv_read [OF _ inv] window_inv_write [OF inv] in blast | use inv in \<open>simp add: window_inv_def\<close>)+
qed (auto simp: publisher_init_def publisher_initial_def window_inv_def)

section \<open>The packets written\<close>

definition publishes :: "publisher \<Rightarrow> publish_packet list" where
  "publishes s = List.map_filter (\<lambda>p. case p of Publish m \<Rightarrow> Some m | _ \<Rightarrow> None) (sent_packets (pb_stream s))"

definition pubrels :: "publisher \<Rightarrow> u16 list" where
  "pubrels s = List.map_filter (\<lambda>p. case p of Pubrel a \<Rightarrow> Some (ack_packet_id a) | _ \<Rightarrow> None) (sent_packets (pb_stream s))"

lemma written_simps:
  "sent_packets (pb_stream t) = sent_packets (pb_stream s) \<Longrightarrow> publishes t = publishes s \<and> pubrels t = pubrels s"
  "sent_packets (pb_stream t) = sent_packets (pb_stream s) @ [Publish m] \<Longrightarrow>
     publishes t = publishes s @ [m] \<and> pubrels t = pubrels s"
  "sent_packets (pb_stream t) = sent_packets (pb_stream s) @ [Pubrel a] \<Longrightarrow>
     publishes t = publishes s \<and> pubrels t = pubrels s @ [ack_packet_id a]"
  "sent_packets (pb_stream t) = sent_packets (pb_stream s) @ [Disconnect c] \<Longrightarrow>
     publishes t = publishes s \<and> pubrels t = pubrels s"
  by (simp_all add: publishes_def pubrels_def List.map_filter_def)

text \<open>The identifier of message \<open>k\<close>: 1, 2, ..., 65535, 1, ...\<close>

definition nth_id :: "nat \<Rightarrow> u16" where
  "nth_id k = of_nat (k mod 65535 + 1)"

definition message_id :: "publisher_setup \<Rightarrow> nat \<Rightarrow> u16 option" where
  "message_id x k = (if cf_qos (px_config x) = AtMostOnce then None else Some (nth_id k))"

text \<open>The value of the identifier counter once \<open>n\<close> messages have been numbered.\<close>

definition counter_at :: "nat \<Rightarrow> u16" where
  "counter_at n = (case n of 0 \<Rightarrow> 0 | Suc k \<Rightarrow> nth_id k)"

lemma unat_nth_id: "unat (nth_id k) = k mod 65535 + 1"
proof -
  have "k mod 65535 + 1 < 2 ^ 16" using mod_less_divisor [of 65535 k] by simp
  then show ?thesis unfolding nth_id_def by (subst unat_of_nat) simp
qed

lemma bump_counter: "bump (counter_at n) = nth_id n"
proof -
  have "unat (bump (counter_at n)) = unat (nth_id n)"
    by (cases n) (simp_all add: unat_bump unat_nth_id counter_at_def mod_Suc_eq)
  then show ?thesis by (simp add: word_unat_eq_iff)
qed

fun sending_id :: "write_phase \<Rightarrow> u16 option option" where
  "sending_id (Prepared i d) = Some i"
| "sending_id (Writing i d) = Some i"
| "sending_id (Failing i e) = Some i"
| "sending_id ph = None"

lemma sending_id_stage [simp]: "stage_of ph \<noteq> Sending \<Longrightarrow> sending_id ph = None"
  by (cases ph) auto

text \<open>
  The messages written so far are those numbered 0, 1, ... in order; the one being sent, if any, has
  the next number; the quota is not exceeded.
\<close>

definition numbering :: "publisher_setup \<Rightarrow> publisher \<Rightarrow> bool" where
  "numbering x s \<longleftrightarrow> (case sending_id (pb_phase s) of
      None \<Rightarrow> stage_of (pb_phase s) \<noteq> Over \<longrightarrow> cf_qos (px_config x) \<noteq> AtMostOnce \<longrightarrow>
        pb_next_packet_id s = counter_at (length (publishes s))
    | Some pid \<Rightarrow> pid = message_id x (length (publishes s))
        \<and> (cf_qos (px_config x) \<noteq> AtMostOnce \<longrightarrow> pb_next_packet_id s = counter_at (Suc (length (publishes s)))))"

definition quota_kept :: "publisher_setup \<Rightarrow> publisher \<Rightarrow> bool" where
  "quota_kept x s \<longleftrightarrow> (\<forall>q. quota_for (px_config x) (unat (px_index x)) = Some q \<longrightarrow>
      length (publishes s) \<le> unat q
      \<and> (stage_of (pb_phase s) \<in> {Waiting, Sending} \<longrightarrow> length (publishes s) < unat q))"

definition log_inv :: "publisher_setup \<Rightarrow> publisher \<Rightarrow> bool" where
  "log_inv x s \<longleftrightarrow> pb_sent s = of_nat (length (publishes s)) \<and> ct_published (pb_counters s) = pb_sent s
     \<and> (\<forall>k < length (publishes s). \<exists>now. publishes s ! k = publisher_message x (of_nat k) (message_id x k) now)
     \<and> numbering x s \<and> quota_kept x s"

lemma below_quota_length:
  assumes "log_inv x s" "below_quota x s" "quota_for (px_config x) (unat (px_index x)) = Some q"
  shows "length (publishes s) < unat q"
proof -
  have le: "length (publishes s) \<le> unat q" and sent: "pb_sent s = of_nat (length (publishes s))"
    using assms(1,3) by (auto simp: log_inv_def quota_kept_def)
  have "unat q < 2 ^ 64" using unsigned_less [where w = q and 'a = nat] by simp
  then have "length (publishes s) < 2 ^ 64" using le by simp
  then have "unat (pb_sent s) = length (publishes s)" unfolding sent by (subst unat_of_nat) simp
  then show ?thesis using assms(2,3) by (simp add: below_quota_def word_less_nat_alt)
qed

lemma log_inv_frame:
  assumes "log_inv x s" "publishes t = publishes s" "pb_sent t = pb_sent s" "pb_next_packet_id t = pb_next_packet_id s"
    and "ct_published (pb_counters t) = ct_published (pb_counters s)"
    and "sending_id (pb_phase t) = None" "sending_id (pb_phase s) = None" "stage_of (pb_phase t) \<noteq> Sending"
    and "stage_of (pb_phase t) \<noteq> Over \<longrightarrow> stage_of (pb_phase s) \<noteq> Over"
    and "stage_of (pb_phase t) = Waiting \<longrightarrow> stage_of (pb_phase s) = Waiting \<or> below_quota x s"
  shows "log_inv x t"
  using assms below_quota_length [OF assms(1)]
  by (auto simp: log_inv_def numbering_def quota_kept_def)

lemma complete_ack_frame:
  "pb_stream (complete_ack P x now i code sm s) = pb_stream s"
  "pb_phase (complete_ack P x now i code sm s) = pb_phase s"
  "pb_sent (complete_ack P x now i code sm s) = pb_sent s"
  "pb_next_packet_id (complete_ack P x now i code sm s) = pb_next_packet_id s"
  "pb_channel (complete_ack P x now i code sm s) = pb_channel s"
  "pb_window_closed (complete_ack P x now i code sm s) = pb_window_closed s"
  "ct_published (pb_counters (complete_ack P x now i code sm s)) = ct_published (pb_counters s)"
  by (simp_all add: complete_ack_def record_refusal_def Let_def split: option.splits)

text \<open>What the read side leaves alone.\<close>

lemma read_side_frame:
  assumes "read_side P x now s = Some t"
  shows "sent_packets (pb_stream t) = sent_packets (pb_stream s)" "pb_phase t = pb_phase s" "pb_sent t = pb_sent s"
    "pb_next_packet_id t = pb_next_packet_id s" "ct_published (pb_counters t) = ct_published (pb_counters s)"
    "pb_window_closed t = pb_window_closed s"
  by (rule read_side_cases [OF assms]; simp add: complete_ack_frame)+

lemma log_inv_same:
  "log_inv x s \<Longrightarrow> sent_packets (pb_stream t) = sent_packets (pb_stream s) \<Longrightarrow> pb_phase t = pb_phase s \<Longrightarrow>
   pb_sent t = pb_sent s \<Longrightarrow> pb_next_packet_id t = pb_next_packet_id s \<Longrightarrow>
   ct_published (pb_counters t) = ct_published (pb_counters s) \<Longrightarrow> log_inv x t"
  using written_simps(1) [of t s] by (simp add: log_inv_def numbering_def quota_kept_def split: option.splits)

lemma log_inv_published:
  assumes inv: "log_inv x s" and ph: "pb_phase s = Writing pid d"
    and t: "pb_phase t = Draining" "pb_sent t = pb_sent s + 1" "pb_next_packet_id t = pb_next_packet_id s"
      "ct_published (pb_counters t) = ct_published (pb_counters s) + 1"
      "sent_packets (pb_stream t) = sent_packets (pb_stream s) @ [Publish (publisher_message x (pb_sent s) pid d)]"
  shows "log_inv x t"
proof -
  have p: "publishes t = publishes s @ [publisher_message x (pb_sent s) pid d]"
    using written_simps(2) [OF t(5)] by simp
  have "pid = message_id x (length (publishes s))" "pb_sent s = of_nat (length (publishes s))"
    using inv ph by (auto simp: log_inv_def numbering_def)
  then have "\<forall>k < length (publishes t). \<exists>now. publishes t ! k = publisher_message x (of_nat k) (message_id x k) now"
    using inv by (auto simp: p nth_append less_Suc_eq log_inv_def)
  then show ?thesis using inv ph t p by (auto simp: log_inv_def numbering_def quota_kept_def add.commute Suc_le_eq)
qed

lemma log_inv_write:
  assumes inv: "log_inv x s" and w: "write_side P x now s = Some t"
  shows "log_inv x t"
  using w
proof (cases rule: write_side_cases)
  case (drained i rest st')
  then show ?thesis using written_simps(3) [of t s] by (intro log_inv_frame [OF inv]) auto
next
  case (faulted i rest st' ph)
  then show ?thesis using written_simps(1) [of t s] by (intro log_inv_frame [OF inv]) auto
next
  case (moved ph b)
  then show ?thesis using written_simps(1) [of t s] by (intro log_inv_frame [OF inv]) auto
next
  case (prepared pid p n)
  then have "publishes t = publishes s" using written_simps(1) [of t s] by simp
  then show ?thesis using prepared inv below_quota_length [OF inv] bump_counter [of "length (publishes s)"]
    by (auto simp: log_inv_def numbering_def quota_kept_def message_id_def counter_at_def)
next
  case (inserted pid d)
  then have "publishes t = publishes s" using written_simps(1) [of t s] by simp
  then show ?thesis using inserted inv by (auto simp: log_inv_def numbering_def quota_kept_def)
next
  case (written pid d)
  from written(2) show ?thesis
  proof (cases rule: write_publish_cases)
    case (ok st')
    then show ?thesis by (intro log_inv_published [OF inv written(1)]) auto
  next
    case (fault e st')
    then have "publishes t = publishes s" using written_simps(1) [of t s] by simp
    then show ?thesis using fault written(1) inv by (auto simp: log_inv_def numbering_def quota_kept_def)
  qed
next
  case (cleaned pid e)
  then have "publishes t = publishes s" using written_simps(1) [of t s]
    by (auto simp: clean_up_def Let_def split: option.splits)
  then show ?thesis using cleaned inv
    by (auto simp: log_inv_def numbering_def quota_kept_def clean_up_def Let_def split: option.splits)
next
  case (closing st' r)
  have "publishes t = publishes s"
    by (rule write_packet_cases [of "Disconnect (rc_success P)" "px_version x" "pb_stream s"])
      (use closing written_simps(1,4) [of t s] in auto)
  then show ?thesis using closing by (intro log_inv_frame [OF inv]) auto
next
  case (joined d)
  then show ?thesis using written_simps(1) [of t s] by (intro log_inv_frame [OF inv]) auto
qed

interpretation publisher_log: inductive_invariant "publisher_init x st" "publisher_step P x" "log_inv x" for P x st
proof unfold_locales
  fix s
  assume "publisher_init x st s"
  then show "log_inv x s"
    by (auto simp: publisher_init_def publisher_initial_def log_inv_def numbering_def quota_kept_def publishes_def
        counters_zero_def counter_at_def List.map_filter_def)
next
  fix s l t
  assume inv: "log_inv x s" and step: "publisher_step P x s l t"
  have leave: "log_inv x (s\<lparr>pb_phase := ph\<rparr>)" if "stage_of ph = Leaving" "stage_of (pb_phase s) = Waiting" for ph
    using that by (intro log_inv_frame [OF inv]) (auto simp: publishes_def)
  have fin: "log_inv x (s\<lparr>pb_ack := a, pb_phase := Done_With r\<rparr>)" if "pb_phase s = Joining d" for a r d
    using that by (intro log_inv_frame [OF inv]) (auto simp: publishes_def)
  from step inv show "log_inv x t"
  proof (rule publisher_step_inv)
    fix now
    show "read_side P x now s = Some t \<Longrightarrow> log_inv x t"
      by (rule log_inv_same [OF inv]) (erule read_side_frame)+
    show "write_side P x now s = Some t \<Longrightarrow> log_inv x t" by (rule log_inv_write [OF inv])
  qed (use leave fin log_inv_same [OF inv] in auto)
qed

section \<open>The shape of the conversation and the PUBRELs owed\<close>

definition body_packet :: "protocol_crate \<Rightarrow> packet \<Rightarrow> bool" where
  "body_packet P p \<longleftrightarrow> (\<exists>m. p = Publish m) \<or> (\<exists>i. p = Pubrel (pub_ack_new i (rc_success P)))"

definition shape_inv :: "protocol_crate \<Rightarrow> publisher \<Rightarrow> bool" where
  "shape_inv P s \<longleftrightarrow> (\<exists>con body tail. sent_packets (pb_stream s) = Connect con # body @ tail
     \<and> (\<forall>p \<in> set body. body_packet P p)
     \<and> (tail = [] \<or> stage_of (pb_phase s) = Over \<and> tail = [Disconnect (rc_success P)]))"

lemma shape_inv_keep:
  "shape_inv P s \<Longrightarrow> sent_packets (pb_stream t) = sent_packets (pb_stream s) \<Longrightarrow>
   stage_of (pb_phase s) = Over \<longrightarrow> stage_of (pb_phase t) = Over \<Longrightarrow> shape_inv P t"
  by (auto simp: shape_inv_def)

lemma shape_inv_add:
  assumes "shape_inv P s" "stage_of (pb_phase s) \<noteq> Over" "sent_packets (pb_stream t) = sent_packets (pb_stream s) @ [p]"
    "body_packet P p \<or> stage_of (pb_phase t) = Over \<and> p = Disconnect (rc_success P)"
  shows "shape_inv P t"
proof -
  obtain con body where "sent_packets (pb_stream s) = Connect con # body" "\<forall>p \<in> set body. body_packet P p"
    using assms(1,2) by (auto simp: shape_inv_def)
  then show ?thesis unfolding shape_inv_def assms(3) using assms(4)
    by (cases "body_packet P p") (rule exI [of _ con], rule exI [of _ "body @ [p]"], simp, auto)
qed

lemma shape_inv_write:
  assumes inv: "shape_inv P s" and w: "write_side P x now s = Some t"
  shows "shape_inv P t"
  using w
proof (cases rule: write_side_cases)
  case (drained i rest st')
  then show ?thesis by (intro shape_inv_add [OF inv]) (auto simp: body_packet_def)
next
  case (written pid d)
  from written(2) show ?thesis
    by (cases rule: write_publish_cases)
      (use written(1) shape_inv_add [OF inv, of t] shape_inv_keep [OF inv, of t] in \<open>auto simp: body_packet_def\<close>)
next
  case (cleaned pid e)
  then show ?thesis
    by (intro shape_inv_keep [OF inv]) (auto simp: clean_up_def Let_def split: option.splits)
next
  case (closing st' r)
  show ?thesis
    by (rule write_packet_cases [of "Disconnect (rc_success P)" "px_version x" "pb_stream s"])
      (use closing shape_inv_add [OF inv, of t] shape_inv_keep [OF inv, of t] in auto)
qed (use shape_inv_keep [OF inv, of t] in auto)

interpretation publisher_shape: inductive_invariant "publisher_init x st" "publisher_step P x" "shape_inv P" for P x st
proof unfold_locales
  fix s
  assume "publisher_init x st s"
  then show "shape_inv P s" by (auto simp: publisher_init_def publisher_initial_def shape_inv_def)
next
  fix s l t
  assume inv: "shape_inv P s" and step: "publisher_step P x s l t"
  from step inv show "shape_inv P t"
  proof (rule publisher_step_inv)
    fix now
    assume "read_side P x now s = Some t"
    then show "shape_inv P t" by (intro shape_inv_keep [OF inv]) (simp_all add: read_side_frame)
  next
    fix now
    show "write_side P x now s = Some t \<Longrightarrow> shape_inv P t" by (rule shape_inv_write [OF inv])
  qed (use shape_inv_keep [OF inv] in auto)
qed

text \<open>The identifiers of the PUBRECs among some events that accept their message, in order.\<close>

definition accepted :: "protocol_crate \<Rightarrow> net_event list \<Rightarrow> u16 list" where
  "accepted P es = List.map_filter (\<lambda>e. case e of
      Arrives (Pubrec a) \<Rightarrow> if rc_is_error P (ack_reason_code a) then None else Some (ack_packet_id a)
    | _ \<Rightarrow> None) es"

lemma accepted_append [simp]: "accepted P (es @ fs) = accepted P es @ accepted P fs"
  by (simp add: accepted_def List.map_filter_def)

lemma accepted_next:
  "next_event es = (r, fs) \<Longrightarrow> \<exists>pre. es = pre @ fs \<and> accepted P pre = (case r of
      Return (Got (Pubrec a)) \<Rightarrow> if rc_is_error P (ack_reason_code a) then [] else [ack_packet_id a] | _ \<Rightarrow> [])"
proof (induction es rule: next_event.induct)
  case (2 p es)
  then show ?case by (intro exI [of _ "[Arrives p]"]) (auto simp: accepted_def List.map_filter_def split: packet.splits)
next
  case (3 es)
  then obtain pre where "es = pre @ fs" "accepted P pre = (case r of
      Return (Got (Pubrec a)) \<Rightarrow> if rc_is_error P (ack_reason_code a) then [] else [ack_packet_id a] | _ \<Rightarrow> [])"
    by auto
  then show ?case by (intro exI [of _ "Quiet # pre"]) (simp add: accepted_def List.map_filter_def)
next
  case (5 e es)
  then show ?case by (intro exI [of _ "[Broken e]"]) (auto simp: accepted_def List.map_filter_def)
qed (auto simp: accepted_def List.map_filter_def)

text \<open>Every accepting PUBREC read has its PUBREL written or still waiting in the channel, in order.\<close>

definition pubrel_inv :: "protocol_crate \<Rightarrow> stream \<Rightarrow> publisher \<Rightarrow> bool" where
  "pubrel_inv P st s \<longleftrightarrow> write_fault (pb_stream s) = write_fault st \<and>
     (\<exists>pre. inbox st = pre @ inbox (pb_stream s)
        \<and> ((\<forall>n. write_fault st n = None) \<longrightarrow> pubrels s @ pb_channel s = accepted P pre))"

lemma pubrel_inv_keep:
  assumes "pubrel_inv P st s" "inbox (pb_stream t) = inbox (pb_stream s)"
    "write_fault (pb_stream t) = write_fault (pb_stream s)"
    "(\<forall>n. write_fault st n = None) \<Longrightarrow> pubrels t @ pb_channel t = pubrels s @ pb_channel s"
  shows "pubrel_inv P st t"
  using assms unfolding pubrel_inv_def by auto

lemma pubrel_inv_read:
  assumes inv: "pubrel_inv P st s" and r: "read_side P x now s = Some t"
  shows "pubrel_inv P st t"
proof -
  have "\<exists>pre. inbox (pb_stream s) = pre @ inbox (pb_stream t) \<and> pubrels t @ pb_channel t = (pubrels s @ pb_channel s) @ accepted P pre
      \<and> write_fault (pb_stream t) = write_fault (pb_stream s)"
    using r
  proof (cases rule: read_side_cases)
    case (acked sm p st' i code)
    then show ?thesis using accepted_next [OF acked(4), of P] written_simps(1) [of t s]
      by (auto simp: complete_ack_frame split: packet.splits)
  next
    case (received sm a st')
    then show ?thesis using accepted_next [OF received(4), of P] written_simps(1) [of t s] by auto
  next
    case (ignored sm p st')
    then show ?thesis using accepted_next [OF ignored(4), of P] written_simps(1) [of t s] by (auto split: packet.splits)
  next
    case (ended sm st' e r)
    then show ?thesis using accepted_next [OF ended(4), of P] written_simps(1) [of t s]
      by (auto split: outcome.splits read_outcome.splits)
  qed
  then show ?thesis using inv unfolding pubrel_inv_def by fastforce
qed

lemma pubrel_inv_write:
  assumes inv: "pubrel_inv P st s" and w: "write_side P x now s = Some t"
  shows "pubrel_inv P st t"
  using w
proof (cases rule: write_side_cases)
  case (drained i rest st')
  then show ?thesis using written_simps(3) [of t s] by (intro pubrel_inv_keep [OF inv]) auto
next
  case (faulted i rest st' ph)
  then have "\<not> (\<forall>n. write_fault st n = None)" using inv by (auto simp: pubrel_inv_def)
  then show ?thesis using faulted by (intro pubrel_inv_keep [OF inv]) auto
next
  case (written pid d)
  from written(2) show ?thesis
    by (cases rule: write_publish_cases)
      (use written_simps(1,2) [of t s] pubrel_inv_keep [OF inv, of t] in auto)
next
  case (cleaned pid e)
  then show ?thesis using written_simps(1) [of t s]
    by (intro pubrel_inv_keep [OF inv]) (auto simp: clean_up_def Let_def split: option.splits)
next
  case (closing st' r)
  show ?thesis
    by (rule write_packet_cases [of "Disconnect (rc_success P)" "px_version x" "pb_stream s"])
      (use closing written_simps(1,4) [of t s] pubrel_inv_keep [OF inv, of t] in auto)
qed (use written_simps(1) [of t s] pubrel_inv_keep [OF inv, of t] in auto)

interpretation publisher_pubrels: inductive_invariant "publisher_init x st" "publisher_step P x" "pubrel_inv P st" for P x st
proof unfold_locales
  fix s
  assume "publisher_init x st s"
  then show "pubrel_inv P st s"
    by (auto simp: publisher_init_def publisher_initial_def pubrel_inv_def pubrels_def accepted_def List.map_filter_def)
next
  fix s l t
  assume inv: "pubrel_inv P st s" and step: "publisher_step P x s l t"
  from step inv show "pubrel_inv P st t"
    by (rule publisher_step_inv)
      (use pubrel_inv_read [OF inv] pubrel_inv_write [OF inv] in blast | use inv in \<open>simp add: pubrel_inv_def pubrels_def\<close>)+
qed

section \<open>Acknowledgements and the result\<close>

fun sample_count :: "ack_task \<Rightarrow> nat" where
  "sample_count (Reading sm) = length (sm_values sm)"
| "sample_count (Ended sm e) = length (sm_values sm)"
| "sample_count (Crashed e) = 0"

text \<open>The message in the map that is not written yet, or whose write failed.\<close>

fun unwritten :: "write_phase \<Rightarrow> nat" where
  "unwritten (Writing (Some i) d) = 1"
| "unwritten (Failing (Some i) e) = 1"
| "unwritten (Done_With (Inl e)) = 1"
| "unwritten ph = 0"

lemma unwritten_stage [simp]: "stage_of ph \<notin> {Sending, Over} \<Longrightarrow> unwritten ph = 0" "unwritten ph \<le> 1"
  by (cases ph rule: unwritten.cases; simp)+

definition acks_inv :: "publisher_setup \<Rightarrow> publisher \<Rightarrow> bool" where
  "acks_inv x s \<longleftrightarrow> window_inv x s
     \<and> unat (ct_acknowledged (pb_counters s)) + length (pb_in_flight s) \<le> length (publishes s) + unwritten (pb_phase s)
     \<and> sample_count (pb_ack s) + length (pb_in_flight s) \<le> length (publishes s) + unwritten (pb_phase s)
     \<and> (\<forall>sm. pb_phase s = Done_With (Inr sm) \<longrightarrow> pb_ack s = Ended sm None \<and> \<not> pb_window_closed s)"

lemma unat_succ_le: "unat (w + 1 :: 'a :: len word) \<le> unat w + 1"
  by (metis Suc_eq_plus1 le_SucI add.commute add.right_neutral order_refl unatSuc unat_0 zero_le)

lemma acks_inv_keep:
  assumes "acks_inv x s" "window_inv x t" "publishes t = publishes s" "pb_in_flight t = pb_in_flight s"
    and "ct_acknowledged (pb_counters t) = ct_acknowledged (pb_counters s)" "sample_count (pb_ack t) \<le> sample_count (pb_ack s)"
    and "unwritten (pb_phase s) \<le> unwritten (pb_phase t)"
    and "\<And>sm. pb_phase t = Done_With (Inr sm) \<Longrightarrow> pb_ack t = Ended sm None \<and> \<not> pb_window_closed t"
  shows "acks_inv x t"
  using assms by (auto simp: acks_inv_def)

lemma acks_inv_read:
  assumes inv: "acks_inv x s" and r: "read_side P x now s = Some t"
  shows "acks_inv x t"
proof -
  have win: "window_inv x t" using inv window_inv_read [OF r] by (simp add: acks_inv_def)
  have pubs: "publishes t = publishes s" using written_simps(1) read_side_frame(1) [OF r] by blast
  have not_done: "pb_phase s \<noteq> Done_With (Inr sm)" if "pb_ack s = Reading sm'" for sm sm'
    using inv that by (auto simp: acks_inv_def)
  from r show ?thesis
  proof (cases rule: read_side_cases)
    case (acked sm p st' i code)
    from acked(6) [symmetric] show ?thesis
    proof (cases rule: complete_ack_cases)
      case (unknown c)
      then show ?thesis using win pubs acked(1) not_done by (intro acks_inv_keep [OF inv]) auto
    next
      case (refused c sent)
      then show ?thesis using win pubs inv acked(1) not_done in_flight_delete [of "pb_in_flight s" i sent]
        by (auto simp: acks_inv_def window_inv_def)
    next
      case (accepted c sent sm')
      then show ?thesis
        using win pubs inv acked(1) not_done in_flight_delete [of "pb_in_flight s" i sent]
          unat_succ_le [of "ct_acknowledged (pb_counters s)"]
        by (auto simp: acks_inv_def window_inv_def)
    qed
  qed (use win pubs not_done acks_inv_keep [OF inv, of t] in auto)
qed

lemma publisher_result_Inr:
  "publisher_result P x b n a = Inr sm \<longleftrightarrow> a = Ended sm None \<and> \<not> b"
  by (cases a) (auto simp: publisher_result_def Let_def split: option.splits)

lemma acks_inv_write:
  assumes inv: "acks_inv x s" and w: "write_side P x now s = Some t"
  shows "acks_inv x t"
proof -
  have win: "window_inv x t" using inv window_inv_write [OF _ w] by (simp add: acks_inv_def)
  from w show ?thesis
  proof (cases rule: write_side_cases)
    case (drained i rest st')
    then show ?thesis using win written_simps(3) [of t s] by (intro acks_inv_keep [OF inv]) auto
  next
    case (inserted pid d)
    then have "publishes t = publishes s" using written_simps(1) [of t s] by simp
    then show ?thesis using inserted win inv in_flight_update [of "the pid" d "pb_in_flight s"]
      by (auto simp: acks_inv_def split: option.splits)
  next
    case (written pid d)
    from written(2) show ?thesis
    proof (cases rule: write_publish_cases)
      case (ok st')
      then have "publishes t = publishes s @ [publisher_message x (pb_sent s) pid d]"
        using written_simps(2) [of t s] by simp
      then show ?thesis using ok written(1) win inv unwritten_stage(2) [of "pb_phase s"] by (auto simp: acks_inv_def)
    next
      case (fault e st')
      then show ?thesis using written(1) win written_simps(1) [of t s]
        by (intro acks_inv_keep [OF inv]) (cases pid; auto)+
    qed
  next
    case (cleaned pid e)
    then have "publishes t = publishes s" using written_simps(1) [of t s]
      by (auto simp: clean_up_def Let_def split: option.splits)
    then show ?thesis using cleaned win inv length_delete_le [of "the pid" "pb_in_flight s"]
      by (auto simp: acks_inv_def clean_up_def Let_def split: option.splits)
  next
    case (closing st' r)
    have "publishes t = publishes s"
      by (rule write_packet_cases [of "Disconnect (rc_success P)" "px_version x" "pb_stream s"])
        (use closing written_simps(1,4) [of t s] in auto)
    then show ?thesis using closing win by (intro acks_inv_keep [OF inv]) auto
  next
    case (joined d)
    then show ?thesis using win written_simps(1) [of t s]
      by (intro acks_inv_keep [OF inv]) (auto simp: publisher_result_Inr)
  qed (use win written_simps(1) [of t s] in \<open>auto intro!: acks_inv_keep [OF inv]\<close>)
qed

interpretation publisher_acks: inductive_invariant "publisher_init x st" "publisher_step P x" "acks_inv x" for P x st
proof unfold_locales
  fix s
  assume "publisher_init x st s"
  then show "acks_inv x s"
    using publisher_window.inv_init [of x st s]
    by (auto simp: publisher_init_def publisher_initial_def acks_inv_def counters_zero_def samples_new_def)
next
  fix s l t
  assume inv: "acks_inv x s" and step: "publisher_step P x s l t"
  then have win: "window_inv x t" using publisher_window.inv_step by (auto simp: acks_inv_def)
  have leave: "acks_inv x (s\<lparr>pb_phase := ph\<rparr>)" if "stage_of ph = Leaving" "stage_of (pb_phase s) = Waiting" for ph
  proof -
    have "window_inv x (s\<lparr>pb_phase := ph\<rparr>)" using inv that by (simp add: acks_inv_def window_inv_def)
    then show ?thesis using that by (intro acks_inv_keep [OF inv]) (auto simp: publishes_def)
  qed
  have fin: "acks_inv x (s\<lparr>pb_ack := Crashed m, pb_phase := Done_With (Inl e)\<rparr>)" if "pb_phase s = Joining d" for m e d
  proof -
    have "window_inv x (s\<lparr>pb_ack := Crashed m, pb_phase := Done_With (Inl e)\<rparr>)"
      using inv that by (simp add: acks_inv_def window_inv_def)
    then show ?thesis using that by (intro acks_inv_keep [OF inv]) (auto simp: publishes_def)
  qed
  from step inv show "acks_inv x t"
  proof (rule publisher_step_inv)
    show "acks_inv x (s\<lparr>pb_stop := True\<rparr>)" using inv by (simp add: acks_inv_def window_inv_def publishes_def)
  qed (use leave fin acks_inv_read [OF inv] acks_inv_write [OF inv] in blast)+
qed

section \<open>Why the send loop ended\<close>

text \<open>The phases behind the send loop, on the way to a result that is not an error.\<close>

fun past_loop :: "write_phase \<Rightarrow> bool" where
  "past_loop (Tail_Check d) = True"
| "past_loop (Tail_Drain d) = True"
| "past_loop (Tail_Sleep d w) = True"
| "past_loop Last_Drain = True"
| "past_loop Closing = True"
| "past_loop (Joining d) = True"
| "past_loop (Done_With (Inr sm)) = True"
| "past_loop ph = False"

definition exit_inv :: "publisher_setup \<Rightarrow> publisher \<Rightarrow> bool" where
  "exit_inv x s \<longleftrightarrow> (past_loop (pb_phase s) \<longrightarrow> pb_stop s \<or> pb_window_closed s \<or> \<not> below_quota x s)"

lemma past_loop_stage [simp]: "stage_of ph \<in> {Top, Waiting, Sending} \<Longrightarrow> \<not> past_loop ph"
  by (cases ph) auto

lemma exit_inv_keep:
  assumes "exit_inv x s" "pb_sent t = pb_sent s" "pb_stop s \<longrightarrow> pb_stop t" "pb_window_closed s \<longrightarrow> pb_window_closed t"
    and "past_loop (pb_phase t) \<longrightarrow> past_loop (pb_phase s)"
  shows "exit_inv x t"
proof -
  have "below_quota x t = below_quota x s" using assms(2) by (simp add: below_quota_def split: option.splits)
  then show ?thesis using assms by (auto simp: exit_inv_def)
qed

lemma exit_inv_quiet: "\<not> past_loop (pb_phase t) \<Longrightarrow> exit_inv x t"
  by (simp add: exit_inv_def)

lemma exit_inv_read:
  assumes "exit_inv x s" "read_side P x now s = Some t"
  shows "exit_inv x t"
proof -
  have "pb_stop (complete_ack P x now i code sm s) = pb_stop s" for i code sm s
    by (simp add: complete_ack_def record_refusal_def Let_def split: option.splits)
  then have "pb_stop t = pb_stop s" by (rule_tac read_side_cases [OF assms(2)]) simp_all
  then show ?thesis using read_side_frame [OF assms(2)] by (intro exit_inv_keep [OF assms(1)]) simp_all
qed

lemma exit_inv_leave:
  assumes "pb_stop s \<or> pb_window_closed s \<or> \<not> below_quota x s"
  shows "exit_inv x (leave_loop now s)"
proof -
  obtain ph where l: "leave_loop now s = s\<lparr>pb_phase := ph\<rparr>" using leave_loop_moved [of now s] by metis
  then have "below_quota x (leave_loop now s) = below_quota x s" by (simp add: below_quota_def split: option.splits)
  then show ?thesis using assms l by (auto simp: exit_inv_def)
qed

lemma exit_inv_proceed: "exit_inv x (proceed x now s)" "exit_inv x (prepare x now s)"
  by (auto simp: proceed_def prepare_def split: prod.splits intro!: exit_inv_quiet)

lemma exit_inv_top: "exit_inv x (top_checks x now s)"
proof (cases "below_quota x s \<and> \<not> pb_stop s")
  case True
  then have "\<not> (case quota_for (px_config x) (unat (px_index x)) of Some q \<Rightarrow> q \<le> pb_sent s | None \<Rightarrow> False)"
    by (auto simp: below_quota_def split: option.splits)
  then show ?thesis using True
    by (auto simp: top_checks_def exit_inv_proceed intro!: exit_inv_quiet split: option.splits)
next
  case False
  then have "top_checks x now s = leave_loop now s"
    by (auto simp: top_checks_def below_quota_def not_less split: option.splits)
  then show ?thesis using False exit_inv_leave by metis
qed

lemma exit_inv_drain:
  assumes "exit_inv x s" "(case drain_pubrel P x i rest s of (None, u) \<Rightarrow> Some u | (Some e, u) \<Rightarrow> Some (u\<lparr>pb_phase := ph e\<rparr>)) = Some t"
    and "\<And>e. past_loop (ph e) \<Longrightarrow> past_loop (pb_phase s)"
  shows "exit_inv x t"
  using assms(2)
proof (cases rule: drain_step_cases)
  case (faulted st' e)
  then show ?thesis using assms(3) [of e] by (intro exit_inv_keep [OF assms(1)]) auto
qed (auto intro: exit_inv_keep [OF assms(1)])

lemma exit_inv_write:
  assumes inv: "exit_inv x s" and w: "write_side P x now s = Some t"
  shows "exit_inv x t"
proof (cases "pb_phase s")
  case Draining
  then show ?thesis
    using w exit_inv_top exit_inv_drain [OF inv, where t = t and P = P and ph = "\<lambda>e. Done_With (Inl (from_mqtt e))"]
    by (cases "pb_channel s") (auto simp: write_side_def)
next
  case Acquiring
  then show ?thesis using w exit_inv_proceed
    by (auto simp: write_side_def intro: exit_inv_leave split: if_splits)
next
  case (Writing pid d)
  have "exit_inv x (write_publish x pid d s)"
    by (rule write_publish_cases [OF refl, of x pid d s]) (simp_all add: exit_inv_quiet)
  then show ?thesis using Writing w by (simp add: write_side_def)
next
  case (Tail_Drain d)
  then show ?thesis
    using w exit_inv_drain [OF inv, where t = t and P = P and ph = "\<lambda>e. Tail_Sleep d (now + 10 ^ 7)"]
    by (cases "pb_channel s") (auto simp: write_side_def intro: exit_inv_keep [OF inv])
next
  case Last_Drain
  then show ?thesis
    using w exit_inv_drain [OF inv, where t = t and P = P and ph = "\<lambda>e. Closing"]
    by (cases "pb_channel s") (auto simp: write_side_def intro: exit_inv_keep [OF inv])
next
  case (Joining since)
  then show ?thesis using w
    by (auto simp: write_side_def intro: exit_inv_keep [OF inv] split: ack_task.splits)
next
  case (Failing pid e)
  then show ?thesis using w by (auto simp: write_side_def clean_up_def Let_def intro: exit_inv_quiet)
next
  case (Pacing d)
  then show ?thesis using w exit_inv_proceed by (auto simp: write_side_def split: if_splits)
qed (use w in \<open>auto simp: write_side_def intro: exit_inv_keep [OF inv] exit_inv_quiet split: if_splits\<close>)

interpretation publisher_exit: inductive_invariant "publisher_init x st" "publisher_step P x" "exit_inv x" for P x st
proof unfold_locales
  fix s
  assume "publisher_init x st s"
  then show "exit_inv x s" by (simp add: publisher_init_def publisher_initial_def exit_inv_def)
next
  fix s l t
  assume inv: "exit_inv x s" and step: "publisher_step P x s l t"
  from step show "exit_inv x t"
  proof cases
    case stop_signal
    then show ?thesis by (simp add: exit_inv_def)
  next
    case (stop_turn now)
    then have "t = leave_loop now s" "pb_stop s" by (auto simp: stop_arm_def split: if_splits write_phase.splits)
    then show ?thesis using exit_inv_leave by blast
  next
    case (give_up now)
    from give_up(2) show ?thesis by (rule join_timeout_done) (simp add: exit_inv_quiet)
  qed (use inv exit_inv_read exit_inv_write in blast)+
qed

text \<open>A publisher that succeeds without having been stopped has published its quota.\<close>

lemma unstopped_publishes_quota:
  assumes "log_inv x s" "acks_inv x s" "exit_inv x s" "pb_phase s = Done_With (Inr sm)" "\<not> pb_stop s"
    and "quota_for (px_config x) (unat (px_index x)) = Some q"
  shows "length (publishes s) = unat q"
proof -
  have le: "length (publishes s) \<le> unat q" and sent: "pb_sent s = of_nat (length (publishes s))"
    using assms(1,6) by (auto simp: log_inv_def quota_kept_def)
  have "\<not> pb_window_closed s" using assms(2,4) by (simp add: acks_inv_def)
  then have "q \<le> pb_sent s" using assms(3,4,5,6) by (auto simp: exit_inv_def below_quota_def)
  moreover have "unat (pb_sent s) \<le> length (publishes s)"
    unfolding sent by (simp add: unat_of_nat)
  ultimately show ?thesis using le by (auto simp: word_le_nat_alt)
qed

section \<open>A stop request gets through\<close>

text \<open>
  The steps in which only the write side moves, without any help from the broker, each at an instant.
  The instants of a run do not go back.
\<close>

fun own_move :: "publisher_label \<Rightarrow> bool" where
  "own_move (Write_Turn now) = True"
| "own_move (Stop_Turn now) = True"
| "own_move (Give_Up now) = True"
| "own_move l = False"

fun instant_of :: "publisher_label \<Rightarrow> nat" where
  "instant_of (Read_Turn now) = now"
| "instant_of (Write_Turn now) = now"
| "instant_of (Stop_Turn now) = now"
| "instant_of (Give_Up now) = now"
| "instant_of Stop_Signal = 0"

definition own_moves :: "nat \<Rightarrow> publisher_label list \<Rightarrow> bool" where
  "own_moves T ls \<longleftrightarrow> list_all own_move ls \<and> sorted (T # map instant_of ls)"

definition can_close :: "protocol_crate \<Rightarrow> publisher_setup \<Rightarrow> nat \<Rightarrow> publisher \<Rightarrow> bool" where
  "can_close P x T s \<longleftrightarrow> (\<exists>ls t. steps (publisher_step P x) s ls t \<and> own_moves T ls \<and> finished (pb_phase t))"

text \<open>The one panic on the way out is the addition of five seconds to the present instant.\<close>

definition can_finish :: "protocol_crate \<Rightarrow> publisher_setup \<Rightarrow> nat \<Rightarrow> publisher \<Rightarrow> bool" where
  "can_finish P x T s \<longleftrightarrow> (\<exists>ls t. steps (publisher_step P x) s ls t \<and> own_moves T ls
     \<and> (finished (pb_phase t) \<or> pb_phase t = Write_Panicked \<and> INSTANT_MAX < T + 5 * 10 ^ 9))"

lemma own_moves_simps: "own_moves T []"
    "own_moves T (l # ls) \<longleftrightarrow> own_move l \<and> T \<le> instant_of l \<and> own_moves (instant_of l) ls"
  by (auto simp: own_moves_def)

lemma can_close_done: "finished (pb_phase s) \<Longrightarrow> can_close P x T s"
  unfolding can_close_def by (rule exI [of _ "[]"]) (auto simp: own_moves_simps intro: steps.intros)

lemma can_close_Done: "pb_phase s = Done_With r \<Longrightarrow> can_close P x T s"
  by (rule can_close_done) simp

lemma can_close_step:
  assumes "publisher_step P x s l t" "own_move l" "T \<le> instant_of l" "can_close P x (instant_of l) t"
  shows "can_close P x T s"
proof -
  obtain ls u where "steps (publisher_step P x) t ls u" "own_moves (instant_of l) ls" "finished (pb_phase u)"
    using assms(4) by (auto simp: can_close_def)
  then show ?thesis unfolding can_close_def
    using assms(1-3) by (intro exI [of _ "l # ls"] exI [of _ u]) (auto simp: own_moves_simps intro: steps_cons)
qed

lemma can_finish_step:
  assumes "publisher_step P x s l t" "own_move l" "instant_of l = T" "can_finish P x T t"
  shows "can_finish P x T s"
proof -
  obtain ls u where "steps (publisher_step P x) t ls u" "own_moves T ls"
    "finished (pb_phase u) \<or> pb_phase u = Write_Panicked \<and> INSTANT_MAX < T + 5 * 10 ^ 9"
    using assms(4) by (auto simp: can_finish_def)
  then show ?thesis unfolding can_finish_def
    using assms(1-3) by (intro exI [of _ "l # ls"] exI [of _ u]) (auto simp: own_moves_simps intro: steps_cons)
qed

lemma can_finish_close: "can_close P x T s \<Longrightarrow> can_finish P x T s"
  by (auto simp: can_finish_def can_close_def)

lemma can_close_write:
  "write_side P x now s = Some t \<Longrightarrow> T \<le> now \<Longrightarrow> can_close P x now t \<Longrightarrow> can_close P x T s"
  using can_close_step [of P x s "Write_Turn now" t T] by (simp add: publisher_step_simps)

lemma can_finish_write: "write_side P x T s = Some t \<Longrightarrow> can_finish P x T t \<Longrightarrow> can_finish P x T s"
  using can_finish_step [of P x s "Write_Turn T" t T] by (simp add: publisher_step_simps)

lemma can_close_Joining: "pb_phase s = Joining d \<Longrightarrow> can_close P x T s"
proof (cases "pb_ack s")
  case (Reading sm)
  assume "pb_phase s = Joining d"
  then obtain t where "join_timeout P x (max T (d + ack_wait x)) s = Some t" "finished (pb_phase t)"
    using Reading by (simp add: join_timeout_def)
  then show ?thesis using can_close_step [of P x s "Give_Up (max T (d + ack_wait x))" t T] can_close_done
    by (simp add: publisher_step_simps)
next
  case (Ended sm e)
  assume "pb_phase s = Joining d"
  then show ?thesis using Ended
    by (intro can_close_write [where now = T, OF _ order_refl can_close_done]) (auto simp: write_side_def)
next
  case (Crashed e)
  assume "pb_phase s = Joining d"
  then show ?thesis using Crashed
    by (intro can_close_write [where now = T, OF _ order_refl can_close_done]) (auto simp: write_side_def)
qed

lemma can_close_Closing: "pb_phase s = Closing \<Longrightarrow> can_close P x T s"
  by (rule can_close_write [where now = T]) (auto simp: write_side_def intro!: can_close_Joining)

text \<open>A drain ends: the channel shrinks with every PUBREL, and a fault leaves it at once.\<close>

lemma drain_ends:
  assumes "\<And>s t. write_side P x T s = Some t \<Longrightarrow> Q t \<Longrightarrow> Q s"
    and "\<And>s i rest. pb_phase s = ph \<Longrightarrow> pb_stop s = b \<Longrightarrow> pb_channel s = i # rest \<Longrightarrow> write_side P x T s =
        (case drain_pubrel P x i rest s of (None, u) \<Rightarrow> Some u | (Some e, u) \<Rightarrow> Some (u\<lparr>pb_phase := f e\<rparr>))"
    and "\<And>s. pb_phase s = ph \<Longrightarrow> pb_stop s = b \<Longrightarrow> pb_channel s = [] \<Longrightarrow> Q s"
    and "\<And>s e. pb_phase s = f e \<Longrightarrow> Q s"
    and "pb_phase s = ph" "pb_stop s = b"
  shows "Q s"
  using assms(5,6)
proof (induction "pb_channel s" arbitrary: s)
  case Nil
  then show ?case using assms(3) by metis
next
  case (Cons i rest)
  obtain r u where d: "drain_pubrel P x i rest s = (r, u)" by (cases "drain_pubrel P x i rest s")
  then obtain st' where u: "u = s\<lparr>pb_channel := rest, pb_stream := st'\<rparr>" by (rule drain_pubrel_cases)
  have w: "write_side P x T s = Some (case r of None \<Rightarrow> u | Some e \<Rightarrow> u\<lparr>pb_phase := f e\<rparr>)"
    using assms(2) [of s i rest] Cons d by (simp split: option.splits)
  show ?case
  proof (cases r)
    case None
    then show ?thesis using w u Cons by (intro assms(1) [of s u]) auto
  next
    case (Some e)
    then show ?thesis using w u assms(4) by (intro assms(1) [of s "u\<lparr>pb_phase := f e\<rparr>"]) auto
  qed
qed

lemma can_close_turn: "write_side P x T s = Some t \<Longrightarrow> can_close P x T t \<Longrightarrow> can_close P x T s"
  using can_close_write by blast

lemma can_close_Last_Drain: "pb_phase s = Last_Drain \<Longrightarrow> can_close P x T s"
proof (rule drain_ends [where ph = Last_Drain and f = "\<lambda>e. Closing" and P = P and x = x and T = T])
  fix s :: publisher
  assume "pb_phase s = Last_Drain" "pb_channel s = []"
  then show "can_close P x T s"
    by (intro can_close_turn [of P x T s "s\<lparr>pb_phase := Closing\<rparr>"]) (auto simp: write_side_def intro: can_close_Closing)
qed (auto simp: write_side_def can_close_Closing intro: can_close_turn)

lemma can_close_Tail_Check: "pb_phase s = Tail_Check d \<Longrightarrow> can_close P x T s"
  by (rule can_close_write [where now = "max T d"]) (auto simp: write_side_def intro!: can_close_Last_Drain)

lemma can_close_Tail_Sleep: "pb_phase s = Tail_Sleep d w \<Longrightarrow> can_close P x T s"
  by (rule can_close_write [where now = "max T w"]) (auto simp: write_side_def intro!: can_close_Tail_Check)

lemma can_close_Tail_Drain: "pb_phase s = Tail_Drain d \<Longrightarrow> can_close P x T s"
proof (rule drain_ends [where ph = "Tail_Drain d" and f = "\<lambda>e. Tail_Sleep d (T + 10 ^ 7)" and P = P and x = x and T = T])
  fix s :: publisher
  assume "pb_phase s = Tail_Drain d" "pb_channel s = []"
  then show "can_close P x T s"
    by (intro can_close_turn [of P x T s "s\<lparr>pb_phase := Tail_Sleep d (T + 10 ^ 7)\<rparr>"])
      (auto simp: write_side_def intro: can_close_Tail_Sleep)
qed (auto simp: write_side_def can_close_Tail_Sleep intro: can_close_turn split: prod.splits option.splits)

lemmas can_close_intros = can_close_Tail_Check can_close_Tail_Drain can_close_Tail_Sleep can_close_Last_Drain
  can_close_Closing can_close_Joining can_close_Done

lemma can_finish_leave: "can_finish P x T (leave_loop T s)"
proof (cases "pb_window_closed s \<or> instant_add T (5 * 10 ^ 9) \<noteq> None")
  case True
  then have "can_close P x T (leave_loop T s)"
    by (cases "pb_window_closed s")
      (auto simp: leave_loop_def can_close_Closing can_close_Tail_Check split: option.splits)
  then show ?thesis by (rule can_finish_close)
next
  case False
  then have "pb_phase (leave_loop T s) = Write_Panicked" "INSTANT_MAX < T + 5 * 10 ^ 9"
    by (auto simp: leave_loop_def instant_add_def split: if_splits)
  then show ?thesis unfolding can_finish_def
    by (intro exI [of _ "[]"] exI [of _ "leave_loop T s"]) (auto simp: own_moves_simps intro: steps.intros)
qed

lemma can_finish_Draining: "pb_phase s = Draining \<Longrightarrow> pb_stop s \<Longrightarrow> can_finish P x T s"
proof (rule drain_ends [where ph = Draining and f = "\<lambda>e. Done_With (Inl (from_mqtt e))" and b = True
      and P = P and x = x and T = T])
  fix s :: publisher
  assume "pb_phase s = Draining" "pb_stop s = True" "pb_channel s = []"
  then have "write_side P x T s = Some (leave_loop T s)" by (simp add: write_side_def top_checks_def split: option.splits)
  then show "can_finish P x T s" using can_finish_leave by (rule can_finish_write)
qed (auto simp: write_side_def intro: can_finish_write can_finish_close can_close_Done)

lemma can_finish_waiting: "stage_of (pb_phase s) = Waiting \<Longrightarrow> pb_stop s \<Longrightarrow> can_finish P x T s"
proof -
  assume "stage_of (pb_phase s) = Waiting" "pb_stop s"
  then have "stop_arm T s = Some (leave_loop T s)" by (cases "pb_phase s") (auto simp: stop_arm_def)
  then show ?thesis
    using can_finish_leave can_finish_step [of P x s "Stop_Turn T"] by (simp add: publisher_step_simps)
qed

lemma can_finish_closed: "pb_phase s = Acquiring \<Longrightarrow> pb_closed s \<Longrightarrow> can_finish P x T s"
  by (rule can_finish_write [OF _ can_finish_leave]) (simp add: write_side_def)

lemma can_finish_Failing: "pb_phase s = Failing pid e \<Longrightarrow> can_finish P x T s"
  by (rule can_finish_write [OF _ can_finish_close [OF can_close_done]])
    (auto simp: write_side_def clean_up_def Let_def split: option.splits)

lemma can_finish_Writing: "pb_phase s = Writing pid d \<Longrightarrow> pb_stop s \<Longrightarrow> can_finish P x T s"
proof -
  assume s: "pb_phase s = Writing pid d" "pb_stop s"
  have "can_finish P x T (write_publish x pid d s)"
    by (rule write_publish_cases [OF refl, of x pid d s])
      (use s in \<open>simp add: can_finish_Draining\<close>, simp add: can_finish_Failing)
  then show ?thesis by (rule can_finish_write [rotated]) (simp add: s write_side_def)
qed

lemma can_finish_Prepared: "pb_phase s = Prepared pid d \<Longrightarrow> pb_stop s \<Longrightarrow> can_finish P x T s"
  by (rule can_finish_write [where t = "s\<lparr>pb_phase := Writing pid d,
        pb_in_flight := (case pid of Some i \<Rightarrow> AList.update i d (pb_in_flight s) | None \<Rightarrow> pb_in_flight s)\<rparr>"])
    (auto simp: write_side_def intro: can_finish_Writing)

lemma stopped_can_finish:
  assumes "pb_phase s \<noteq> Write_Panicked" "pb_stop s \<or> pb_phase s = Acquiring \<and> pb_closed s"
  shows "can_finish P x T s"
  using assms can_finish_closed
  by (cases "pb_phase s") (auto intro: can_finish_Draining can_finish_waiting can_finish_Prepared can_finish_Writing
      can_finish_Failing can_finish_close can_close_intros)

section \<open>From the command line to the first step\<close>

lemma map_sum_Inr_iff: "map_sum f id r = Inr y \<longleftrightarrow> r = Inr y"
  by (cases r) auto

lemma publisher_start_Return:
  assumes "fresh_streams N" "publisher_start P N sys index c a baseline warmup now w = (Return (x, s), w')"
  shows "publisher_init x (pb_stream s) s"
    and "\<exists>neg. px_window x = min (effective_inflight (cf_inflight c) neg) 65535"
    and "px_config x = c" "px_index x = index"
    and "\<exists>pw wl. calls (pb_stream s) = [Wrote (Connect (connect_packet_for P a (publisher_client_id sys a index)
        (px_max_packet_size x) pw wl)) (px_version x), Read_with (px_max_packet_size x) (px_version x)]"
proof -
  obtain t w1 neg w2 m sd where t: "transport_connect P N sys a w = (Return t, w1)"
    and h: "handshake P sys a (publisher_client_id sys a index) (w1\<lparr>w_stream := framing N t\<rparr>) = (Return neg, w2)"
    and m: "max_packet_size a = Inr m" and x: "x = \<lparr>px_index = index, px_config = c, px_version = neg_version neg,
        px_max_packet_size = m, px_window = min (effective_inflight (cf_inflight c) (neg_receive_maximum neg)) 65535,
        px_baseline = baseline, px_warmup_until = warmup, px_schedule = sd\<rparr>"
    and s: "s = publisher_initial (w_stream w2) (px_window x)"
    using assms(2) by (auto simp: publisher_start_def bind_Return_iff try_io_Return_iff map_sum_Inr_iff Let_def split: option.splits)
  have m': "m = ca_max_packet_size a" using m max_packet_size_Inr_iff by blast
  obtain pw wl where calls: "calls (w_stream w2) = [Wrote (Connect (connect_packet_for P a (publisher_client_id sys a index)
        m pw wl)) (version a), Read_with m (version a)]" "neg_version neg = version a"
    using handshake_Return [OF h, where p = "w_process w"] assms(1) m' by (auto simp: fresh_streams_def)
  then have sent: "\<exists>con. sent_packets (w_stream w2) = [Connect con]" by (simp add: sent_packets_def List.map_filter_def)
  have win: "1 \<le> px_window x" "px_window x \<le> 65535"
    by (simp_all add: x effective_inflight_def Let_def)
  show "publisher_init x (pb_stream s) s"
    using sent win s by (simp add: publisher_init_def publisher_initial_def)
  show "\<exists>neg. px_window x = min (effective_inflight (cf_inflight c) neg) 65535" "px_config x = c" "px_index x = index"
    "\<exists>pw wl. calls (pb_stream s) = [Wrote (Connect (connect_packet_for P a (publisher_client_id sys a index)
        (px_max_packet_size x) pw wl)) (px_version x), Read_with (px_max_packet_size x) (px_version x)]"
    using x s calls by (auto simp: publisher_initial_def)
qed

text \<open>A publisher to evaluate on: one in-flight message, no pacing, a broker that accepts and then plays a script.\<close>

definition sample_config :: "qos \<Rightarrow> config" where
  "sample_config q = \<lparr>cf_publishers = 1, cf_subscribers = 0, cf_topic_prefix = ''b'', cf_qos = q, cf_payload_size = 16,
     cf_stop = Stop_Count 2, cf_rate = None, cf_inflight = 1, cf_warmup = 0, cf_drain = 0, cf_json = False\<rparr>"

definition sample_setup :: "qos \<Rightarrow> publisher_setup" where
  "sample_setup q = \<lparr>px_index = 0, px_config = sample_config q, px_version = V5, px_max_packet_size = 1048576, px_window = 1,
     px_baseline = 0, px_warmup_until = 0, px_schedule = \<lparr>sd_start = 0, sd_interval = None\<rparr>\<rparr>"

lemma publisher_start_sample:
  "\<exists>st w'. publisher_start mqtt_documented (scripted_network (accepting_broker @ es)) bare_os 0 (sample_config q)
       default_connection 0 0 0 fresh_world = (Return (sample_setup q, publisher_initial st 1), w')
     \<and> inbox st = es \<and> write_fault st = (\<lambda>_. None)"
  by (simp add: publisher_start_def Let_def bind_io_def return_io_def raise_io_def on_process_def read_password_def
      transport_connect_def dial_def handshake_def will_io_def will_def on_stream_def zoom_io_def lift_mqtt_def
      write_packet_def read_packet_def connack_reply_def password_def clean_start_def max_packet_size_def
      default_connection_def DEFAULT_MAX_PACKET_SIZE_def PROTOCOL_MAX_PACKET_SIZE_def generated_client_id_def
      accepting_broker_def scripted_defs mqtt_documented_def version_def sample_setup_def sample_config_def
      per_publisher_rate_def schedule_new_def effective_inflight_def USIZE_MAX_def properties_new_def,
    intro exI conjI, rule refl, simp_all)

section \<open>Properties\<close>


text \<open>The step relation is the graph of a function on labels, so a trace can be run.\<close>

definition exec_step :: "protocol_crate \<Rightarrow> publisher_setup \<Rightarrow> publisher_label \<Rightarrow> publisher \<Rightarrow> publisher option" where
  "exec_step P x l s = (case l of
      Stop_Signal \<Rightarrow> Some (s\<lparr>pb_stop := True\<rparr>)
    | Read_Turn now \<Rightarrow> read_side P x now s
    | Write_Turn now \<Rightarrow> write_side P x now s
    | Stop_Turn now \<Rightarrow> stop_arm now s
    | Give_Up now \<Rightarrow> join_timeout P x now s)"

lemma publisher_step_exec: "publisher_step P x s l t \<longleftrightarrow> exec_step P x l s = Some t"
  by (cases l) (auto simp: exec_step_def publisher_step_simps)

text \<open>Only the stop signal changes the stop flag.\<close>

lemma publisher_step_stop:
  assumes "publisher_step P x s l t"
  shows "pb_stop t \<longleftrightarrow> pb_stop s \<or> l = Stop_Signal"
  using assms
proof cases
  case (read_turn now)
  have "pb_stop (complete_ack P x now i code sm s) = pb_stop s" for i code sm s
    by (simp add: complete_ack_def record_refusal_def Let_def split: option.splits)
  then show ?thesis using read_turn(1) by (rule_tac read_side_cases [OF read_turn(2)]) simp_all
next
  case (write_turn now)
  from write_turn(2) have "pb_stop t = pb_stop s"
  proof (cases rule: write_side_cases)
    case (written pid d)
    from written(2) show ?thesis by (cases rule: write_publish_cases) auto
  qed (auto simp: clean_up_def Let_def split: option.splits)
  then show ?thesis using write_turn(1) by simp
qed (auto elim!: stop_arm_moved join_timeout_done)

fun exec_steps :: "protocol_crate \<Rightarrow> publisher_setup \<Rightarrow> publisher_label list \<Rightarrow> publisher \<Rightarrow> publisher option" where
  "exec_steps P x [] s = Some s"
| "exec_steps P x (l # ls) s = (case exec_step P x l s of None \<Rightarrow> None | Some t \<Rightarrow> exec_steps P x ls t)"

lemma exec_steps_steps: "exec_steps P x ls s = Some t \<Longrightarrow> steps (publisher_step P x) s ls t"
  by (induction ls arbitrary: s) (auto simp: publisher_step_exec split: option.splits intro: steps.intros)

text \<open>The write side alone sends the first message and waits for a permit for the second.\<close>

definition first_message :: "publisher_label list" where
  "first_message = [Write_Turn 0, Write_Turn 0, Write_Turn 0, Write_Turn 0, Write_Turn 0]"

lemma first_message_steps:
  assumes "write_fault st = (\<lambda>_. None)" "q \<noteq> AtMostOnce"
  shows "\<exists>s. exec_steps P (sample_setup q) first_message (publisher_initial st 1) = Some s
     \<and> pb_phase s = Acquiring \<and> pb_in_flight s = [(1, 0)] \<and> pb_permits s = 0 \<and> \<not> pb_closed s \<and> \<not> pb_stop s
     \<and> pb_channel s = [] \<and> inbox (pb_stream s) = inbox st \<and> pb_ack s = Reading samples_new"
proof -
  have two: "\<not> (2 :: u64) \<le> 1" "\<not> (2 :: u64) \<le> 0" by (simp_all add: word_le_nat_alt)
  show ?thesis
  by (simp add: two first_message_def exec_step_def write_side_def publisher_initial_def top_checks_def
      sample_setup_def quota_for_def schedule_deadline_def proceed_def prepare_def assms next_id_def write_publish_def
      write_packet_def sample_config_def Let_def)
qed


lemma ucast_seq: "ucast (of_nat k :: u64) = (of_nat k :: u32)"
proof -
  have "unat (ucast (of_nat k :: u64) :: u32) = k mod 2 ^ 64 mod 2 ^ 32"
    by (simp add: unsigned_ucast_eq take_bit_eq_mod unat_of_nat)
  also have "\<dots> = unat (of_nat k :: u32)" by (subst mod_mod_cancel) (simp_all add: unat_of_nat)
  finally show ?thesis by (simp add: word_unat_eq_iff)
qed

text \<open>
  C5: what a publisher writes. After CONNECT it writes only PUBLISH and PUBREL packets, then at most one
  DISCONNECT and nothing after it. The PUBLISHes are the messages 0, 1, 2, ... without gap or repetition:
  each on the publisher's own topic with the run's QoS, carrying its own number and the publisher's index
  in the header of a payload of the requested size, and numbered 1, 2, ..., 65535, 1, ... when the QoS
  asks for an identifier. Their number is what the publisher counts as published, and never more than
  its quota.
\<close>

theorem publisher_messages:
  assumes "fresh_streams N" "publisher_start P N sys index c a baseline warmup now w = (Return (x, s\<^sub>0), w')"
    and "steps (publisher_step P x) s\<^sub>0 ls s"
  shows "(\<exists>con body tail. sent_packets (pb_stream s) = Connect con # body @ tail \<and> (\<forall>p \<in> set body. body_packet P p)
        \<and> (tail = [] \<or> tail = [Disconnect (rc_success P)]))
     \<and> (\<forall>k < length (publishes s). let m = publishes s ! k in
          pub_topic m = topic_for c index \<and> pub_qos m = cf_qos c \<and> pub_packet_id m = message_id x k
          \<and> length (pub_payload m) = max (cf_payload_size c) HEADER_LEN
          \<and> (\<exists>h. decode (pub_payload m) = Some h \<and> hd_publisher h = index \<and> hd_seq h = of_nat k))
     \<and> ct_published (pb_counters s) = of_nat (length (publishes s))
     \<and> (\<forall>q. quota_for c (unat index) = Some q \<longrightarrow> length (publishes s) \<le> unat q)"
proof -
  note start = publisher_start_Return [OF assms(1,2)]
  have log: "log_inv x s"
    using publisher_log.steps_inv [OF assms(3)] publisher_log.inv_init [OF start(1)] by blast
  have shape: "shape_inv P s"
    using publisher_shape.steps_inv [OF assms(3)] publisher_shape.inv_init [OF start(1)] by blast
  have message: "let m = publishes s ! k in
          pub_topic m = topic_for c index \<and> pub_qos m = cf_qos c \<and> pub_packet_id m = message_id x k
          \<and> length (pub_payload m) = max (cf_payload_size c) HEADER_LEN
          \<and> (\<exists>h. decode (pub_payload m) = Some h \<and> hd_publisher h = index \<and> hd_seq h = of_nat k)"
    if k: "k < length (publishes s)" for k
  proof -
    obtain now where "publishes s ! k = publisher_message x (of_nat k) (message_id x k) now"
      using log k by (auto simp: log_inv_def)
    then show ?thesis by (simp add: publisher_message_def decode_build length_build start(3,4) ucast_seq)
  qed
  show ?thesis
    using shape log message by (auto simp: shape_inv_def log_inv_def quota_kept_def start(3,4))
qed

theorem publisher_messages_witness:
  "\<exists>x s\<^sub>0 w' s. publisher_start mqtt_documented (scripted_network (accepting_broker @ [])) bare_os 0
       (sample_config AtLeastOnce) default_connection 0 0 0 fresh_world = (Return (x, s\<^sub>0), w')
     \<and> exec_steps mqtt_documented x first_message s\<^sub>0 = Some s
     \<and> quota_for (sample_config AtLeastOnce) (unat (0 :: u32)) = Some 2 \<and> length (publishes s) \<le> 2"
proof -
  obtain st w' where st: "publisher_start mqtt_documented (scripted_network (accepting_broker @ [])) bare_os 0
       (sample_config AtLeastOnce) default_connection 0 0 0 fresh_world
       = (Return (sample_setup AtLeastOnce, publisher_initial st 1), w')" "write_fault st = (\<lambda>_. None)"
    using publisher_start_sample [of "[]" AtLeastOnce] by blast
  then obtain s where s: "exec_steps mqtt_documented (sample_setup AtLeastOnce) first_message (publisher_initial st 1) = Some s"
    using first_message_steps [of st AtLeastOnce] by blast
  have q: "quota_for (sample_config AtLeastOnce) (unat (0 :: u32)) = Some 2" by (simp add: quota_for_def sample_config_def)
  then have "length (publishes s) \<le> unat (2 :: u64)"
    using publisher_messages [OF fresh_streams_scripted st(1) exec_steps_steps [OF s]] by blast
  with st(1) s q show ?thesis by auto
qed

text \<open>
  C20: the QoS 2 handshake loses no step. On a connection that accepts writes, the PUBRELs written
  followed by those still owed in the channel are, in order, exactly the identifiers of the PUBRECs
  read that did not refuse their message.
\<close>

theorem publisher_pubrels_owed:
  assumes "fresh_streams N" "publisher_start P N sys index c a baseline warmup now w = (Return (x, s\<^sub>0), w')"
    and "steps (publisher_step P x) s\<^sub>0 ls s" "\<forall>n. write_fault (pb_stream s\<^sub>0) n = None"
  shows "\<exists>read. inbox (pb_stream s\<^sub>0) = read @ inbox (pb_stream s) \<and> pubrels s @ pb_channel s = accepted P read"
proof -
  have "pubrel_inv P (pb_stream s\<^sub>0) s"
    using publisher_pubrels.steps_inv [OF assms(3)] publisher_pubrels.inv_init [OF publisher_start_Return(1) [OF assms(1,2)]]
    by blast
  then show ?thesis using assms(4) by (auto simp: pubrel_inv_def)
qed

text \<open>A broker that follows the specification: it answers the first PUBLISH with PUBREC and waits for PUBREL.\<close>

definition pubrec_script :: "net_event list" where
  "pubrec_script = [Arrives (Pubrec (pub_ack_new 1 0))]"

lemma stuck_state:
  assumes "write_fault st = (\<lambda>_. None)" "inbox st = pubrec_script"
  shows "\<exists>s. exec_steps mqtt_documented (sample_setup ExactlyOnce) (first_message @ [Read_Turn 0]) (publisher_initial st 1) = Some s
     \<and> pb_phase s = Acquiring \<and> pb_permits s = 0 \<and> \<not> pb_closed s \<and> \<not> pb_stop s \<and> pb_channel s = [1]
     \<and> inbox (pb_stream s) = []"
proof -
  obtain s where s: "exec_steps mqtt_documented (sample_setup ExactlyOnce) first_message (publisher_initial st 1) = Some s"
    "pb_phase s = Acquiring" "pb_permits s = 0" "\<not> pb_closed s" "\<not> pb_stop s" "pb_channel s = []"
    "inbox (pb_stream s) = pubrec_script" "pb_ack s = Reading samples_new"
    using first_message_steps [OF assms(1), of ExactlyOnce] assms(2) by auto
  have append: "exec_steps P x (ls @ ms) u = (case exec_steps P x ls u of None \<Rightarrow> None | Some v \<Rightarrow> exec_steps P x ms v)" for P x ls ms u
    by (induction ls arbitrary: u) (auto split: option.splits)
  show ?thesis
    using s by (simp add: append exec_step_def read_side_def read_packet_def pubrec_script_def ack_packet_def)
qed

theorem publisher_pubrels_owed_witness:
  "\<exists>x s\<^sub>0 w' s. publisher_start mqtt_documented (scripted_network (accepting_broker @ pubrec_script)) bare_os 0
       (sample_config ExactlyOnce) default_connection 0 0 0 fresh_world = (Return (x, s\<^sub>0), w')
     \<and> exec_steps mqtt_documented x (first_message @ [Read_Turn 0]) s\<^sub>0 = Some s \<and> pubrels s @ pb_channel s = [1]"
proof -
  obtain st w' where st: "publisher_start mqtt_documented (scripted_network (accepting_broker @ pubrec_script)) bare_os 0
       (sample_config ExactlyOnce) default_connection 0 0 0 fresh_world
       = (Return (sample_setup ExactlyOnce, publisher_initial st 1), w')" "write_fault st = (\<lambda>_. None)" "inbox st = pubrec_script"
    using publisher_start_sample [of pubrec_script ExactlyOnce] by blast
  then obtain s where s: "exec_steps mqtt_documented (sample_setup ExactlyOnce) (first_message @ [Read_Turn 0])
      (publisher_initial st 1) = Some s" "inbox (pb_stream s) = []"
    using stuck_state by blast
  have "pubrels s @ pb_channel s = accepted mqtt_documented pubrec_script"
    using publisher_pubrels_owed [OF fresh_streams_scripted st(1) exec_steps_steps [OF s(1)]] st(2,3) s(2)
    by (auto simp: publisher_initial_def)
  then have "pubrels s @ pb_channel s = [1]" by (simp add: accepted_def pubrec_script_def List.map_filter_def)
  with st(1) s(1) show ?thesis by blast
qed

text \<open>
  C40: the QoS 2 exchange can come to a halt although the broker follows the protocol: with the window
  full the write side waits for a permit and does not look at the channel, so the PUBREL the broker waits
  for is never sent. No step is left but a stop request.
\<close>

theorem qos2_full_window_halts:
  "\<exists>s\<^sub>0 w' ls s. publisher_start mqtt_documented (scripted_network (accepting_broker @ pubrec_script)) bare_os 0
       (sample_config ExactlyOnce) default_connection 0 0 0 fresh_world = (Return (sample_setup ExactlyOnce, s\<^sub>0), w')
     \<and> steps (publisher_step mqtt_documented (sample_setup ExactlyOnce)) s\<^sub>0 ls s \<and> pb_channel s = [1]
     \<and> {l. \<exists>t. publisher_step mqtt_documented (sample_setup ExactlyOnce) s l t} = {Stop_Signal}"
proof -
  obtain st w' where st: "publisher_start mqtt_documented (scripted_network (accepting_broker @ pubrec_script)) bare_os 0
       (sample_config ExactlyOnce) default_connection 0 0 0 fresh_world
       = (Return (sample_setup ExactlyOnce, publisher_initial st 1), w')" "write_fault st = (\<lambda>_. None)" "inbox st = pubrec_script"
    using publisher_start_sample [of pubrec_script ExactlyOnce] by blast
  then obtain s where s: "exec_steps mqtt_documented (sample_setup ExactlyOnce) (first_message @ [Read_Turn 0])
      (publisher_initial st 1) = Some s" "pb_phase s = Acquiring" "pb_permits s = 0" "\<not> pb_closed s" "\<not> pb_stop s"
      "pb_channel s = [1]" "inbox (pb_stream s) = []"
    using stuck_state by blast
  have "l = Stop_Signal" if "publisher_step mqtt_documented (sample_setup ExactlyOnce) s l t" for l t
    using that s by (cases l) (auto simp: publisher_step_exec exec_step_def read_side_def read_packet_def write_side_def
        stop_arm_def join_timeout_def split: ack_task.splits)
  then have "{l. \<exists>t. publisher_step mqtt_documented (sample_setup ExactlyOnce) s l t} = {Stop_Signal}"
    by (auto intro: stop_signal)
  with st(1) exec_steps_steps [OF s(1)] s(6) show ?thesis by blast
qed



end
