(* ===== verification/Bench_Subscriber.thy ===== *)
theory Bench_Subscriber
  imports Bench_Schedule Cmd_Subscribe
begin

text \<open>
  One subscribing connection (\<^verbatim>\<open>src/bench/subscriber.rs\<close>): subscribe, count and time inbound messages,
  acknowledge them, until the stop signal. Each turn of its loop ends in one of two ways, as its
  \<^verbatim>\<open>select!\<close> does: the stop signal is seen, or a read completes at some instant. The counters are this
  subscriber's own contributions to the shared ones.
\<close>

section \<open>State\<close>

record subscriber_setup =
  sx_index :: u32
  sx_version :: protocol_version
  sx_max_packet_size :: u32
  sx_baseline :: nat
  sx_warmup_until :: nat

datatype subscriber_phase =
    Receiving
  | Awaiting_Stop
  | Sub_Done "error + samples"

record subscriber =
  sb_stream :: stream
  sb_samples :: samples
  sb_counters :: counters
  sb_phase :: subscriber_phase

datatype subscriber_turn = Stop_Seen | Read_Done nat

section \<open>The receive loop\<close>

text \<open>A message is timed if its header is plausible: it was sent after the warm-up and not in the future.\<close>

definition time_message :: "subscriber_setup \<Rightarrow> nat \<Rightarrow> u8 list \<Rightarrow> samples \<Rightarrow> samples" where
  "time_message x received_at payload sm = (case decode payload of
      None \<Rightarrow> sm
    | Some h \<Rightarrow> (case instant_add (sx_baseline x) (unat (hd_elapsed_ns h)) of
        None \<Rightarrow> sm
      | Some sent_at \<Rightarrow>
          if sx_warmup_until x \<le> sent_at \<and> sent_at \<le> received_at
          then record_sample sm (of_nat (received_at - sent_at)) else sm))"

definition ack_reply :: "protocol_crate \<Rightarrow> publish_packet \<Rightarrow> packet option" where
  "ack_reply P m = (case pub_packet_id m of
      None \<Rightarrow> None
    | Some i \<Rightarrow> (let ack = pub_ack_new i (rc_success P) in
        case pub_qos m of AtMostOnce \<Rightarrow> None | AtLeastOnce \<Rightarrow> Some (Puback ack) | ExactlyOnce \<Rightarrow> Some (Pubrec ack)))"

text \<open>Writing a reply; a failure ends the subscriber.\<close>

definition write_reply :: "subscriber_setup \<Rightarrow> packet option \<Rightarrow> subscriber \<Rightarrow> subscriber" where
  "write_reply x reply s = (case reply of
      None \<Rightarrow> s
    | Some p \<Rightarrow> (case write_packet p (sx_version x) (sb_stream s) of
        (Raise e, st) \<Rightarrow> s\<lparr>sb_stream := st, sb_phase := Sub_Done (Inl (from_mqtt e))\<rparr>
      | (_, st) \<Rightarrow> s\<lparr>sb_stream := st\<rparr>))"

definition receive_packet :: "protocol_crate \<Rightarrow> subscriber_setup \<Rightarrow> nat \<Rightarrow> packet \<Rightarrow> subscriber \<Rightarrow> subscriber" where
  "receive_packet P x now p s = (case p of
      Publish m \<Rightarrow> (let c = sb_counters s in
        write_reply x (ack_reply P m) (s\<lparr>
          sb_counters := c\<lparr>ct_received := ct_received c + 1,
            ct_bytes_received := ct_bytes_received c + of_nat (length (pub_payload m))\<rparr>,
          sb_samples := time_message x now (pub_payload m) (sb_samples s)\<rparr>))
    | Pubrel rel \<Rightarrow> write_reply x (Some (Pubcomp (pub_ack_new (ack_packet_id rel) (rc_success P)))) s
    | Disconnect code \<Rightarrow> s\<lparr>sb_phase :=
        Sub_Done (Inl (Rejected (''subscriber '' @ show_nat (unat (sx_index x))) code))\<rparr>
    | _ \<Rightarrow> s)"

definition subscriber_turn :: "protocol_crate \<Rightarrow> subscriber_setup \<Rightarrow> subscriber_turn \<Rightarrow> subscriber \<Rightarrow> subscriber option" where
  "subscriber_turn P x turn s = (case (sb_phase s, turn) of
      (Receiving, Stop_Seen) \<Rightarrow> Some (s\<lparr>sb_phase := Sub_Done (Inr (sb_samples s))\<rparr>)
    | (Receiving, Read_Done now) \<Rightarrow>
        (case read_packet (sx_max_packet_size x) (sx_version x) (sb_stream s) of
          (Return (Got p), st) \<Rightarrow> Some (receive_packet P x now p (s\<lparr>sb_stream := st\<rparr>))
        | (Return Eof, st) \<Rightarrow> Some (s\<lparr>sb_stream := st, sb_phase := Awaiting_Stop\<rparr>)
        | (Raise e, st) \<Rightarrow> Some (s\<lparr>sb_stream := st, sb_phase := Sub_Done (Inl (from_mqtt e))\<rparr>)
        | (_, st) \<Rightarrow> None)
    | (Awaiting_Stop, Stop_Seen) \<Rightarrow> Some (s\<lparr>sb_phase := Sub_Done (Inr (sb_samples s))\<rparr>)
    | _ \<Rightarrow> None)"

fun subscriber_loop ::
  "protocol_crate \<Rightarrow> subscriber_setup \<Rightarrow> subscriber_turn list \<Rightarrow> subscriber \<Rightarrow> subscriber option" where
  "subscriber_loop P x [] s = Some s"
| "subscriber_loop P x (turn # turns) s = (case subscriber_turn P x turn s of
      None \<Rightarrow> None | Some t \<Rightarrow> subscriber_loop P x turns t)"

section \<open>Starting\<close>

definition subscriber_client_id :: "os \<Rightarrow> connection_args \<Rightarrow> u32 \<Rightarrow> string" where
  "subscriber_client_id sys a index =
     (case ca_client_id a of Some i \<Rightarrow> i | None \<Rightarrow> generated_client_id sys) @ ''-sub-'' @ show_nat (unat index)"

definition subscriber_subscribe :: "config \<Rightarrow> subscribe_packet" where
  "subscriber_subscribe c = \<lparr>sub_packet_id = 1, sub_properties = properties_new,
     sub_filters = [\<lparr>tf_filter = subscribe_filter c, tf_qos = cf_qos c, tf_no_local = False,
       tf_retain_as_published = False, tf_retain_handling = SendAtSubscribe\<rparr>]\<rparr>"

text \<open>The loop that waits for the SUBACK.\<close>

function await_first_suback :: "protocol_crate \<Rightarrow> u32 \<Rightarrow> u32 \<Rightarrow> protocol_version \<Rightarrow> (stream, error, unit) io" where
  "await_first_suback P index m v st = bind_io (lift_mqtt (read_packet m v)) (\<lambda>r st. case r of
      Got (Suback ack) \<Rightarrow> (case find (rc_is_error P) (suback_reason_codes ack) of
          Some code \<Rightarrow> raise_io (Rejected (''subscription for subscriber '' @ show_nat (unat index)) code) st
        | None \<Rightarrow> return_io () st)
    | Got _ \<Rightarrow> await_first_suback P index m v st
    | Eof \<Rightarrow> raise_io (Disconnected ''while subscribing'') st) st"
  by pat_completeness auto
termination
  by (relation "measure (\<lambda>(P, index, m, v, st). length (inbox st))") (auto simp: lift_mqtt_Return_iff dest: read_packet_Got)

declare await_first_suback.simps [simp del]

definition subscriber_start ::
  "protocol_crate \<Rightarrow> ('tcp, 'tls, 'req) network \<Rightarrow> os \<Rightarrow> u32 \<Rightarrow> config \<Rightarrow> connection_args \<Rightarrow> nat \<Rightarrow> nat \<Rightarrow>
     (world, error, subscriber_setup \<times> subscriber) io" where
  "subscriber_start P N sys index c a baseline warmup_until =
     bind_io (transport_connect P N sys a) (\<lambda>t.
     bind_io (\<lambda>w. (Return (), w\<lparr>w_stream := framing N t\<rparr>)) (\<lambda>_.
     bind_io (handshake P sys a (subscriber_client_id sys a index)) (\<lambda>neg.
     bind_io (try_io (map_sum Usage id (max_packet_size a))) (\<lambda>m.
     bind_io (on_stream (write_packet (Subscribe (subscriber_subscribe c)) (neg_version neg))) (\<lambda>_.
     bind_io (zoom_io w_stream (\<lambda>st w. w\<lparr>w_stream := st\<rparr>) (await_first_suback P index m (neg_version neg))) (\<lambda>_ w.
       (Return (\<lparr>sx_index = index, sx_version = neg_version neg, sx_max_packet_size = m, sx_baseline = baseline,
            sx_warmup_until = warmup_until\<rparr>,
          \<lparr>sb_stream = w_stream w, sb_samples = samples_new, sb_counters = counters_zero, sb_phase = Receiving\<rparr>), w)))))))"

section \<open>Lemmas\<close>

lemma ack_reply_packets: "ack_packets P m = (case ack_reply P m of None \<Rightarrow> [] | Some p \<Rightarrow> [p])"
  by (simp add: ack_packets_def ack_reply_def Let_def split: option.splits qos.splits)

lemma write_reply_cases:
  obtains (ok) st where "write_reply x reply s = s\<lparr>sb_stream := st\<rparr>" "inbox st = inbox (sb_stream s)"
      "sent_packets st = sent_packets (sb_stream s) @ (case reply of None \<Rightarrow> [] | Some p \<Rightarrow> [p])"
  | (fault) st e where "write_reply x reply s = s\<lparr>sb_stream := st, sb_phase := Sub_Done (Inl e)\<rparr>"
      "inbox st = inbox (sb_stream s)"
proof (cases reply)
  case None
  then show ?thesis by (intro ok [of "sb_stream s"]) (simp_all add: write_reply_def)
next
  case (Some p)
  show ?thesis
  proof (cases rule: write_packet_cases [of p "sx_version x" "sb_stream s"])
    case (ok st')
    then show ?thesis using Some by (intro that(1) [where st = st']) (simp_all add: write_reply_def)
  next
    case (fault e st')
    then show ?thesis using Some by (intro that(2) [where st = st' and e = "from_mqtt e"]) (simp_all add: write_reply_def)
  qed
qed

lemma time_message_length:
  "length (sm_values (time_message x now payload sm)) \<le> length (sm_values sm) + (if HEADER_LEN \<le> length payload then 1 else 0)"
  by (auto simp: time_message_def record_sample_def decode_def split: option.splits)

text \<open>What a read consumed: the messages and the replies due of the events it passed.\<close>

lemma next_event_consumed:
  "next_event es = (r, fs) \<Longrightarrow> \<exists>pre. es = pre @ fs
     \<and> messages pre = (case r of Return (Got (Publish m)) \<Rightarrow> [m] | _ \<Rightarrow> [])
     \<and> concat (map (event_replies 0 R) pre) = (case r of Return (Got p) \<Rightarrow> R p | _ \<Rightarrow> [])"
proof (induction es rule: next_event.induct)
  case (2 p es)
  then show ?case by (intro exI [of _ "[Arrives p]"]) (auto simp: messages_def List.map_filter_def split: packet.splits)
next
  case (3 es)
  then obtain pre where "es = pre @ fs" "messages pre = (case r of Return (Got (Publish m)) \<Rightarrow> [m] | _ \<Rightarrow> [])"
    "concat (map (event_replies 0 R) pre) = (case r of Return (Got p) \<Rightarrow> R p | _ \<Rightarrow> [])" by auto
  then show ?case by (intro exI [of _ "Quiet # pre"]) (simp add: messages_def List.map_filter_def)
next
  case (5 e es)
  then show ?case by (intro exI [of _ "[Broken e]"]) (auto simp: messages_def List.map_filter_def)
qed (auto intro: exI [of _ "[]"])

definition failed :: "subscriber \<Rightarrow> bool" where
  "failed s \<longleftrightarrow> (case sb_phase s of Sub_Done (Inl e) \<Rightarrow> True | _ \<Rightarrow> False)"

text \<open>The account of a subscriber: what it consumed since the SUBACK, and what it made of it.\<close>

definition account :: "protocol_crate \<Rightarrow> stream \<Rightarrow> net_event list \<Rightarrow> subscriber \<Rightarrow> bool" where
  "account P st es s \<longleftrightarrow> inbox st = es @ inbox (sb_stream s)
     \<and> ct_received (sb_counters s) = of_nat (length (messages es))
     \<and> ct_bytes_received (sb_counters s) = of_nat (sum_list (map (\<lambda>m. length (pub_payload m)) (messages es)))
     \<and> length (sm_values (sb_samples s)) \<le> length (filter (\<lambda>m. HEADER_LEN \<le> length (pub_payload m)) (messages es))
     \<and> (\<not> failed s \<longrightarrow> sent_packets (sb_stream s) = sent_packets st @ concat (map (event_replies 0 (sub_replies P)) es))
     \<and> (\<forall>sm. sb_phase s = Sub_Done (Inr sm) \<longrightarrow> sm = sb_samples s)"

lemma account_receive:
  assumes "account P st es s" "sb_phase s = Receiving" "inbox (sb_stream s) = pre @ inbox st'"
    and "sent_packets st' = sent_packets (sb_stream s)"
    and "messages pre = (case p of Publish m \<Rightarrow> [m] | _ \<Rightarrow> [])"
    and "concat (map (event_replies 0 (sub_replies P)) pre) = sub_replies P p"
  shows "account P st (es @ pre) (receive_packet P x now p (s\<lparr>sb_stream := st'\<rparr>))"
proof -
  have frame: "account P st (es @ pre) (write_reply x reply (s\<lparr>sb_stream := st', sb_counters := c, sb_samples := sm\<rparr>))"
    if "(case reply of None \<Rightarrow> [] | Some q \<Rightarrow> [q]) = sub_replies P p"
      "ct_received c = of_nat (length (messages (es @ pre)))"
      "ct_bytes_received c = of_nat (sum_list (map (\<lambda>m. length (pub_payload m)) (messages (es @ pre))))"
      "length (sm_values sm) \<le> length (filter (\<lambda>m. HEADER_LEN \<le> length (pub_payload m)) (messages (es @ pre)))"
    for reply c sm
    by (cases rule: write_reply_cases [of x reply "s\<lparr>sb_stream := st', sb_counters := c, sb_samples := sm\<rparr>"])
      (use assms that in \<open>auto simp: account_def failed_def\<close>)
  show ?thesis
  proof (cases p)
    case (Publish m)
    let ?c = "sb_counters s"
    have "receive_packet P x now p (s\<lparr>sb_stream := st'\<rparr>) = write_reply x (ack_reply P m) (s\<lparr>sb_stream := st',
        sb_counters := ?c\<lparr>ct_received := ct_received ?c + 1, ct_bytes_received := ct_bytes_received ?c + of_nat (length (pub_payload m))\<rparr>,
        sb_samples := time_message x now (pub_payload m) (sb_samples s)\<rparr>)"
      by (simp add: Publish receive_packet_def Let_def)
    then show ?thesis
      using assms(1,5) Publish time_message_length [of x now "pub_payload m" "sb_samples s"]
      by (simp only:) (intro frame, auto simp: sub_replies_def ack_reply_packets account_def)
  next
    case (Pubrel a)
    then show ?thesis
      using assms(1,5) frame [of "Some (Pubcomp (pub_ack_new (ack_packet_id a) (rc_success P)))" "sb_counters s" "sb_samples s"]
      by (simp add: receive_packet_def sub_replies_def account_def)
  qed (use assms in \<open>auto simp: receive_packet_def account_def failed_def sub_replies_def\<close>)
qed

lemma account_turn:
  assumes acc: "account P st es s" and turn: "subscriber_turn P x turn s = Some t"
  shows "\<exists>pre. account P st (es @ pre) t"
proof (cases "sb_phase s = Receiving \<and> (\<exists>now. turn = Read_Done now)")
  case True
  then obtain now where ph: "sb_phase s = Receiving" "turn = Read_Done now" by blast
  obtain r st' where r: "read_packet (sx_max_packet_size x) (sx_version x) (sb_stream s) = (r, st')"
    by (cases "read_packet (sx_max_packet_size x) (sx_version x) (sb_stream s)")
  obtain pre where pre: "inbox (sb_stream s) = pre @ inbox st'" "sent_packets st' = sent_packets (sb_stream s)"
    "messages pre = (case r of Return (Got (Publish m)) \<Rightarrow> [m] | _ \<Rightarrow> [])"
    "concat (map (event_replies 0 (sub_replies P)) pre) = (case r of Return (Got p) \<Rightarrow> sub_replies P p | _ \<Rightarrow> [])"
    using read_packet_frame [OF r] next_event_consumed by blast
  show ?thesis
  proof (cases "\<exists>p. r = Return (Got p)")
    case True
    then obtain p where p: "r = Return (Got p)" by blast
    then have "account P st (es @ pre) (receive_packet P x now p (s\<lparr>sb_stream := st'\<rparr>))"
      using pre by (intro account_receive [OF acc ph(1)]) auto
    then show ?thesis using turn ph r p by (auto simp: subscriber_turn_def)
  next
    case False
    then show ?thesis using turn ph r pre acc
      by (intro exI [of _ pre]) (auto simp: subscriber_turn_def account_def failed_def
          split: outcome.splits read_outcome.splits)
  qed
next
  case False
  then show ?thesis using acc turn
    by (intro exI [of _ "[]"]) (auto simp: subscriber_turn_def account_def failed_def
        split: subscriber_phase.splits subscriber_turn.splits)
qed

lemma account_loop: "subscriber_loop P x turns s = Some t \<Longrightarrow> account P st es s \<Longrightarrow> \<exists>fs. account P st fs t"
proof (induction turns arbitrary: s es)
  case (Cons turn turns)
  then show ?case using account_turn by (fastforce split: option.splits)
qed auto

lemma await_first_suback_Return:
  "await_first_suback P index m v st = (Return (), st') \<Longrightarrow> \<exists>pre ack. inbox st = pre @ Arrives (Suback ack) # inbox st'
     \<and> (\<forall>code \<in> set (suback_reason_codes ack). \<not> rc_is_error P code) \<and> sent_packets st' = sent_packets st"
proof (induction "length (inbox st)" arbitrary: st rule: less_induct)
  case less
  note eq = less(2) [unfolded await_first_suback.simps [of P index m v st] bind_Return_iff lift_mqtt_Return_iff]
  then obtain r st1 where "read_packet m v st = (Return r, st1)" "r \<noteq> Eof" by fastforce
  then obtain p where r: "read_packet m v st = (Return (Got p), st1)" by (cases r) auto
  note fr = read_packet_frame [OF r]
  then obtain n where n: "inbox st = replicate n Quiet @ Arrives p # inbox st1" using next_event_Got_split by blast
  show ?case
  proof (cases "\<exists>ack. p = Suback ack")
    case True
    then show ?thesis using eq r n fr by (auto simp: find_None_iff split: option.splits)
  next
    case False
    then have "await_first_suback P index m v st1 = (Return (), st')" using eq r by (auto split: packet.splits)
    with less(1) [of st1] obtain pre ack where "inbox st1 = pre @ Arrives (Suback ack) # inbox st'"
      "\<forall>code \<in> set (suback_reason_codes ack). \<not> rc_is_error P code" "sent_packets st' = sent_packets st1"
      using read_packet_Got [OF r] by blast
    then show ?thesis using n fr by (intro exI [of _ "replicate n Quiet @ Arrives p # pre"] exI [of _ ack]) auto
  qed
qed

lemma zoom_io_Return_iff:
  "zoom_io get put m t = (Return a, t') \<longleftrightarrow> (\<exists>s. m (get t) = (Return a, s) \<and> t' = put s t)"
  by (auto simp: zoom_io_def split: prod.splits)

lemma subscriber_start_Return:
  assumes "fresh_streams N" "subscriber_start P N sys index c a baseline warmup w = (Return (x, s), w')"
  shows "\<exists>con. sent_packets (sb_stream s) = [Connect con, Subscribe (subscriber_subscribe c)]"
    and "\<exists>t pre ack. inbox (framing N t) = pre @ Arrives (Suback ack) # inbox (sb_stream s)
        \<and> (\<forall>code \<in> set (suback_reason_codes ack). \<not> rc_is_error P code)"
    and "account P (sb_stream s) [] s"
proof -
  obtain t w1 neg w2 st1 st2 where t: "transport_connect P N sys a w = (Return t, w1)"
    and h: "handshake P sys a (subscriber_client_id sys a index) (w1\<lparr>w_stream := framing N t\<rparr>) = (Return neg, w2)"
    and wr: "write_packet (Subscribe (subscriber_subscribe c)) (neg_version neg) (w_stream w2) = (Return (), st1)"
    and aw: "await_first_suback P index (sx_max_packet_size x) (neg_version neg) st1 = (Return (), st2)"
    and s: "s = \<lparr>sb_stream = st2, sb_samples = samples_new, sb_counters = counters_zero, sb_phase = Receiving\<rparr>"
    using assms(2)
    by (auto simp: subscriber_start_def bind_Return_iff try_io_Return_iff on_stream_Return_iff zoom_io_Return_iff)
  obtain ack1 es pk where hs: "next_event (inbox (framing N t)) = (Return (Got (Connack ack1)), es)"
    "sent_packets (w_stream w2) = [Connect pk]" "inbox (w_stream w2) = es"
    using handshake_Return [OF h, where p = "w_process w"] assms(1)
    by (auto simp: fresh_streams_def sent_packets_def List.map_filter_def)
  have st1: "sent_packets st1 = [Connect pk, Subscribe (subscriber_subscribe c)]" "inbox st1 = es"
    by (rule write_packet_cases [of "Subscribe (subscriber_subscribe c)" "neg_version neg" "w_stream w2"]; use wr hs in auto)+
  obtain pre ack where suback: "inbox st1 = pre @ Arrives (Suback ack) # inbox st2"
    "\<forall>code \<in> set (suback_reason_codes ack). \<not> rc_is_error P code" "sent_packets st2 = sent_packets st1"
    using await_first_suback_Return [OF aw] by blast
  show "\<exists>con. sent_packets (sb_stream s) = [Connect con, Subscribe (subscriber_subscribe c)]"
    using s suback(3) st1 by simp
  obtain n where "inbox (framing N t) = replicate n Quiet @ Arrives (Connack ack1) # es"
    using next_event_Got_split [OF hs(1)] by blast
  then have "inbox (framing N t) = (replicate n Quiet @ Arrives (Connack ack1) # pre) @ Arrives (Suback ack) # inbox (sb_stream s)"
    using suback(1) st1(2) s by simp
  with suback(2) show "\<exists>t pre ack. inbox (framing N t) = pre @ Arrives (Suback ack) # inbox (sb_stream s)
        \<and> (\<forall>code \<in> set (suback_reason_codes ack). \<not> rc_is_error P code)" by blast
  show "account P (sb_stream s) [] s"
    using s by (auto simp: account_def counters_zero_def samples_new_def)
qed

section \<open>Properties\<close>

text \<open>
  C18: a benchmark subscriber accounts for every message. It starts only after a SUBACK without an error
  code. After any turns, with the events consumed since that SUBACK: the messages among them are
  counted, with their bytes, each once; a message is timed only if it carries a header; and while the
  subscriber has not failed, the packets it has sent since are exactly the replies those events call
  for, in order, the same replies \<^verbatim>\<open>sub\<close> gives. A subscriber that ends well returns its samples.
\<close>

theorem subscriber_accounts:
  assumes "fresh_streams N" "subscriber_start P N sys index c a baseline warmup w = (Return (x, s\<^sub>0), w')"
    and "subscriber_loop P x turns s\<^sub>0 = Some s"
  shows "\<exists>t pre ack es con. inbox (framing N t) = pre @ Arrives (Suback ack) # es @ inbox (sb_stream s)
     \<and> (\<forall>code \<in> set (suback_reason_codes ack). \<not> rc_is_error P code)
     \<and> ct_received (sb_counters s) = of_nat (length (messages es))
     \<and> ct_bytes_received (sb_counters s) = of_nat (sum_list (map (\<lambda>m. length (pub_payload m)) (messages es)))
     \<and> length (sm_values (sb_samples s)) \<le> length (filter (\<lambda>m. HEADER_LEN \<le> length (pub_payload m)) (messages es))
     \<and> (\<not> failed s \<longrightarrow> sent_packets (sb_stream s) =
          [Connect con, Subscribe (subscriber_subscribe c)] @ concat (map (event_replies 0 (sub_replies P)) es))
     \<and> (\<forall>sm. sb_phase s = Sub_Done (Inr sm) \<longrightarrow> sm = sb_samples s)"
proof -
  note start = subscriber_start_Return [OF assms(1,2)]
  obtain es where "account P (sb_stream s\<^sub>0) es s" using account_loop [OF assms(3) start(3)] by blast
  moreover obtain t pre ack where "inbox (framing N t) = pre @ Arrives (Suback ack) # inbox (sb_stream s\<^sub>0)"
    "\<forall>code \<in> set (suback_reason_codes ack). \<not> rc_is_error P code" using start(2) by blast
  moreover obtain con where "sent_packets (sb_stream s\<^sub>0) = [Connect con, Subscribe (subscriber_subscribe c)]"
    using start(1) by blast
  ultimately show ?thesis
    unfolding account_def by (intro exI [of _ t] exI [of _ pre] exI [of _ ack] exI [of _ es] exI [of _ con]) simp
qed

text \<open>A broker that accepts the subscription and delivers one message of QoS 1.\<close>

definition delivering_broker :: "net_event list" where
  "delivering_broker = accepting_broker @ [Arrives (Suback \<lparr>suback_packet_id = 1, suback_reason_codes = [1]\<rparr>),
     Arrives (Publish \<lparr>pub_dup = False, pub_qos = AtLeastOnce, pub_retain = False, pub_topic = ''b/0'',
       pub_packet_id = Some 7, pub_properties = properties_new, pub_payload = replicate 16 0\<rparr>)]"

definition sample_bench :: config where
  "sample_bench = \<lparr>cf_publishers = 1, cf_subscribers = 1, cf_topic_prefix = ''b'', cf_qos = AtLeastOnce, cf_payload_size = 16,
     cf_stop = Stop_Count 1, cf_rate = None, cf_inflight = 1, cf_warmup = 0, cf_drain = 0, cf_json = False\<rparr>"

lemma subscriber_start_sample:
  "\<exists>x s\<^sub>0 w' s. subscriber_start mqtt_documented (scripted_network delivering_broker) bare_os 0 sample_bench
       default_connection 0 0 fresh_world = (Return (x, s\<^sub>0), w')
     \<and> subscriber_loop mqtt_documented x [Read_Done 5, Stop_Seen] s\<^sub>0 = Some s \<and> inbox (sb_stream s) = [] \<and> \<not> failed s"
proof -
  have await: "await_first_suback mqtt_documented 0 m v st = (Return (), st\<lparr>inbox := es, calls := calls st @ [Read_with m v]\<rparr>)"
    if "inbox st = Arrives (Suback \<lparr>suback_packet_id = 1, suback_reason_codes = [1]\<rparr>) # es" for m v st es
    using that by (subst await_first_suback.simps) (simp add: bind_io_def lift_mqtt_def read_packet_def)
  show ?thesis
    by (simp add: subscriber_start_def Let_def bind_io_def return_io_def raise_io_def on_process_def read_password_def
        transport_connect_def dial_def handshake_def will_io_def will_def on_stream_def zoom_io_def lift_mqtt_def
        write_packet_def read_packet_def connack_reply_def password_def clean_start_def max_packet_size_def
        default_connection_def DEFAULT_MAX_PACKET_SIZE_def PROTOCOL_MAX_PACKET_SIZE_def generated_client_id_def
        accepting_broker_def delivering_broker_def scripted_defs version_def sample_bench_def await
        subscriber_turn_def receive_packet_def write_reply_def ack_reply_def failed_def)
qed

theorem subscriber_accounts_witness:
  "\<exists>x s\<^sub>0 w' s. subscriber_start mqtt_documented (scripted_network delivering_broker) bare_os 0 sample_bench
       default_connection 0 0 fresh_world = (Return (x, s\<^sub>0), w')
     \<and> subscriber_loop mqtt_documented x [Read_Done 5, Stop_Seen] s\<^sub>0 = Some s \<and> ct_received (sb_counters s) = 1"
proof -
  obtain x s\<^sub>0 w' s where st: "subscriber_start mqtt_documented (scripted_network delivering_broker) bare_os 0 sample_bench
       default_connection 0 0 fresh_world = (Return (x, s\<^sub>0), w')"
    and s: "subscriber_loop mqtt_documented x [Read_Done 5, Stop_Seen] s\<^sub>0 = Some s" "inbox (sb_stream s) = []"
    using subscriber_start_sample by blast
  obtain t pre ack es where "inbox (framing (scripted_network delivering_broker) t) = pre @ Arrives (Suback ack) # es @ inbox (sb_stream s)"
    "ct_received (sb_counters s) = of_nat (length (messages es))"
    using subscriber_accounts [OF fresh_streams_scripted st s(1)] by blast
  moreover from this(1) have "length (messages es) = 1"
    using s(2) by (auto simp: scripted_network_def delivering_broker_def accepting_broker_def append_eq_Cons_conv Cons_eq_append_conv messages_def List.map_filter_def)
  ultimately show ?thesis using st s(1) by (intro exI [of _ x] exI [of _ s\<^sub>0] exI [of _ w'] exI [of _ s]) simp
qed

end
