(* ===== verification/Bench_Run.thy ===== *)
theory Bench_Run
  imports Publisher_Invariants Bench_Subscriber
begin

text \<open>
  The benchmark as a whole (\<^verbatim>\<open>run\<close> of \<^verbatim>\<open>src/bench/mod.rs\<close>): from the arguments to the printed report and
  the result of the command. What the tasks did is the record \<open>bench_tasks\<close>: how each handle was joined,
  the final shared counters, and the instants that matter.
\<close>

section \<open>The run\<close>

definition SUBSCRIBER_SETTLE :: nat where
  "SUBSCRIBER_SETTLE = 200 * 10 ^ 6"

record bench_tasks =
  bt_baseline :: nat
  bt_publishers :: "(error + samples) joined list"
  bt_subscribers :: "(error + samples) joined list"
  bt_totals :: counters
  bt_elapsed :: nat

definition bench_report :: "protocol_crate \<Rightarrow> config \<Rightarrow> bench_tasks \<Rightarrow> report" where
  "bench_report P c ts =
     (case join_tasks (bt_publishers ts) of (ack_samples, publisher_results) \<Rightarrow>
      case join_tasks (bt_subscribers ts) of (e2e_samples, subscriber_results) \<Rightarrow>
      \<lparr>rp_config = \<lparr>rc_publishers = cf_publishers c, rc_subscribers = cf_subscribers c, rc_qos = qos_as_u8 P (cf_qos c),
          rc_payload_size = cf_payload_size c, rc_inflight = cf_inflight c, rc_rate = cf_rate c,
          rc_topic_prefix = cf_topic_prefix c\<rparr>,
       rp_elapsed = bt_elapsed ts,
       rp_totals = snapshot (bt_totals ts),
       rp_task_failures = collect_failures P publisher_results ''publisher''
          @ collect_failures P subscriber_results ''subscriber'',
       rp_ack = fst (summarise ack_samples),
       rp_end_to_end = fst (summarise e2e_samples),
       rp_end_to_end_disabled = (0 < cf_subscribers c \<and> \<not> measures_end_to_end c)\<rparr>)"

definition bench_output :: "(json \<Rightarrow> string) \<Rightarrow> config \<Rightarrow> report \<Rightarrow> string" where
  "bench_output pretty c r = (if cf_json c then to_json pretty r @ [CHR 0x0A] else to_table r)"

definition bench_run :: "protocol_crate \<Rightarrow> (json \<Rightarrow> string) \<Rightarrow> bench_args \<Rightarrow> bench_tasks \<Rightarrow> (error, unit) outcome \<times> string" where
  "bench_run P pretty a ts = (case from_args P a of
      Inl e \<Rightarrow> (Raise e, [])
    | Inr c \<Rightarrow> (case instant_add (bt_baseline ts) (cf_warmup c) of
        None \<Rightarrow> (Panic, [])
      | Some warmup_until \<Rightarrow>
          let r = bench_report P c ts in
          (if success r then Return ()
           else Raise (Usage ''the run completed with failures or refused messages; see the report above''),
           bench_output pretty c r)))"

text \<open>
  The stop signal the subscribers and publishers share: sent when the drain after the last publisher is
  over, or earlier by the task that waits for the deadline and for Ctrl-C, which is aborted after the
  drain. The publishers start at \<open>started\<close> and are joined at \<open>joined_at\<close>.
\<close>

definition stop_time :: "config \<Rightarrow> nat \<Rightarrow> nat option \<Rightarrow> nat \<Rightarrow> nat" where
  "stop_time c started ctrl_c joined_at =
     (let early = (case config_deadline c of Some d \<Rightarrow> [started + d] | None \<Rightarrow> [])
            @ (case ctrl_c of Some t \<Rightarrow> [t] | None \<Rightarrow> []) in
      foldl min (joined_at + cf_drain c) early)"

section \<open>Lemmas\<close>

lemma task_result_Inr: "task_result h = Inr u \<longleftrightarrow> (\<exists>s. h = Finished (Inr s))"
  by (auto simp: task_result_def split: joined.splits sum.splits)

lemma join_tasks_eq:
  obtains m where "join_tasks hs = (m, map task_result hs)" "contents m = (\<Sum>h\<leftarrow>hs. task_samples h)" "samples_ok m"
proof -
  obtain m rs where j: "join_tasks hs = (m, rs)" by (cases "join_tasks hs")
  then have "rs = map task_result hs \<and> contents m = contents samples_new + (\<Sum>h\<leftarrow>hs. task_samples h) \<and> samples_ok m"
    using join_loop_eq [of hs samples_new "[]" m rs] sample_vec.empty_contents by (auto simp: join_tasks_def)
  then show ?thesis using that j sample_vec.empty_contents by simp
qed

definition all_well :: "(error + samples) joined list \<Rightarrow> bool" where
  "all_well hs \<longleftrightarrow> list_all (\<lambda>h. case h of Finished (Inr s) \<Rightarrow> True | _ \<Rightarrow> False) hs"

lemma failures_of_tasks: "collect_failures P (map task_result hs) role = [] \<longleftrightarrow> all_well hs"
  unfolding collect_failures_Nil all_well_def list_all_iff
  by (auto simp: task_result_def split: joined.splits sum.splits)

lemma bench_report_success:
  "success (bench_report P c ts) \<longleftrightarrow> all_well (bt_publishers ts) \<and> all_well (bt_subscribers ts)
     \<and> ct_refused (bt_totals ts) = [] \<and> ct_publish_errors (bt_totals ts) = 0"
proof -
  obtain m where m: "join_tasks (bt_publishers ts) = (m, map task_result (bt_publishers ts))" by (rule join_tasks_eq)
  obtain n where n: "join_tasks (bt_subscribers ts) = (n, map task_result (bt_subscribers ts))" by (rule join_tasks_eq)
  show ?thesis by (auto simp: bench_report_def m n success_def snapshot_def failures_of_tasks)
qed

section \<open>Properties\<close>

text \<open>
  C28: the result of \<^verbatim>\<open>bench\<close> is honest. It succeeds exactly when the arguments are valid, every publisher
  and subscriber finished without an error or a panic, nothing was refused and no publish failed; and
  once the configuration stands, the report is printed whether or not it succeeds, so a failing run
  still shows its measurements and names every task that failed. The one other ending is the panic of
  a warm-up beyond the range of the clock.
\<close>

theorem bench_run_honest:
  "(fst (bench_run P pretty a ts) = Return () \<longleftrightarrow> (\<exists>c. from_args P a = Inr c \<and> bt_baseline ts + cf_warmup c \<le> INSTANT_MAX
      \<and> all_well (bt_publishers ts) \<and> all_well (bt_subscribers ts)
      \<and> ct_refused (bt_totals ts) = [] \<and> ct_publish_errors (bt_totals ts) = 0))
   \<and> (\<forall>c. from_args P a = Inr c \<and> bt_baseline ts + cf_warmup c \<le> INSTANT_MAX \<longrightarrow>
        snd (bench_run P pretty a ts) = bench_output pretty c (bench_report P c ts)
        \<and> (\<forall>i e. i < length (bt_publishers ts) \<and> task_result (bt_publishers ts ! i) = Inl e \<longrightarrow>
             ''publisher '' @ show_nat i @ '': '' @ display_error P e \<in> set (rp_task_failures (bench_report P c ts))))
   \<and> (fst (bench_run P pretty a ts) = Panic \<longleftrightarrow> (\<exists>c. from_args P a = Inr c \<and> INSTANT_MAX < bt_baseline ts + cf_warmup c))"
proof -
  obtain m where m: "join_tasks (bt_publishers ts) = (m, map task_result (bt_publishers ts))" by (rule join_tasks_eq)
  have "''publisher '' @ show_nat i @ '': '' @ display_error P e \<in> set (rp_task_failures (bench_report P c ts))"
    if "i < length (bt_publishers ts)" "task_result (bt_publishers ts ! i) = Inl e" for c i e
  proof -
    have "''publisher '' @ show_nat i @ '': '' @ display_error P e
        \<in> set (collect_failures P (map task_result (bt_publishers ts)) ''publisher'')"
      unfolding collect_failures_set using that by (intro exI [of _ i] exI [of _ e]) simp
    then show ?thesis by (simp add: bench_report_def m split: prod.splits)
  qed
  then show ?thesis
    by (auto simp: bench_run_def bench_report_success instant_add_def Let_def split: sum.splits)
qed

definition plain_args :: bench_args where
  "plain_args = \<lparr>ba_conn = default_connection, ba_publishers = 1, ba_subscribers = 0, ba_topic_prefix = ''b'', ba_qos = 1,
     ba_payload_size = 16, ba_count = Some 1, ba_duration = None, ba_rate = None, ba_inflight = 1, ba_warmup = 0,
     ba_drain = 0, ba_json = False\<rparr>"

theorem bench_run_honest_witness:
  "fst (bench_run mqtt_documented (\<lambda>_. []) plain_args \<lparr>bt_baseline = 0, bt_publishers = [Panicked ''boom''],
     bt_subscribers = [], bt_totals = counters_zero, bt_elapsed = 1\<rparr>) \<noteq> Return ()"
  using bench_run_honest [of mqtt_documented "\<lambda>_. []" plain_args "\<lparr>bt_baseline = 0, bt_publishers = [Panicked ''boom''],
     bt_subscribers = [], bt_totals = counters_zero, bt_elapsed = 1\<rparr>"]
  by (simp add: all_well_def)

text \<open>
  When the subscribers are told to stop. Without a time limit and without Ctrl-C it is exactly one
  drain window after the last publisher was joined; the signal is never later than that, and it is
  earlier only at the time limit or at Ctrl-C.
\<close>

theorem stop_time_bounds:
  "stop_time c started ctrl_c joined_at \<le> joined_at + cf_drain c
   \<and> (stop_time c started ctrl_c joined_at = joined_at + cf_drain c
      \<or> ctrl_c = Some (stop_time c started ctrl_c joined_at)
      \<or> (\<exists>d. config_deadline c = Some d \<and> stop_time c started ctrl_c joined_at = started + d))"
  by (auto simp: stop_time_def Let_def min_def split: option.splits)

text \<open>
  A run with a time limit has no drain window: the signal that stops the publishers at the limit is the
  one the subscribers wait for, so they stop before the publishers are joined.
\<close>

theorem time_limit_skips_drain:
  assumes "config_deadline c = Some d" "started + d \<le> joined_at"
  shows "stop_time c started ctrl_c joined_at \<le> joined_at"
  using assms by (auto simp: stop_time_def Let_def split: option.splits)

end
