(* ===== verification/Main_Dispatch.thy ===== *)
theory Main_Dispatch
  imports Cmd_Publish Cmd_Request Bench_Run
begin

text \<open>
  The program (\<^verbatim>\<open>src/main.rs\<close>): the subcommand is run to its result, which becomes the exit code, with an
  error on standard error. Creating the runtime is not modelled; a panic ends the process with the
  code Rust gives it, and a command that waits forever gives none.
\<close>

datatype exit_code = Exit_Success | Exit_Failure | Exit_Panic

definition run_command ::
  "protocol_crate \<Rightarrow> ('tcp, 'tls, 'req) network \<Rightarrow> os \<Rightarrow> (json \<Rightarrow> string) \<Rightarrow> bench_tasks \<Rightarrow> command \<Rightarrow> (world, error, unit) io" where
  "run_command P N sys pretty ts cmd = (case cmd of
      Cmd_Pub a \<Rightarrow> pub_run P N sys a
    | Cmd_Sub a \<Rightarrow> sub_run P N sys a
    | Cmd_Request a \<Rightarrow> request_run P N sys a
    | Cmd_Bench a \<Rightarrow> (\<lambda>w. case bench_run P pretty a ts of (r, out) \<Rightarrow> (r, w\<lparr>w_stdout := w_stdout w @ as_bytes out\<rparr>)))"

definition eprintln :: "string \<Rightarrow> world \<Rightarrow> world" where
  "eprintln line w = w\<lparr>w_process := (w_process w)\<lparr>stderr := stderr (w_process w) @ [line]\<rparr>\<rparr>"

definition main_exit ::
  "protocol_crate \<Rightarrow> (error, unit) outcome \<times> world \<Rightarrow> exit_code option \<times> world" where
  "main_exit P rw = (case rw of
      (Return _, w) \<Rightarrow> (Some Exit_Success, w)
    | (Raise e, w) \<Rightarrow> (Some Exit_Failure, eprintln (''wispmq-cli: '' @ display_error P e) w)
    | (Panic, w) \<Rightarrow> (Some Exit_Panic, w)
    | (Pending, w) \<Rightarrow> (None, w))"

definition main_program ::
  "protocol_crate \<Rightarrow> ('tcp, 'tls, 'req) network \<Rightarrow> os \<Rightarrow> (json \<Rightarrow> string) \<Rightarrow> bench_tasks \<Rightarrow> command \<Rightarrow> world \<Rightarrow> exit_code option \<times> world" where
  "main_program P N sys pretty ts cmd w = main_exit P (run_command P N sys pretty ts cmd w)"

section \<open>What a command puts on its connection\<close>

text \<open>
  Either nothing has crossed the connection, or the first thing was a CONNECT that announces the packet
  ceiling, and since then everything is written in the version of the connection and every read
  enforces that ceiling.
\<close>

definition announced :: "u32 \<Rightarrow> protocol_version \<Rightarrow> io_call list \<Rightarrow> bool" where
  "announced m v cs \<longleftrightarrow> cs = [] \<or> (\<exists>con rest. cs = Wrote (Connect con) v # rest
     \<and> p_maximum_packet_size (con_properties con) = Some m
     \<and> (con_client_id con = [] \<longrightarrow> con_clean_start con) \<and> list_all (conforming m v) rest)"

lemma announced_append: "announced m v cs \<Longrightarrow> cs \<noteq> [] \<Longrightarrow> list_all (conforming m v) new \<Longrightarrow> announced m v (cs @ new)"
  by (auto simp: announced_def)

interpretation stream_frame: io_preorder "\<lambda>w w' :: world. w_stream w' = w_stream w"
  by unfold_locales auto

lemma frame_on_process: "stream_frame.keeps (on_process f)"
  by (rule stream_frame.keepsI) (auto dest: on_process_frame)

lemma frame_dial: "stream_frame.keeps (dial P N a)"
  by (rule stream_frame.keepsI) (auto simp: dial_def try_io_def split: sum.splits)

lemma frame_transport: "stream_frame.keeps (transport_connect P N sys a)"
  unfolding transport_connect_def
  by (auto intro!: stream_frame.keeps_intros frame_on_process frame_dial)

lemma frame_will: "stream_frame.keeps (will_io P a)"
  by (auto simp: will_io_def intro: stream_frame.keeps_intros split: option.splits)

lemma after_frame:
  assumes "bind_io m f w = (r, w')" "stream_frame.keeps m" "calls (w_stream w) = []"
    and "\<And>x u. m w = (Return x, u) \<Longrightarrow> calls (w_stream u) = [] \<Longrightarrow> f x u = (r, w') \<Longrightarrow> announced M V (calls (w_stream w'))"
  shows "announced M V (calls (w_stream w'))"
proof -
  obtain q u where m: "m w = (q, u)" by (cases "m w")
  then have u: "calls (w_stream u) = []" using stream_frame.keepsD [OF assms(2) m] assms(3) by simp
  show ?thesis
  proof (cases q)
    case (Return x)
    then show ?thesis using assms(1,4) m u by (simp add: bind_io_def)
  qed (use assms(1) m u in \<open>auto simp: bind_io_def announced_def\<close>)
qed

lemma frame_read_password: "stream_frame.keeps (read_password sys a)"
  unfolding read_password_def by (rule frame_on_process)

lemma frame_try: "stream_frame.keeps (try_io r)"
  by (rule stream_frame.keeps_try)

lemma exchange_announced:
  assumes "bind_io (on_stream (write_packet (Connect con) v)) (\<lambda>_. bind_io (on_stream (read_packet m v)) (\<lambda>x. try_io (f x))) w = (r, w')"
    and "calls (w_stream w) = []" "p_maximum_packet_size (con_properties con) = Some m"
    and "con_client_id con = [] \<longrightarrow> con_clean_start con"
  shows "announced m v (calls (w_stream w'))"
  using assms
  by (auto simp: bind_io_def on_stream_def zoom_io_def lift_mqtt_def write_packet_def read_packet_def try_io_def
      announced_def conforming_def split: prod.splits outcome.splits option.splits sum.splits)

lemma handshake_announced:
  assumes "handshake P sys a i w = (r, w')" "calls (w_stream w) = []" "i = [] \<longrightarrow> clean_start a"
  shows "announced (ca_max_packet_size a) (version a) (calls (w_stream w'))"
proof (rule after_frame [OF assms(1) [unfolded handshake_def] frame_try assms(2)])
  fix m u
  assume "try_io (map_sum Usage id (max_packet_size a)) w = (Return m, u)" and u: "calls (w_stream u) = []"
    and rest: "bind_io (read_password sys a) (\<lambda>pw. bind_io (will_io P a) (\<lambda>wl.
     bind_io (on_stream (write_packet (Connect (connect_packet_for P a i m pw wl)) (version a))) (\<lambda>_.
     bind_io (on_stream (read_packet m (version a))) (\<lambda>r. try_io (connack_reply P a r))))) u = (r, w')"
  then have m: "m = ca_max_packet_size a" by (auto simp: try_io_Return_iff dest: ceiling_eq)
  show ?thesis
    by (rule after_frame [OF rest frame_read_password u], rule after_frame [OF _ frame_will])
      (auto intro!: exchange_announced simp: m connect_packet_for_def assms(3))
qed

lemma connect_announced:
  assumes "connect P N sys a w = (r, w')" "calls (w_stream w) = []" "fresh_streams N"
  shows "announced (ca_max_packet_size a) (version a) (calls (w_stream w'))"
proof -
  let ?id = "case ca_client_id a of Some i \<Rightarrow> i | None \<Rightarrow> generated_client_id sys"
  have last: "announced (ca_max_packet_size a) (version a) (calls (w_stream w'))"
    if id: "\<not> (\<not> clean_start a \<and> ?id = [])"
      and run: "bind_io (\<lambda>w. (Return (), w\<lparr>w_stream := framing N t\<rparr>)) (\<lambda>_. bind_io (handshake P sys a ?id) (\<lambda>neg w.
          (Return \<lparr>cl_stream = w_stream w, cl_version = neg_version neg, cl_keep_alive = ca_keepalive a,
             cl_next_packet_id = 0, cl_max_packet_size = m\<rparr>, w))) u = (r, w')" for t m u
  proof -
    obtain q v where h: "handshake P sys a ?id (u\<lparr>w_stream := framing N t\<rparr>) = (q, v)"
      by (cases "handshake P sys a ?id (u\<lparr>w_stream := framing N t\<rparr>)")
    then have "w' = v" using run by (auto simp: bind_io_def split: outcome.splits)
    moreover have "?id = [] \<longrightarrow> clean_start a" using id by blast
    ultimately show ?thesis using handshake_announced [OF h] assms(3) by (simp add: fresh_streams_def)
  qed
  show ?thesis
  proof (cases "\<not> clean_start a \<and> ?id = []")
    case True
    then show ?thesis using assms by (auto simp: connect_def announced_def)
  next
    case False
    then have c: "bind_io (try_io (map_sum Usage id (max_packet_size a))) (\<lambda>m.
        bind_io (read_password sys a) (\<lambda>_.
        bind_io (transport_connect P N sys a) (\<lambda>t.
        bind_io (\<lambda>w. (Return (), w\<lparr>w_stream := framing N t\<rparr>)) (\<lambda>_. bind_io (handshake P sys a ?id) (\<lambda>neg w.
          (Return \<lparr>cl_stream = w_stream w, cl_version = neg_version neg, cl_keep_alive = ca_keepalive a,
             cl_next_packet_id = 0, cl_max_packet_size = m\<rparr>, w)))))) w = (r, w')"
      using assms(1) by (simp only: connect_def Let_def if_False)
    show ?thesis
      by (rule after_frame [OF c frame_try assms(2)], rule after_frame [OF _ frame_read_password],
          assumption, assumption, rule after_frame [OF _ frame_transport], assumption, assumption, rule last [OF False])
  qed
qed

text \<open>A client only adds to what connecting left, and keeps to its ceiling and version.\<close>

lemma client_announced:
  assumes "connect P N sys a w = (Return c, w1)" "calls (w_stream w) = []" "fresh_streams N" "client_extends c d"
  shows "announced (ca_max_packet_size a) (version a) (calls (cl_stream d))"
proof -
  obtain t w2 neg where h: "handshake P sys a (case ca_client_id a of Some i \<Rightarrow> i | None \<Rightarrow> generated_client_id sys)
         (w2\<lparr>w_stream := framing N t\<rparr>) = (Return neg, w1)"
    and c: "c = \<lparr>cl_stream = w_stream w1, cl_version = neg_version neg, cl_keep_alive = ca_keepalive a,
             cl_next_packet_id = 0, cl_max_packet_size = ca_max_packet_size a\<rparr>"
    using connect_Return [OF assms(1)] by blast
  have n: "calls (w_stream w1) \<noteq> []" "neg_version neg = version a"
    using handshake_Return [OF h, where p = "w_process w"] by auto
  show ?thesis
    using announced_append [OF connect_announced [OF assms(1-3)] n(1)] assms(4) c n(2) by (auto simp: client_extends_def)
qed

section \<open>No command panics\<close>

lemma recv_timeout_not_Panic [simp]: "recv_timeout c \<noteq> (Panic, d)"
proof (cases "\<exists>es. unread c = Quiet # es")
  case True
  then show ?thesis using recv_timeout_quiet by fastforce
next
  case False
  then have "recv_timeout c = bind_io recv (\<lambda>p. return_io (Some p)) c" by (intro recv_timeout_prompt) auto
  then show ?thesis by (simp add: bind_Panic_iff)
qed

lemma ping_loop_not_Panic [simp]: "ping_loop c \<noteq> (Panic, d)"
proof (induction "length (unread c)" arbitrary: c rule: less_induct)
  case less
  obtain r e where rt: "recv_timeout c = (r, e)" by (cases "recv_timeout c")
  obtain q f where sd: "send Pingreq e = (q, f)" by (cases "send Pingreq e")
  have "ping_loop f \<noteq> (Panic, d)" if "r = Return None"
    using less [of f] recv_timeout_None [of c e] send_unread [OF sd] rt that by simp
  then show ?case using rt sd recv_timeout_not_Panic [of c e] send_not_Panic [of Pingreq e f]
    by (subst ping_loop.simps) (auto split: outcome.splits option.splits)
qed

lemma recv_keepalive_not_Panic [simp]: "recv_keepalive c \<noteq> (Panic, d)"
  by (simp add: recv_keepalive_def)

lemma await_suback_not_Panic [simp]: "await_suback P filters c \<noteq> (Panic, d)"
proof (induction "length (unread c)" arbitrary: c rule: less_induct)
  case less
  have "await_suback P filters e \<noteq> (Panic, d)" if "recv c = (Return p, e)" for p e
    using less recv_unread [OF that] by blast
  then show ?case by (subst await_suback.simps) (auto simp: bind_Panic_iff split: packet.splits)
qed

lemma on_client_not_Panic: "(\<And>c d. m c \<noteq> (Panic, d)) \<Longrightarrow> on_client m s \<noteq> (Panic, t)"
  by (auto simp: on_client_def zoom_io_def split: prod.splits)

lemma client_ops_not_Panic:
  "acknowledge P m c \<noteq> (Panic, d)" "subscribe P fs q c \<noteq> (Panic, d)" "request_id q c \<noteq> (Panic, d)"
  by (auto simp: acknowledge_def subscribe_def request_id_def fresh_id_def bind_Panic_iff Let_def
      split: option.splits qos.splits prod.splits)

lemma session_ops_not_Panic [simp]:
  "on_client recv_keepalive s \<noteq> (Panic, t)" "on_client (send p) s \<noteq> (Panic, t)"
  "on_client (acknowledge P m) s \<noteq> (Panic, t)" "on_client (subscribe P fs q) s \<noteq> (Panic, t)"
  "on_client (disconnect P) s \<noteq> (Panic, t)" "on_client (request_id q) s \<noteq> (Panic, t)" "print_io sys m b s \<noteq> (Panic, t)"
  by (simp_all add: on_client_not_Panic client_ops_not_Panic print_io_def)

lemma sub_loop_not_Panic [simp]: "sub_loop P sys b limit seen s \<noteq> (Panic, t)"
proof (induction "length (pending s)" arbitrary: seen s rule: less_induct)
  case less
  then show ?case
    by (subst sub_loop.simps) (auto simp: bind_Panic_iff split: packet.splits if_splits dest!: pending_steps)
qed

lemma request_loop_not_Panic [simp]: "request_loop P sys b wanted seen s \<noteq> (Panic, t)"
proof (induction "length (pending s)" arbitrary: seen s rule: less_induct)
  case less
  then show ?case
    by (subst request_loop.simps) (auto simp: bind_Panic_iff split: packet.splits if_splits dest!: pending_steps)
qed

definition command_conn :: "command \<Rightarrow> connection_args" where
  "command_conn cmd = (case cmd of Cmd_Pub a \<Rightarrow> pa_conn a | Cmd_Sub a \<Rightarrow> sa_conn a | Cmd_Request a \<Rightarrow> ra_conn a
     | Cmd_Bench a \<Rightarrow> ba_conn a)"

definition is_bench :: "command \<Rightarrow> bool" where
  "is_bench cmd \<longleftrightarrow> (case cmd of Cmd_Bench a \<Rightarrow> True | _ \<Rightarrow> False)"

lemma run_command_not_Panic:
  assumes "\<not> is_bench cmd" "clap_connection_ok (command_conn cmd)" "qos_levels P"
  shows "run_command P N sys pretty ts cmd w \<noteq> (Panic, w')"
proof (cases cmd)
  case (Cmd_Pub a)
  then show ?thesis using assms connect_not_Panic [of "pa_conn a" P N sys]
    by (auto simp: run_command_def pub_run_def command_conn_def bind_Panic_iff with_client_def split: prod.splits)
next
  case (Cmd_Sub a)
  then show ?thesis using assms connect_not_Panic [of "sa_conn a" P N sys]
    by (auto simp: run_command_def sub_run_def sub_session_def command_conn_def bind_Panic_iff with_session_def
        split: prod.splits if_splits)
next
  case (Cmd_Request a)
  then show ?thesis using assms connect_not_Panic [of "ra_conn a" P N sys]
    by (auto simp: run_command_def request_run_def request_session_def command_conn_def bind_Panic_iff with_session_def
        split: prod.splits if_splits)
qed (use assms in \<open>simp add: is_bench_def\<close>)

text \<open>A command that connects and then runs a session on the client.\<close>

lemma after_connect:
  assumes "bind_io (connect P N sys a) f w = (r, w')" "calls (w_stream w) = []" "fresh_streams N"
    and "\<And>c u. f c u = (r, w') \<Longrightarrow> \<exists>d. client_extends c d \<and> w_stream w' = cl_stream d"
  shows "announced (ca_max_packet_size a) (version a) (calls (w_stream w'))"
proof -
  obtain q u where c: "connect P N sys a w = (q, u)" by (cases "connect P N sys a w")
  show ?thesis
  proof (cases q)
    case (Return cl)
    then obtain d where "client_extends cl d" "w_stream w' = cl_stream d" using assms(1,4) c by (auto simp: bind_io_def)
    then show ?thesis using client_announced [OF c [unfolded Return] assms(2,3)] by simp
  qed (use assms c connect_announced [OF c assms(2,3)] in \<open>auto simp: bind_io_def\<close>)
qed

lemma with_client_extends:
  "client_io.keeps m \<Longrightarrow> with_client c m u = (r, w') \<Longrightarrow> \<exists>d. client_extends c d \<and> w_stream w' = cl_stream d"
  by (auto simp: with_client_def split: prod.splits dest: client_io.keepsD)

lemma with_session_extends:
  "session_io.keeps m \<Longrightarrow> with_session c m u = (r, w') \<Longrightarrow> \<exists>d. client_extends c d \<and> w_stream w' = cl_stream d"
  by (auto simp: with_session_def session_extends_def split: prod.splits dest!: session_io.keepsD)

text \<open>What goes over the connection of a command, from the CONNECT on.\<close>

lemma command_announced:
  assumes "\<not> is_bench cmd" "fresh_streams N" "calls (w_stream w) = []"
    and "run_command P N sys pretty ts cmd w = (r, w')"
  shows "announced (ca_max_packet_size (command_conn cmd)) (version (command_conn cmd)) (calls (w_stream w'))"
proof (cases cmd)
  case (Cmd_Pub a)
  then have run: "pub_run P N sys a w = (r, w')" using assms(4) by (simp add: run_command_def)
  show ?thesis
    unfolding command_conn_def Cmd_Pub command.case
    by (rule after_frame [OF run [unfolded pub_run_def] frame_try assms(3)], rule after_frame [OF _ frame_try],
        assumption, assumption, rule after_frame [OF _ frame_try], assumption, assumption,
        rule after_connect [OF _ _ assms(2)], assumption, assumption, erule with_client_extends [rotated])
      (intro client_io.keeps_intros keeps_publish_source keeps_disconnect)
next
  case (Cmd_Sub a)
  then have run: "sub_run P N sys a w = (r, w')" using assms(4) by (simp add: run_command_def)
  show ?thesis
  proof (cases "sa_topic a = []")
    case False
    show ?thesis
      unfolding command_conn_def Cmd_Sub command.case
      by (rule after_frame [OF run [unfolded sub_run_def if_not_P [OF False]] frame_try assms(3)],
          rule after_connect [OF _ _ assms(2)], assumption, assumption, erule with_session_extends [rotated])
        (rule keeps_sub_session [OF False])
  qed (use run assms(3) in \<open>auto simp: sub_run_def announced_def\<close>)
next
  case (Cmd_Request a)
  then have run: "request_run P N sys a w = (r, w')" using assms(4) by (simp add: run_command_def)
  show ?thesis
  proof (cases "version (ra_conn a) = V3_1")
    case False
    show ?thesis
      unfolding command_conn_def Cmd_Request command.case
      by (rule after_frame [OF run [unfolded request_run_def if_not_P [OF False]] frame_try assms(3)],
          rule after_connect [OF _ _ assms(2)], assumption, assumption, erule with_session_extends [rotated])
        (rule keeps_request_session)
  qed (use run assms(3) in \<open>auto simp: request_run_def announced_def\<close>)
qed (use assms(1) in \<open>simp add: is_bench_def\<close>)

section \<open>Properties\<close>

text \<open>
  C27: \<^verbatim>\<open>pub\<close>, \<^verbatim>\<open>sub\<close> and \<^verbatim>\<open>request\<close> never panic on arguments \<^verbatim>\<open>clap\<close> accepts: whatever the network, the files
  and the broker do, the process does not end with a panic. It ends well exactly when the command does,
  and an error adds exactly one line, naming it, to standard error.
\<close>

theorem commands_never_panic:
  assumes "\<not> is_bench cmd" "clap_connection_ok (command_conn cmd)" "qos_levels P"
    and "run_command P N sys pretty ts cmd w = (r, w\<^sub>1)" "main_program P N sys pretty ts cmd w = (code, w')"
  shows "code \<noteq> Some Exit_Panic \<and> (code = Some Exit_Success \<longleftrightarrow> r = Return ())
     \<and> (code = Some Exit_Failure \<longrightarrow> (\<exists>e. r = Raise e \<and> w_stdout w' = w_stdout w\<^sub>1 \<and> w_stream w' = w_stream w\<^sub>1
          \<and> stderr (w_process w') = stderr (w_process w\<^sub>1) @ [''wispmq-cli: '' @ display_error P e]))"
  using run_command_not_Panic [OF assms(1-3), of N sys pretty ts w w\<^sub>1] assms(4,5)
  by (cases r) (auto simp: main_program_def main_exit_def eprintln_def)

text \<open>A run to evaluate on: one message of QoS 1 that the broker acknowledges.\<close>

definition sample_broker :: "(unit, unit, unit) network" where
  "sample_broker = scripted_network (accepting_broker @ [Arrives (Puback (pub_ack_new 1 0))])"

definition no_tasks :: bench_tasks where
  "no_tasks = \<lparr>bt_baseline = 0, bt_publishers = [], bt_subscribers = [], bt_totals = counters_zero, bt_elapsed = 0\<rparr>"

lemma sample_command:
  "\<exists>w'. run_command mqtt_documented sample_broker bare_os (\<lambda>_. []) no_tasks (Cmd_Pub sample_pub) fresh_world = (Return (), w')"
  using pub_run_sample by (simp add: run_command_def sample_broker_def)

lemma sample_command_ok:
  "\<not> is_bench (Cmd_Pub sample_pub)" "clap_connection_ok (command_conn (Cmd_Pub sample_pub))"
  "command_conn (Cmd_Pub sample_pub) = default_connection"
  by (simp_all add: is_bench_def command_conn_def sample_pub_def)

theorem commands_never_panic_witness:
  "fst (main_program mqtt_documented sample_broker bare_os (\<lambda>_. []) no_tasks (Cmd_Pub sample_pub) fresh_world)
     = Some Exit_Success"
proof -
  obtain w\<^sub>1 where run: "run_command mqtt_documented sample_broker bare_os (\<lambda>_. []) no_tasks (Cmd_Pub sample_pub) fresh_world
      = (Return (), w\<^sub>1)" using sample_command by blast
  obtain code w' where m: "main_program mqtt_documented sample_broker bare_os (\<lambda>_. []) no_tasks (Cmd_Pub sample_pub) fresh_world
      = (code, w')" by (cases "main_program mqtt_documented sample_broker bare_os (\<lambda>_. []) no_tasks (Cmd_Pub sample_pub) fresh_world")
  show ?thesis
    using commands_never_panic [OF sample_command_ok(1,2) qos_levels_documented run m] m by simp
qed

text \<open>
  C10: the packet ceiling holds for a whole run. For every outcome of \<^verbatim>\<open>pub\<close>, \<^verbatim>\<open>sub\<close> and \<^verbatim>\<open>request\<close>, the
  first thing on the connection is a CONNECT that announces the ceiling of \<^verbatim>\<open>--max-packet-size\<close>, every
  read after it enforces that very ceiling, and everything is in the version asked for. The CONNECT asks
  for a clean session if it has no client identifier, and what is written after it is well-formed.
\<close>

theorem ceiling_announced_and_enforced:
  assumes "\<not> is_bench cmd" "fresh_streams N" "calls (w_stream w) = []"
    and "run_command P N sys pretty ts cmd w = (r, w')"
  shows "announced (ca_max_packet_size (command_conn cmd)) (version (command_conn cmd)) (calls (w_stream w'))"
  by (rule command_announced [OF assms])

theorem ceiling_announced_and_enforced_witness:
  "\<exists>w'. run_command mqtt_documented sample_broker bare_os (\<lambda>_. []) no_tasks (Cmd_Pub sample_pub) fresh_world = (Return (), w')
     \<and> announced 1048576 V5 (calls (w_stream w'))"
proof -
  obtain w' where run: "run_command mqtt_documented sample_broker bare_os (\<lambda>_. []) no_tasks (Cmd_Pub sample_pub) fresh_world
      = (Return (), w')" using sample_command by blast
  have "calls (w_stream fresh_world) = []" by (simp add: fresh_world_def)
  from ceiling_announced_and_enforced [OF sample_command_ok(1) _ this run]
  have "announced 1048576 V5 (calls (w_stream w'))"
    by (simp add: sample_command_ok(3) sample_broker_def default_connection_def version_def DEFAULT_MAX_PACKET_SIZE_def)
  with run show ?thesis by blast
qed

lemma announced_packets:
  assumes "announced m v cs" "cs = calls st"
  shows "sent_packets st = [] \<or> (\<exists>con rest. sent_packets st = Connect con # rest
     \<and> (con_client_id con = [] \<longrightarrow> con_clean_start con) \<and> list_all client_packet_ok rest)"
proof -
  have "list_all client_packet_ok (List.map_filter (\<lambda>c. case c of Wrote p v \<Rightarrow> Some p | Read_with m v \<Rightarrow> None) rest)"
    if "list_all (conforming m v) rest" for rest
    using that by (induction rest) (auto simp: map_filter_simps conforming_def split: io_call.splits)
  then show ?thesis
    using assms by (auto simp: announced_def sent_packets_def map_filter_simps)
qed



end
