(* ===== verification/Bench_System.thy ===== *)
theory Bench_System
  imports Bench_Run
begin

text \<open>
  A benchmark as one transition system (\<^verbatim>\<open>run\<close> of \<^verbatim>\<open>src/bench/mod.rs\<close> with every task it spawns): the main
  task, one task per subscriber, one publisher per connection with its two tasks, the task that waits for
  the deadline and for Ctrl-C, and the clock and stop flag they share. A connection is set up in one
  step, since no task sees anything of another until then. The run ends with the record
  \<^typ>\<open>bench_tasks\<close> that the report is made of.
\<close>

section \<open>State\<close>

text \<open>What surrounds a run: the network each connection meets, the instant of Ctrl-C, the text of a panic.\<close>

record ('tcp, 'tls, 'req) bench_env =
  be_crate :: protocol_crate
  be_pub_network :: "nat \<Rightarrow> ('tcp, 'tls, 'req) network"
  be_sub_network :: "nat \<Rightarrow> ('tcp, 'tls, 'req) network"
  be_os :: os
  be_config :: config
  be_conn :: connection_args
  be_ctrl_c :: "nat option"
  be_panic :: string

datatype ('x, 's) task = Spawned | Running 'x 's | Gone "(error + samples) joined"

type_synonym publisher_task = "(publisher_setup, publisher) task"
type_synonym subscriber_task = "(subscriber_setup, subscriber) task"

datatype deadline_task = Dl_Unborn | Dl_Spawned | Dl_Waiting "nat option" | Dl_Over

datatype main_phase =
    Main_Settling nat
  | Main_Publishing
  | Main_Draining nat
  | Main_Joining nat
  | Main_Reported bench_tasks

record bench_system =
  bs_now :: nat
  bs_world :: world
  bs_baseline :: nat
  bs_warmup_until :: nat
  bs_started :: nat
  bs_stop :: bool
  bs_deadline :: deadline_task
  bs_subscribers :: "subscriber_task list"
  bs_publishers :: "publisher_task list"
  bs_main :: main_phase

section \<open>Handles and shared counters\<close>

definition pub_handle :: "string \<Rightarrow> publisher_task \<Rightarrow> (error + samples) joined option" where
  "pub_handle msg t = (case t of
      Spawned \<Rightarrow> None
    | Gone h \<Rightarrow> Some h
    | Running x s \<Rightarrow> (case pb_phase s of
        Done_With r \<Rightarrow> Some (Finished r) | Write_Panicked \<Rightarrow> Some (Panicked msg) | _ \<Rightarrow> None))"

definition sub_handle :: "subscriber_task \<Rightarrow> (error + samples) joined option" where
  "sub_handle t = (case t of
      Spawned \<Rightarrow> None
    | Gone h \<Rightarrow> Some h
    | Running x s \<Rightarrow> (case sb_phase s of Sub_Done r \<Rightarrow> Some (Finished r) | _ \<Rightarrow> None))"

fun tally_plus :: "u8 \<Rightarrow> u64 \<Rightarrow> tally \<Rightarrow> tally" where
  "tally_plus code m [] = [(code, m)]"
| "tally_plus code m ((k, n) # rest) =
     (if code = k then (k, n + m) # rest
      else if code < k then (code, m) # (k, n) # rest
      else (k, n) # tally_plus code m rest)"

text \<open>The shared counters are the sum of what every task has added to them.\<close>

definition counters_add :: "counters \<Rightarrow> counters \<Rightarrow> counters" where
  "counters_add c d = \<lparr>ct_published = ct_published c + ct_published d,
     ct_acknowledged = ct_acknowledged c + ct_acknowledged d, ct_received = ct_received c + ct_received d,
     ct_bytes_sent = ct_bytes_sent c + ct_bytes_sent d, ct_bytes_received = ct_bytes_received c + ct_bytes_received d,
     ct_publish_errors = ct_publish_errors c + ct_publish_errors d,
     ct_refused = fold (\<lambda>(k, n). tally_plus k n) (ct_refused c) (ct_refused d)\<rparr>"

definition pub_counters :: "publisher_task \<Rightarrow> counters" where
  "pub_counters t = (case t of Running x s \<Rightarrow> pb_counters s | _ \<Rightarrow> counters_zero)"

definition sub_counters :: "subscriber_task \<Rightarrow> counters" where
  "sub_counters t = (case t of Running x s \<Rightarrow> sb_counters s | _ \<Rightarrow> counters_zero)"

definition total_counters :: "bench_system \<Rightarrow> counters" where
  "total_counters S = foldr counters_add
     (map pub_counters (bs_publishers S) @ map sub_counters (bs_subscribers S)) counters_zero"

definition tasks_of :: "string \<Rightarrow> bench_system \<Rightarrow> nat \<Rightarrow> bench_tasks" where
  "tasks_of msg S joined_at = \<lparr>bt_baseline = bs_baseline S,
     bt_publishers = map (\<lambda>t. the (pub_handle msg t)) (bs_publishers S),
     bt_subscribers = map (\<lambda>t. the (sub_handle t)) (bs_subscribers S),
     bt_totals = total_counters S, bt_elapsed = joined_at - bs_started S\<rparr>"

section \<open>Steps\<close>

text \<open>A connection that was set up, or why not; one that never answers leaves its task where it is.\<close>

definition connected :: "string \<Rightarrow> (error, 'x \<times> 's) outcome \<Rightarrow> ('x, 's) task option" where
  "connected msg r = (case r of
      Return (x, s) \<Rightarrow> Some (Running x s)
    | Raise e \<Rightarrow> Some (Gone (Finished (Inl e)))
    | Panic \<Rightarrow> Some (Gone (Panicked msg))
    | Pending \<Rightarrow> None)"

definition see_stop :: "bool \<Rightarrow> publisher_task \<Rightarrow> publisher_task" where
  "see_stop b t = (case t of Running x s \<Rightarrow> Running x (s\<lparr>pb_stop := b\<rparr>) | _ \<Rightarrow> t)"

text \<open>\<^verbatim>\<open>stop_tx.send(true)\<close>: every receiver reads the new value from here on.\<close>

definition send_stop :: "bench_system \<Rightarrow> bench_system" where
  "send_stop S = S\<lparr>bs_stop := True, bs_publishers := map (see_stop True) (bs_publishers S)\<rparr>"

datatype bench_label =
    Tick nat
  | Sub_Connect nat
  | Sub_Turn nat subscriber_turn
  | Settle
  | Pub_Connect nat
  | Pub_Turn nat publisher_label
  | Deadline_Start
  | Deadline_Fire
  | Join_Publishers
  | Drain_Over
  | Join_Subscribers

text \<open>A turn of a task happens now, and sees the stop signal only once it is sent.\<close>

definition sub_turn_due :: "bench_system \<Rightarrow> subscriber_turn \<Rightarrow> bool" where
  "sub_turn_due S turn = (case turn of Stop_Seen \<Rightarrow> bs_stop S | Read_Done now \<Rightarrow> now = bs_now S)"

definition pub_turn_due :: "bench_system \<Rightarrow> publisher_label \<Rightarrow> bool" where
  "pub_turn_due S l = (case l of
      Stop_Signal \<Rightarrow> False
    | Read_Turn now \<Rightarrow> now = bs_now S
    | Write_Turn now \<Rightarrow> now = bs_now S
    | Stop_Turn now \<Rightarrow> now = bs_now S
    | Give_Up now \<Rightarrow> now = bs_now S)"

definition sub_connect :: "('tcp, 'tls, 'req) bench_env \<Rightarrow> nat \<Rightarrow> bench_system \<Rightarrow> bench_system option" where
  "sub_connect E i S =
     (case subscriber_start (be_crate E) (be_sub_network E i) (be_os E) (of_nat i) (be_config E) (be_conn E)
         (bs_baseline S) (bs_warmup_until S) (bs_world S) of
        (r, w) \<Rightarrow> (case connected (be_panic E) r of
          None \<Rightarrow> None
        | Some t \<Rightarrow> Some (S\<lparr>bs_world := w, bs_subscribers := (bs_subscribers S)[i := t]\<rparr>)))"

definition pub_connect :: "('tcp, 'tls, 'req) bench_env \<Rightarrow> nat \<Rightarrow> bench_system \<Rightarrow> bench_system option" where
  "pub_connect E i S =
     (case publisher_start (be_crate E) (be_pub_network E i) (be_os E) (of_nat i) (be_config E) (be_conn E)
         (bs_baseline S) (bs_warmup_until S) (bs_now S) (bs_world S) of
        (r, w) \<Rightarrow> (case connected (be_panic E) r of
          None \<Rightarrow> None
        | Some t \<Rightarrow> Some (S\<lparr>bs_world := w, bs_publishers := (bs_publishers S)[i := see_stop (bs_stop S) t]\<rparr>)))"

definition deadline_due :: "('tcp, 'tls, 'req) bench_env \<Rightarrow> nat \<Rightarrow> nat option \<Rightarrow> bool" where
  "deadline_due E now d \<longleftrightarrow> (case d of Some t \<Rightarrow> t \<le> now | None \<Rightarrow> False)
     \<or> (case be_ctrl_c E of Some t \<Rightarrow> t \<le> now | None \<Rightarrow> False)"

definition main_over :: "bench_system \<Rightarrow> bool" where
  "main_over S \<longleftrightarrow> (case bs_main S of Main_Reported ts \<Rightarrow> True | _ \<Rightarrow> False)"

text \<open>A step of the run; nothing moves once the report is out, since the runtime is dropped.\<close>

definition system_turn ::
  "('tcp, 'tls, 'req) bench_env \<Rightarrow> bench_label \<Rightarrow> bench_system \<Rightarrow> bench_system option" where
  "system_turn E l S =
     (if main_over S then None
      else case l of
        Tick d \<Rightarrow> Some (S\<lparr>bs_now := bs_now S + d\<rparr>)
      | Sub_Connect i \<Rightarrow>
          if i < length (bs_subscribers S) \<and> bs_subscribers S ! i = Spawned then sub_connect E i S else None
      | Sub_Turn i turn \<Rightarrow>
          if i < length (bs_subscribers S) \<and> sub_turn_due S turn then
            (case bs_subscribers S ! i of
               Running x s \<Rightarrow> (case subscriber_turn (be_crate E) x turn s of
                 None \<Rightarrow> None
               | Some t \<Rightarrow> Some (S\<lparr>bs_subscribers := (bs_subscribers S)[i := Running x t]\<rparr>))
             | _ \<Rightarrow> None)
          else None
      | Settle \<Rightarrow> (case bs_main S of
          Main_Settling wake \<Rightarrow>
            if wake \<le> bs_now S then
              Some (S\<lparr>bs_main := Main_Publishing, bs_started := bs_now S, bs_deadline := Dl_Spawned,
                bs_publishers := replicate (cf_publishers (be_config E)) Spawned\<rparr>)
            else None
        | _ \<Rightarrow> None)
      | Pub_Connect i \<Rightarrow>
          if i < length (bs_publishers S) \<and> bs_publishers S ! i = Spawned then pub_connect E i S else None
      | Pub_Turn i l \<Rightarrow>
          if i < length (bs_publishers S) \<and> pub_turn_due S l then
            (case bs_publishers S ! i of
               Running x s \<Rightarrow> (case exec_step (be_crate E) x l s of
                 None \<Rightarrow> None
               | Some t \<Rightarrow> Some (S\<lparr>bs_publishers := (bs_publishers S)[i := Running x t]\<rparr>))
             | _ \<Rightarrow> None)
          else None
      | Deadline_Start \<Rightarrow> (case bs_deadline S of
          Dl_Spawned \<Rightarrow> Some (S\<lparr>bs_deadline := Dl_Waiting (map_option ((+) (bs_now S)) (config_deadline (be_config E)))\<rparr>)
        | _ \<Rightarrow> None)
      | Deadline_Fire \<Rightarrow> (case bs_deadline S of
          Dl_Waiting d \<Rightarrow> if deadline_due E (bs_now S) d then Some ((send_stop S)\<lparr>bs_deadline := Dl_Over\<rparr>) else None
        | _ \<Rightarrow> None)
      | Join_Publishers \<Rightarrow> (case bs_main S of
          Main_Publishing \<Rightarrow>
            if list_all (\<lambda>t. pub_handle (be_panic E) t \<noteq> None) (bs_publishers S)
            then Some (S\<lparr>bs_main := Main_Draining (bs_now S)\<rparr>) else None
        | _ \<Rightarrow> None)
      | Drain_Over \<Rightarrow> (case bs_main S of
          Main_Draining joined_at \<Rightarrow>
            if joined_at + cf_drain (be_config E) \<le> bs_now S
            then Some ((send_stop S)\<lparr>bs_deadline := Dl_Over, bs_main := Main_Joining joined_at\<rparr>) else None
        | _ \<Rightarrow> None)
      | Join_Subscribers \<Rightarrow> (case bs_main S of
          Main_Joining joined_at \<Rightarrow>
            if list_all (\<lambda>t. sub_handle t \<noteq> None) (bs_subscribers S)
            then Some (S\<lparr>bs_main := Main_Reported (tasks_of (be_panic E) S joined_at)\<rparr>) else None
        | _ \<Rightarrow> None))"

definition system_step ::
  "('tcp, 'tls, 'req) bench_env \<Rightarrow> bench_system \<Rightarrow> bench_label \<Rightarrow> bench_system \<Rightarrow> bool" where
  "system_step E S l T \<longleftrightarrow> system_turn E l S = Some T"

text \<open>The start: the configuration stands, the warm-up is within the clock's range, the subscribers are spawned.\<close>

definition system_start :: "('tcp, 'tls, 'req) bench_env \<Rightarrow> nat \<Rightarrow> world \<Rightarrow> bench_system option" where
  "system_start E now w = (case instant_add now (cf_warmup (be_config E)) of
      None \<Rightarrow> None
    | Some warmup_until \<Rightarrow> Some \<lparr>bs_now = now, bs_world = w, bs_baseline = now, bs_warmup_until = warmup_until,
        bs_started = 0, bs_stop = False, bs_deadline = Dl_Unborn,
        bs_subscribers = replicate (cf_subscribers (be_config E)) Spawned, bs_publishers = [],
        bs_main = Main_Settling (now + (if 0 < cf_subscribers (be_config E) then SUBSCRIBER_SETTLE else 0))\<rparr>)"

definition system_init :: "('tcp, 'tls, 'req) bench_env \<Rightarrow> bench_system \<Rightarrow> bool" where
  "system_init E S \<longleftrightarrow> (\<exists>now w. system_start E now w = Some S)"

section \<open>The invariant\<close>

text \<open>A task that runs was started and stepped as \<^const>\<open>publisher_start\<close> and \<^const>\<open>publisher_step\<close> say.\<close>

definition pub_traced ::
  "('tcp, 'tls, 'req) bench_env \<Rightarrow> nat \<Rightarrow> nat \<Rightarrow> nat \<Rightarrow> publisher_setup \<Rightarrow> publisher \<Rightarrow> bool" where
  "pub_traced E baseline warmup_until i x s \<longleftrightarrow> (\<exists>now w s\<^sub>0 w' ls.
     publisher_start (be_crate E) (be_pub_network E i) (be_os E) (of_nat i) (be_config E) (be_conn E)
       baseline warmup_until now w = (Return (x, s\<^sub>0), w')
     \<and> steps (publisher_step (be_crate E) x) s\<^sub>0 ls s)"

definition sub_traced ::
  "('tcp, 'tls, 'req) bench_env \<Rightarrow> nat \<Rightarrow> nat \<Rightarrow> nat \<Rightarrow> subscriber_setup \<Rightarrow> subscriber \<Rightarrow> bool" where
  "sub_traced E baseline warmup_until i x s \<longleftrightarrow> (\<exists>w s\<^sub>0 w' turns.
     subscriber_start (be_crate E) (be_sub_network E i) (be_os E) (of_nat i) (be_config E) (be_conn E)
       baseline warmup_until w = (Return (x, s\<^sub>0), w')
     \<and> subscriber_loop (be_crate E) x turns s\<^sub>0 = Some s)"

text \<open>The run is past its time limit, or past Ctrl-C.\<close>

definition cut_short :: "('tcp, 'tls, 'req) bench_env \<Rightarrow> bench_system \<Rightarrow> bool" where
  "cut_short E S \<longleftrightarrow> (\<exists>t. be_ctrl_c E = Some t \<and> t \<le> bs_now S)
     \<or> (\<exists>d. config_deadline (be_config E) = Some d \<and> bs_started S + d \<le> bs_now S)"

definition pub_fine :: "('tcp, 'tls, 'req) bench_env \<Rightarrow> bench_system \<Rightarrow> nat \<Rightarrow> publisher_task \<Rightarrow> bool" where
  "pub_fine E S i t \<longleftrightarrow> (case t of
      Spawned \<Rightarrow> True
    | Gone h \<Rightarrow> (\<forall>sm. h \<noteq> Finished (Inr sm))
    | Running x s \<Rightarrow> pb_stop s = bs_stop S \<and> pub_traced E (bs_baseline S) (bs_warmup_until S) i x s
        \<and> (\<forall>sm q. pb_phase s = Done_With (Inr sm) \<longrightarrow> \<not> cut_short E S
             \<longrightarrow> quota_for (be_config E) (unat (of_nat i :: u32)) = Some q \<longrightarrow> length (publishes s) = unat q))"

definition sub_fine :: "('tcp, 'tls, 'req) bench_env \<Rightarrow> bench_system \<Rightarrow> nat \<Rightarrow> subscriber_task \<Rightarrow> bool" where
  "sub_fine E S i t \<longleftrightarrow> (case t of
      Spawned \<Rightarrow> True
    | Gone h \<Rightarrow> (\<forall>sm. h \<noteq> Finished (Inr sm))
    | Running x s \<Rightarrow> sub_traced E (bs_baseline S) (bs_warmup_until S) i x s
        \<and> (\<forall>sm. sb_phase s = Sub_Done (Inr sm) \<longrightarrow> bs_stop S))"

definition pubs_joined :: "('tcp, 'tls, 'req) bench_env \<Rightarrow> bench_system \<Rightarrow> bool" where
  "pubs_joined E S \<longleftrightarrow> list_all (\<lambda>t. pub_handle (be_panic E) t \<noteq> None) (bs_publishers S)"

definition subs_joined :: "bench_system \<Rightarrow> bool" where
  "subs_joined S \<longleftrightarrow> list_all (\<lambda>t. sub_handle t \<noteq> None) (bs_subscribers S)"

definition main_fine :: "('tcp, 'tls, 'req) bench_env \<Rightarrow> bench_system \<Rightarrow> bool" where
  "main_fine E S \<longleftrightarrow> (case bs_main S of
      Main_Settling wake \<Rightarrow> \<not> bs_stop S \<and> bs_publishers S = [] \<and> bs_deadline S = Dl_Unborn
    | Main_Publishing \<Rightarrow> (bs_stop S \<longrightarrow> cut_short E S)
    | Main_Draining j \<Rightarrow> pubs_joined E S \<and> bs_started S \<le> j \<and> j \<le> bs_now S \<and> (bs_stop S \<longrightarrow> cut_short E S)
    | Main_Joining j \<Rightarrow> pubs_joined E S \<and> bs_started S \<le> j \<and> j + cf_drain (be_config E) \<le> bs_now S \<and> bs_stop S
    | Main_Reported ts \<Rightarrow> (\<exists>j. pubs_joined E S \<and> subs_joined S \<and> bs_started S \<le> j
        \<and> j + cf_drain (be_config E) \<le> bs_now S \<and> bs_stop S \<and> ts = tasks_of (be_panic E) S j))"

definition born :: "('tcp, 'tls, 'req) bench_env \<Rightarrow> bench_system \<Rightarrow> bool" where
  "born E S \<longleftrightarrow> (\<forall>wake. bs_main S \<noteq> Main_Settling wake) \<longrightarrow>
     length (bs_publishers S) = cf_publishers (be_config E) \<and> bs_started S \<le> bs_now S
     \<and> (\<forall>t. bs_deadline S = Dl_Waiting (Some t) \<longrightarrow>
          (\<exists>d. config_deadline (be_config E) = Some d \<and> bs_started S + d \<le> t))"

definition system_inv :: "('tcp, 'tls, 'req) bench_env \<Rightarrow> bench_system \<Rightarrow> bool" where
  "system_inv E S \<longleftrightarrow> (\<forall>i. fresh_streams (be_pub_network E i)) \<and> main_fine E S \<and> born E S
     \<and> (\<forall>i < length (bs_publishers S). pub_fine E S i (bs_publishers S ! i))
     \<and> (\<forall>i < length (bs_subscribers S). sub_fine E S i (bs_subscribers S ! i))
     \<and> length (bs_subscribers S) = cf_subscribers (be_config E)"

subsection \<open>Tasks that are over stay as they are\<close>

lemma over_stays:
  assumes "exec_step P x l s = Some t" "pub_handle msg (Running x s) = Some h"
  shows "pb_phase t = pb_phase s" "publishes t = publishes s"
proof -
  have "pb_phase t = pb_phase s \<and> publishes t = publishes s"
  proof (cases l)
    case (Read_Turn now)
    then have "read_side P x now s = Some t" using assms(1) by (simp add: exec_step_def)
    then show ?thesis using read_side_frame written_simps(1) by metis
  qed (use assms in \<open>auto simp: exec_step_def pub_handle_def write_side_def stop_arm_def join_timeout_def publishes_def
      split: write_phase.splits if_splits\<close>)
  then show "pb_phase t = pb_phase s" "publishes t = publishes s" by auto
qed

lemma pub_handle_stays:
  assumes "exec_step P x l s = Some t" "pub_handle msg (Running x s) \<noteq> None"
  shows "pub_handle msg (Running x t) \<noteq> None"
  using over_stays [OF assms(1)] assms(2) by (auto simp: pub_handle_def split: write_phase.splits)

lemma see_stop_simps [simp]:
  "see_stop b Spawned = Spawned" "see_stop b (Gone h) = Gone h"
  "see_stop b (Running x s) = Running x (s\<lparr>pb_stop := b\<rparr>)"
  by (simp_all add: see_stop_def)

lemma pub_handle_see_stop [simp]: "pub_handle msg (see_stop b t) = pub_handle msg t"
  by (cases t) (auto simp: pub_handle_def)

text \<open>What a traced publisher has kept.\<close>

lemma traced_invariants:
  assumes "pub_traced E b wu i x s" "fresh_streams (be_pub_network E i)"
  shows "log_inv x s" "acks_inv x s" "exit_inv x s" "px_config x = be_config E" "px_index x = of_nat i"
proof -
  obtain now w s\<^sub>0 w' ls
    where start: "publisher_start (be_crate E) (be_pub_network E i) (be_os E) (of_nat i) (be_config E) (be_conn E)
        b wu now w = (Return (x, s\<^sub>0), w')" and run: "steps (publisher_step (be_crate E) x) s\<^sub>0 ls s"
    using assms(1) by (auto simp: pub_traced_def)
  note x = publisher_start_Return [OF assms(2) start]
  show "log_inv x s" "acks_inv x s" "exit_inv x s"
    using publisher_log.steps_inv [OF run] publisher_log.inv_init [OF x(1)]
      publisher_acks.steps_inv [OF run] publisher_acks.inv_init [OF x(1)]
      publisher_exit.steps_inv [OF run] publisher_exit.inv_init [OF x(1)] by blast+
  show "px_config x = be_config E" "px_index x = of_nat i" using x by simp_all
qed

lemma pub_traced_step:
  "pub_traced E b wu i x s \<Longrightarrow> publisher_step (be_crate E) x s l t \<Longrightarrow> pub_traced E b wu i x t"
  unfolding pub_traced_def by (blast intro: steps_snoc)

lemma pub_traced_stop: "pub_traced E b wu i x s \<Longrightarrow> pub_traced E b wu i x (s\<lparr>pb_stop := True\<rparr>)"
  using pub_traced_step [OF _ stop_signal] by blast

lemma sub_traced_turn:
  assumes "sub_traced E b wu i x s" "subscriber_turn (be_crate E) x turn s = Some t"
  shows "sub_traced E b wu i x t"
proof -
  have loop: "subscriber_loop P x (turns @ [turn]) s0 = Some t"
    if "subscriber_loop P x turns s0 = Some s" "subscriber_turn P x turn s = Some t" for P turns s0
    using that by (induction turns arbitrary: s0) (auto split: option.splits)
  show ?thesis using assms loop unfolding sub_traced_def by blast
qed

subsection \<open>Every step keeps it\<close>

lemma pub_fine_mono:
  assumes "pub_fine E S i t" "bs_stop T = bs_stop S" "bs_baseline T = bs_baseline S"
    and "bs_warmup_until T = bs_warmup_until S" "cut_short E S \<longrightarrow> cut_short E T"
  shows "pub_fine E T i t"
  using assms by (auto simp: pub_fine_def split: task.splits)

lemma sub_fine_mono:
  assumes "sub_fine E S i t" "bs_stop S \<longrightarrow> bs_stop T" "bs_baseline T = bs_baseline S"
    and "bs_warmup_until T = bs_warmup_until S"
  shows "sub_fine E T i t"
  using assms by (auto simp: sub_fine_def split: task.splits)

lemma pub_fine_see_stop:
  assumes "pub_fine E S i t" "bs_stop T" "bs_baseline T = bs_baseline S"
    and "bs_warmup_until T = bs_warmup_until S" "cut_short E S \<longrightarrow> cut_short E T"
  shows "pub_fine E T i (see_stop True t)"
  using assms pub_traced_stop by (cases t) (auto simp: pub_fine_def publishes_def)

lemma system_inv_init:
  assumes "system_init E S" "\<forall>i. fresh_streams (be_pub_network E i)"
  shows "system_inv E S"
  using assms
  by (auto simp: system_init_def system_start_def system_inv_def main_fine_def born_def sub_fine_def split: option.splits)

lemma cut_short_now: "cut_short E S \<longrightarrow> cut_short E (S\<lparr>bs_now := bs_now S + d\<rparr>)"
  by (auto simp: cut_short_def)

lemma system_inv_tick:
  assumes inv: "system_inv E S" and "\<not> main_over S"
  shows "system_inv E (S\<lparr>bs_now := bs_now S + d\<rparr>)"
proof -
  let ?T = "S\<lparr>bs_now := bs_now S + d\<rparr>"
  have "main_fine E ?T"
    using assms cut_short_now [of E S d]
    by (auto simp: system_inv_def main_fine_def main_over_def pubs_joined_def split: main_phase.splits)
  moreover have "born E ?T" using inv by (auto simp: system_inv_def born_def)
  moreover have "pub_fine E ?T j u" if "pub_fine E S j u" for j u
    by (rule pub_fine_mono [OF that]) (auto simp: cut_short_def)
  moreover have "sub_fine E ?T j u" if "sub_fine E S j u" for j u
    by (rule sub_fine_mono [OF that]) (auto)
  ultimately show ?thesis using inv by (auto simp: system_inv_def)
qed

text \<open>Replacing one task changes no condition on the others.\<close>

lemma system_inv_sub:
  assumes inv: "system_inv E S" and "\<not> main_over S" "sub_fine E S i t"
    and T: "T = S\<lparr>bs_world := w, bs_subscribers := (bs_subscribers S)[i := t]\<rparr>"
  shows "system_inv E T"
proof -
  have "main_fine E T"
    using inv assms(2) by (auto simp: T system_inv_def main_fine_def main_over_def pubs_joined_def cut_short_def split: main_phase.splits)
  moreover have "born E T" using inv by (auto simp: T system_inv_def born_def)
  moreover have "sub_fine E S j ((bs_subscribers S)[i := t] ! j)" if "j < length (bs_subscribers S)" for j
    using that inv assms(3) by (cases "j = i") (auto simp: system_inv_def)
  moreover have "pub_fine E T j u" if "pub_fine E S j u" for j u
    by (rule pub_fine_mono [OF that]) (auto simp: T cut_short_def)
  moreover have "sub_fine E T j u" if "sub_fine E S j u" for j u
    by (rule sub_fine_mono [OF that]) (auto simp: T)
  ultimately show ?thesis using inv by (auto simp: T system_inv_def)
qed

lemma system_inv_pub:
  assumes inv: "system_inv E S" and "\<not> main_over S" "i < length (bs_publishers S)" "pub_fine E S i t"
    and "pub_handle (be_panic E) (bs_publishers S ! i) \<noteq> None \<Longrightarrow> pub_handle (be_panic E) t \<noteq> None"
    and T: "T = S\<lparr>bs_world := w, bs_publishers := (bs_publishers S)[i := t]\<rparr>"
  shows "system_inv E T"
proof -
  have "pubs_joined E T" if "pubs_joined E S"
    using that assms(5,3) by (auto simp: T pubs_joined_def list_all_length nth_list_update)
  then have "main_fine E T"
    using inv assms(2,3) by (auto simp: T system_inv_def main_fine_def main_over_def cut_short_def split: main_phase.splits)
  moreover have "born E T" using inv by (auto simp: T system_inv_def born_def)
  moreover have "pub_fine E S j ((bs_publishers S)[i := t] ! j)" if "j < length (bs_publishers S)" for j
    using that inv assms(4) by (cases "j = i") (auto simp: system_inv_def)
  moreover have "pub_fine E T j u" if "pub_fine E S j u" for j u
    by (rule pub_fine_mono [OF that]) (auto simp: T cut_short_def)
  moreover have "sub_fine E T j u" if "sub_fine E S j u" for j u
    by (rule sub_fine_mono [OF that]) (auto simp: T)
  ultimately show ?thesis using inv by (auto simp: T system_inv_def)
qed

lemma sub_turn_fine:
  assumes "sub_fine E S i (Running x s)" "subscriber_turn (be_crate E) x turn s = Some t" "sub_turn_due S turn"
  shows "sub_fine E S i (Running x t)"
proof -
  have "\<not> (\<exists>sm. sb_phase (write_reply x r u) = Sub_Done (Inr sm))" if "sb_phase u = Receiving" for r u
    using that by (rule_tac write_reply_cases [of x r u]) auto
  then have "bs_stop S" if "sb_phase t = Sub_Done (Inr sm)" for sm
    using that assms(2,3)
    by (auto simp: subscriber_turn_def sub_turn_due_def receive_packet_def Let_def
        split: subscriber_phase.splits subscriber_turn.splits prod.splits outcome.splits read_outcome.splits packet.splits)
  then show ?thesis using assms sub_traced_turn by (auto simp: sub_fine_def)
qed

lemma pub_turn_fine:
  assumes inv: "system_inv E S" and i: "i < length (bs_publishers S)" "bs_publishers S ! i = Running x s"
    and step: "exec_step (be_crate E) x l s = Some t" and due: "pub_turn_due S l"
  shows "pub_fine E S i (Running x t)"
proof -
  have fine: "pub_fine E S i (Running x s)" and fresh: "fresh_streams (be_pub_network E i)" and main: "main_fine E S"
    using inv i by (auto simp: system_inv_def)
  have stop: "pb_stop t = pb_stop s"
    using publisher_step_stop [of "be_crate E" x s l t] step due by (auto simp: publisher_step_exec pub_turn_due_def)
  have traced: "pub_traced E (bs_baseline S) (bs_warmup_until S) i x t"
    using fine pub_traced_step publisher_step_exec step by (fastforce simp: pub_fine_def)
  have "length (publishes t) = unat q"
    if fin: "pb_phase t = Done_With (Inr sm)" and cut: "\<not> cut_short E S"
      and q: "quota_for (be_config E) (unat (of_nat i :: u32)) = Some q" for sm q
  proof (cases "pub_handle (be_panic E) (Running x s) = None")
    case True
    then have "\<not> pubs_joined E S" using i by (auto simp: pubs_joined_def list_all_length)
    then have "\<not> bs_stop S" using main cut by (auto simp: main_fine_def split: main_phase.splits)
    then have "\<not> pb_stop t" using fine stop by (simp add: pub_fine_def)
    then show ?thesis
      using unstopped_publishes_quota [OF traced_invariants(1-3) [OF traced fresh] fin] q
        traced_invariants(4,5) [OF traced fresh] by simp
  next
    case False
    then obtain h where "pub_handle (be_panic E) (Running x s) = Some h" by blast
    then have "pb_phase s = Done_With (Inr sm)" "publishes t = publishes s"
      using over_stays [OF step] fin by metis+
    then show ?thesis using fine cut q by (auto simp: pub_fine_def)
  qed
  then show ?thesis using fine stop traced by (auto simp: pub_fine_def)
qed

lemma system_inv_send:
  assumes inv: "system_inv E S" and cut: "main_over S = False" "\<forall>wake. bs_main S \<noteq> Main_Settling wake"
    and T: "T = (send_stop S)\<lparr>bs_deadline := Dl_Over, bs_main := m\<rparr>"
    and m: "m = bs_main S \<and> cut_short E S
      \<or> (\<exists>j. bs_main S = Main_Draining j \<and> m = Main_Joining j \<and> j + cf_drain (be_config E) \<le> bs_now S)"
  shows "system_inv E T"
proof -
  have joined: "pubs_joined E T = pubs_joined E S"
    by (simp add: T send_stop_def pubs_joined_def list.pred_map comp_def)
  have cuts: "cut_short E T = cut_short E S" by (simp add: T send_stop_def cut_short_def)
  have "main_fine E T"
    using inv m cut joined cuts
    by (auto simp: system_inv_def main_fine_def main_over_def T [unfolded send_stop_def] split: main_phase.splits)
  moreover have "born E T" using inv cut m by (auto simp: system_inv_def born_def T send_stop_def)
  moreover have "pub_fine E T j (see_stop True u)" if "pub_fine E S j u" for j u
    by (rule pub_fine_see_stop [OF that]) (simp_all add: cuts, simp_all add: T send_stop_def)
  moreover have "sub_fine E T j u" if "sub_fine E S j u" for j u
    by (rule sub_fine_mono [OF that]) (auto simp: T send_stop_def)
  ultimately show ?thesis using inv by (auto simp: system_inv_def T send_stop_def)
qed

text \<open>The steps of the main task and of the deadline task that touch no other task.\<close>

lemma system_inv_main:
  assumes inv: "system_inv E S" and T: "T = S\<lparr>bs_main := m, bs_deadline := dl\<rparr>" "main_fine E T" "born E T"
  shows "system_inv E T"
proof -
  have "pub_fine E T j u" if "pub_fine E S j u" for j u
    by (rule pub_fine_mono [OF that]) (auto simp: T(1) cut_short_def)
  moreover have "sub_fine E T j u" if "sub_fine E S j u" for j u
    by (rule sub_fine_mono [OF that]) (auto simp: T(1))
  ultimately show ?thesis using inv T by (auto simp: system_inv_def)
qed

lemma connected_cases:
  assumes "connected msg r = Some t"
  obtains (up) x s where "r = Return (x, s)" "t = Running x s"
  | (down) h where "t = Gone h" "\<forall>sm. h \<noteq> Finished (Inr sm)"
  using assms by (cases r) (auto simp: connected_def)

lemma sub_connect_fine:
  assumes "sub_connect E i S = Some T"
  obtains t w where "T = S\<lparr>bs_world := w, bs_subscribers := (bs_subscribers S)[i := t]\<rparr>" "sub_fine E S i t"
proof -
  obtain r w t where st: "subscriber_start (be_crate E) (be_sub_network E i) (be_os E) (of_nat i) (be_config E) (be_conn E)
         (bs_baseline S) (bs_warmup_until S) (bs_world S) = (r, w)" and con: "connected (be_panic E) r = Some t"
    and T: "T = S\<lparr>bs_world := w, bs_subscribers := (bs_subscribers S)[i := t]\<rparr>"
    using assms by (auto simp: sub_connect_def split: prod.splits option.splits)
  from con have "sub_fine E S i t"
  proof (cases rule: connected_cases)
    case (up x s)
    then have "sub_traced E (bs_baseline S) (bs_warmup_until S) i x s"
      unfolding sub_traced_def using st by (intro exI [of _ "bs_world S"] exI [of _ s] exI [of _ w] exI [of _ "[]"]) simp
    moreover have "sb_phase s = Receiving"
      using st up by (auto simp: subscriber_start_def bind_Return_iff)
    ultimately show ?thesis using up by (simp add: sub_fine_def)
  qed (simp add: sub_fine_def)
  then show ?thesis using T that by blast
qed

lemma pub_connect_fine:
  assumes "pub_connect E i S = Some T"
  obtains t w where "T = S\<lparr>bs_world := w, bs_publishers := (bs_publishers S)[i := t]\<rparr>" "pub_fine E S i t"
proof -
  obtain r w t where st: "publisher_start (be_crate E) (be_pub_network E i) (be_os E) (of_nat i) (be_config E) (be_conn E)
         (bs_baseline S) (bs_warmup_until S) (bs_now S) (bs_world S) = (r, w)" and con: "connected (be_panic E) r = Some t"
    and T: "T = S\<lparr>bs_world := w, bs_publishers := (bs_publishers S)[i := see_stop (bs_stop S) t]\<rparr>"
    using assms by (auto simp: pub_connect_def split: prod.splits option.splits)
  from con have "pub_fine E S i (see_stop (bs_stop S) t)"
  proof (cases rule: connected_cases)
    case (up x s)
    then have new: "s = publisher_initial (pb_stream s) (pb_permits s)"
      using st by (auto simp: publisher_start_def bind_Return_iff Let_def publisher_initial_def split: option.splits)
    then have s: "pb_stop s = False" "pb_phase s = Draining" by (simp_all add: publisher_initial_def) (metis new publisher_initial_def publisher.simps)+
    have same: "s\<lparr>pb_stop := False\<rparr> = s" using s by (cases s) simp
    have "pub_traced E (bs_baseline S) (bs_warmup_until S) i x s"
      unfolding pub_traced_def using st up
      by (intro exI [of _ "bs_now S"] exI [of _ "bs_world S"] exI [of _ s] exI [of _ w] exI [of _ "[]"])
        (simp add: steps_nil)
    then have "pub_traced E (bs_baseline S) (bs_warmup_until S) i x (s\<lparr>pb_stop := bs_stop S\<rparr>)"
      using pub_traced_stop same by (cases "bs_stop S") auto
    then show ?thesis using up s by (simp add: pub_fine_def)
  qed (simp add: pub_fine_def)
  then show ?thesis using T that by blast
qed

lemma system_inv_step:
  assumes inv: "system_inv E S" and step: "system_step E S l T"
  shows "system_inv E T"
proof -
  have run: "\<not> main_over S" using step by (auto simp: system_step_def system_turn_def split: if_splits)
  have main: "main_fine E S" and born: "born E S" using inv by (auto simp: system_inv_def)
  note turn = step [unfolded system_step_def system_turn_def if_not_P [OF run]]
  show ?thesis
  proof (cases l)
    case (Tick d)
    then show ?thesis using turn system_inv_tick [OF inv run] by auto
  next
    case (Sub_Connect i)
    then have "sub_connect E i S = Some T" using turn by (simp split: if_splits)
    then show ?thesis by (rule sub_connect_fine) (rule system_inv_sub [OF inv run])
  next
    case (Sub_Turn i u)
    then obtain x s t where i: "i < length (bs_subscribers S)" "bs_subscribers S ! i = Running x s"
      and t: "subscriber_turn (be_crate E) x u s = Some t" "sub_turn_due S u"
      and T: "T = S\<lparr>bs_subscribers := (bs_subscribers S)[i := Running x t]\<rparr>"
      using turn by (auto split: if_splits task.splits option.splits)
    have "sub_fine E S i (Running x s)" using inv i by (auto simp: system_inv_def)
    from system_inv_sub [OF inv run sub_turn_fine [OF this t], of T "bs_world S"] show ?thesis
      using T by simp
  next
    case Settle
    then obtain wake where m: "bs_main S = Main_Settling wake"
      and T: "T = S\<lparr>bs_main := Main_Publishing, bs_started := bs_now S, bs_deadline := Dl_Spawned,
                bs_publishers := replicate (cf_publishers (be_config E)) Spawned\<rparr>"
      using turn by (auto split: if_splits main_phase.splits)
    have "sub_fine E T j u" if "sub_fine E S j u" for j u
      by (rule sub_fine_mono [OF that]) (auto simp: T)
    then show ?thesis using inv m
      by (auto simp: T system_inv_def main_fine_def born_def pub_fine_def)
  next
    case (Pub_Connect i)
    then have i: "i < length (bs_publishers S)" "bs_publishers S ! i = Spawned" and "pub_connect E i S = Some T"
      using turn by (simp_all split: if_splits)
    from this(3) obtain t w where T: "T = S\<lparr>bs_world := w, bs_publishers := (bs_publishers S)[i := t]\<rparr>"
      and t: "pub_fine E S i t" by (rule pub_connect_fine)
    show ?thesis by (rule system_inv_pub [OF inv run i(1) t _ T]) (simp add: i pub_handle_def)
  next
    case (Pub_Turn i u)
    then obtain x s t where i: "i < length (bs_publishers S)" "bs_publishers S ! i = Running x s"
      and t: "exec_step (be_crate E) x u s = Some t" "pub_turn_due S u"
      and T: "T = S\<lparr>bs_publishers := (bs_publishers S)[i := Running x t]\<rparr>"
      using turn by (auto split: if_splits task.splits option.splits)
    have T': "T = S\<lparr>bs_world := bs_world S, bs_publishers := (bs_publishers S)[i := Running x t]\<rparr>"
      using T by simp
    show ?thesis
      using pub_handle_stays [OF t(1)] i(2)
      by (intro system_inv_pub [OF inv run i(1) pub_turn_fine [OF inv i t] _ T']) simp
  next
    case Deadline_Start
    then have T: "T = S\<lparr>bs_main := bs_main S, bs_deadline :=
        Dl_Waiting (map_option ((+) (bs_now S)) (config_deadline (be_config E)))\<rparr>" and d: "bs_deadline S = Dl_Spawned"
      using turn by (auto split: deadline_task.splits)
    have "main_fine E T" using main d
      by (auto simp: T main_fine_def pubs_joined_def subs_joined_def cut_short_def tasks_of_def total_counters_def
          split: main_phase.splits)
    moreover have "born E T" using born by (auto simp: T born_def)
    ultimately show ?thesis by (intro system_inv_main [OF inv T])
  next
    case Deadline_Fire
    then obtain d where d: "bs_deadline S = Dl_Waiting d" "deadline_due E (bs_now S) d"
      and T: "T = (send_stop S)\<lparr>bs_deadline := Dl_Over, bs_main := bs_main S\<rparr>"
      using turn by (auto simp: send_stop_def split: if_splits deadline_task.splits)
    have born': "\<forall>wake. bs_main S \<noteq> Main_Settling wake" using main d(1) by (auto simp: main_fine_def)
    have "cut_short E S"
      using d born born' by (auto simp: deadline_due_def cut_short_def born_def split: option.splits)
    then show ?thesis by (intro system_inv_send [OF inv _ born' T]) (use run in auto)
  next
    case Join_Publishers
    then have m: "bs_main S = Main_Publishing" "pubs_joined E S"
      and T: "T = S\<lparr>bs_main := Main_Draining (bs_now S), bs_deadline := bs_deadline S\<rparr>"
      using turn by (auto simp: pubs_joined_def split: if_splits main_phase.splits)
    have "main_fine E T" "born E T" using main born m
      by (auto simp: T main_fine_def born_def pubs_joined_def cut_short_def)
    then show ?thesis by (intro system_inv_main [OF inv T])
  next
    case Drain_Over
    then obtain j where m: "bs_main S = Main_Draining j" "j + cf_drain (be_config E) \<le> bs_now S"
      and T: "T = (send_stop S)\<lparr>bs_deadline := Dl_Over, bs_main := Main_Joining j\<rparr>"
      using turn by (auto split: if_splits main_phase.splits)
    show ?thesis by (rule system_inv_send [OF inv _ _ T]) (use m run in auto)
  next
    case Join_Subscribers
    then obtain j where m: "bs_main S = Main_Joining j" "subs_joined S"
      and T: "T = S\<lparr>bs_main := Main_Reported (tasks_of (be_panic E) S j), bs_deadline := bs_deadline S\<rparr>"
      using turn by (auto simp: subs_joined_def split: if_splits main_phase.splits)
    have "main_fine E T" "born E T" using main born m
      by (auto simp: T main_fine_def born_def pubs_joined_def subs_joined_def tasks_of_def total_counters_def)
    then show ?thesis by (intro system_inv_main [OF inv T])
  qed
qed

interpretation bench: inductive_invariant
    "\<lambda>S. (\<forall>i. fresh_streams (be_pub_network E i)) \<and> system_init E S" "system_step E" "system_inv E" for E
  by unfold_locales (auto intro: system_inv_init system_inv_step)

text \<open>A run: from a start, by steps of the system.\<close>

lemma run_inv:
  assumes "system_init E S\<^sub>0" "steps (system_step E) S\<^sub>0 ls S" "\<forall>i. fresh_streams (be_pub_network E i)"
  shows "system_inv E S"
  using bench.steps_inv [OF assms(2)] bench.inv_init [of E S\<^sub>0] assms(1,3) by blast

section \<open>Properties\<close>

definition task_messages :: "publisher_task \<Rightarrow> publish_packet list" where
  "task_messages t = (case t of Running x s \<Rightarrow> publishes s | _ \<Rightarrow> [])"

lemma pub_handle_success:
  assumes "pub_fine E S i t" "pub_handle msg t = Some (Finished (Inr sm))"
  obtains x s where "t = Running x s" "pb_phase s = Done_With (Inr sm)"
  using assms by (auto simp: pub_fine_def pub_handle_def split: task.splits write_phase.splits)

lemma all_well_handles:
  assumes "all_well (map (\<lambda>t. the (h t)) ts)" "list_all (\<lambda>t. h t \<noteq> None) ts" "i < length ts"
  shows "\<exists>sm. h (ts ! i) = Some (Finished (Inr sm))"
proof -
  obtain r where "h (ts ! i) = Some r" using assms(2,3) by (auto simp: list_all_length)
  moreover have "case the (h (ts ! i)) of Finished (Inr s) \<Rightarrow> True | _ \<Rightarrow> False"
    using assms(1,3) by (auto simp: all_well_def list_all_length)
  ultimately show ?thesis by (auto split: joined.splits sum.splits)
qed

lemma inv_pub: "system_inv E S \<Longrightarrow> i < length (bs_publishers S) \<Longrightarrow> pub_fine E S i (bs_publishers S ! i)"
  by (simp add: system_inv_def)

lemma inv_sub: "system_inv E S \<Longrightarrow> i < length (bs_subscribers S) \<Longrightarrow> sub_fine E S i (bs_subscribers S ! i)"
  by (simp add: system_inv_def)

lemma total_sum:
  assumes "f counters_zero = (0 :: u64)" "\<And>c d. f (counters_add c d) = f c + f d"
  shows "f (total_counters S) = (\<Sum>t\<leftarrow>bs_publishers S. f (pub_counters t)) + (\<Sum>t\<leftarrow>bs_subscribers S. f (sub_counters t))"
proof -
  have "f (foldr counters_add cs counters_zero) = sum_list (map f cs)" for cs
    by (induction cs) (simp_all add: assms)
  then show ?thesis by (simp add: total_counters_def comp_def del: foldr_append)
qed

text \<open>Each sum on its own.\<close>

lemmas total_sums = total_sum [of ct_published] total_sum [of ct_bytes_sent] total_sum [of ct_received]
  total_sum [of ct_bytes_received]

lemma subscriber_publishes_nothing:
  assumes "sub_traced E b wu i x s"
  shows "ct_published (sb_counters s) = 0" "ct_bytes_sent (sb_counters s) = 0"
proof -
  let ?same = "\<lambda>s t. ct_published (sb_counters t) = ct_published (sb_counters s) \<and> ct_bytes_sent (sb_counters t) = ct_bytes_sent (sb_counters s)"
  have "?same s (receive_packet P x now p s)" for P x now p s
    by (cases p) (auto simp: receive_packet_def Let_def write_reply_def split: option.splits prod.splits outcome.splits)
  then have turn: "?same s t" if "subscriber_turn P x u s = Some t" for P x u s t
    using that by (auto simp: subscriber_turn_def split: subscriber_phase.splits subscriber_turn.splits prod.splits
        outcome.splits read_outcome.splits)
  have loop: "?same s t" if "subscriber_loop P x us s = Some t" for P x us s t
    using that turn by (induction us arbitrary: s) (auto split: option.splits)
  obtain w s\<^sub>0 w' us where "subscriber_start (be_crate E) (be_sub_network E i) (be_os E) (of_nat i) (be_config E) (be_conn E)
      b wu w = (Return (x, s\<^sub>0), w')" and "subscriber_loop (be_crate E) x us s\<^sub>0 = Some s"
    using assms by (auto simp: sub_traced_def)
  then show "ct_published (sb_counters s) = 0" "ct_bytes_sent (sb_counters s) = 0"
    using loop by (auto simp: subscriber_start_def bind_Return_iff counters_zero_def)
qed

lemma reported_published:
  assumes "system_inv E S"
  shows "ct_published (total_counters S) = of_nat (\<Sum>t\<leftarrow>bs_publishers S. length (task_messages t))"
proof -
  have "ct_published (sub_counters t) = 0" if t: "t \<in> set (bs_subscribers S)" for t
  proof (cases t)
    case (Running x s)
    obtain i where i: "i < length (bs_subscribers S)" "bs_subscribers S ! i = t" using t unfolding in_set_conv_nth by blast
    have "sub_fine E S i (Running x s)" using inv_sub [OF assms i(1)] i(2) Running by simp
    then have "sub_traced E (bs_baseline S) (bs_warmup_until S) i x s" by (simp add: sub_fine_def)
    then show ?thesis using Running subscriber_publishes_nothing by (auto simp: sub_counters_def)
  qed (simp_all add: sub_counters_def counters_zero_def)
  moreover have "ct_published (pub_counters t) = of_nat (length (task_messages t))" if t: "t \<in> set (bs_publishers S)" for t
  proof (cases t)
    case (Running x s)
    obtain i where i: "i < length (bs_publishers S)" "bs_publishers S ! i = t" using t unfolding in_set_conv_nth by blast
    have "pub_fine E S i (Running x s)" "fresh_streams (be_pub_network E i)"
      using inv_pub [OF assms i(1)] i(2) Running assms by (simp_all add: system_inv_def)
    then have "pub_traced E (bs_baseline S) (bs_warmup_until S) i x s" "fresh_streams (be_pub_network E i)"
      by (simp_all add: pub_fine_def)
    from traced_invariants(1) [OF this] show ?thesis
      using Running by (simp add: log_inv_def pub_counters_def task_messages_def)
  qed (simp_all add: pub_counters_def task_messages_def counters_zero_def)
  ultimately have "ct_published (total_counters S) = (\<Sum>t\<leftarrow>bs_publishers S. of_nat (length (task_messages t)))"
    by (simp add: total_sums counters_zero_def counters_add_def cong: map_cong)
  moreover have "of_nat (\<Sum>t\<leftarrow>ts. f t) = (\<Sum>t\<leftarrow>ts. of_nat (f t) :: u64)" for f and ts :: "publisher_task list"
    by (induction ts) simp_all
  ultimately show ?thesis by simp
qed

text \<open>What a report of success says of the publishers.\<close>

lemma reported_success:
  assumes "system_inv E S" "bs_main S = Main_Reported ts" "success (bench_report (be_crate E) (be_config E) ts)"
    and "i < cf_publishers (be_config E)"
  obtains x s sm where "bs_publishers S ! i = Running x s" "pb_phase s = Done_With (Inr sm)"
proof -
  obtain j where "pubs_joined E S" "ts = tasks_of (be_panic E) S j"
    using assms(1,2) by (auto simp: system_inv_def main_fine_def)
  moreover have len: "length (bs_publishers S) = cf_publishers (be_config E)"
    using assms(1,2) by (auto simp: system_inv_def born_def)
  moreover have "all_well (bt_publishers ts)" using assms(3) by (simp add: bench_report_success)
  ultimately obtain sm where "pub_handle (be_panic E) (bs_publishers S ! i) = Some (Finished (Inr sm))"
    using all_well_handles [of "pub_handle (be_panic E)" "bs_publishers S" i] assms(4)
    by (auto simp: tasks_of_def pubs_joined_def)
  moreover have "pub_fine E S i (bs_publishers S ! i)" using assms(1,4) len by (auto simp: system_inv_def)
  ultimately show ?thesis using pub_handle_success that by metis
qed

text \<open>The count of a run that reports success and was not cut short.\<close>

lemma reported_count:
  assumes "\<forall>i. fresh_streams (be_pub_network E i)" "system_init E S\<^sub>0" "steps (system_step E) S\<^sub>0 ls S"
    and "bs_main S = Main_Reported ts" "success (bench_report (be_crate E) (be_config E) ts)"
    and "cf_stop (be_config E) = Stop_Count n" "be_ctrl_c E = None"
    and "0 < cf_publishers (be_config E)" "cf_publishers (be_config E) \<le> 2 ^ 32"
  shows "(\<Sum>t\<leftarrow>bs_publishers S. length (task_messages t)) = unat n
     \<and> (\<forall>i < cf_publishers (be_config E). \<exists>q. quota_for (be_config E) i = Some q
          \<and> length (task_messages (bs_publishers S ! i)) = unat q)
     \<and> ct_published (rp_totals (bench_report (be_crate E) (be_config E) ts)) = n"
proof -
  let ?c = "be_config E"
  let ?share = "\<lambda>i. unat n div cf_publishers ?c + (if i < unat n mod cf_publishers ?c then 1 else 0)"
  have inv: "system_inv E S" by (rule run_inv [OF assms(2,3,1)])
  have len: "length (bs_publishers S) = cf_publishers ?c" using inv assms(4) by (auto simp: system_inv_def born_def)
  have uncut: "\<not> cut_short E S" using assms(6,7) by (simp add: cut_short_def config_deadline_def)
  have each: "\<exists>q. quota_for ?c i = Some q \<and> unat q = ?share i \<and> length (task_messages (bs_publishers S ! i)) = unat q"
    if i: "i < cf_publishers ?c" for i
  proof -
    obtain q where q: "quota_for ?c i = Some q" "unat q = ?share i"
      using quota_value [OF assms(8)] assms(6) by blast
    obtain x s sm where t: "bs_publishers S ! i = Running x s" "pb_phase s = Done_With (Inr sm)"
      by (rule reported_success [OF inv assms(4,5) i])
    have "unat (of_nat i :: u32) = i" using i assms(9) by (simp add: unat_of_nat)
    moreover have "pub_fine E S i (Running x s)" using inv t i len by (auto simp: system_inv_def)
    ultimately show ?thesis using t q uncut by (auto simp: pub_fine_def task_messages_def)
  qed
  have "(\<Sum>t\<leftarrow>bs_publishers S. length (task_messages t)) = (\<Sum>i < cf_publishers ?c. length (task_messages (bs_publishers S ! i)))"
    unfolding sum_list_sum_nth by (simp add: len atLeast0LessThan)
  also have "\<dots> = (\<Sum>i < cf_publishers ?c. ?share i)" using each by (intro sum.cong refl) fastforce
  also have "\<dots> = unat n" by (rule sum_quota [OF assms(8)])
  finally have sum: "(\<Sum>t\<leftarrow>bs_publishers S. length (task_messages t)) = unat n" .
  moreover obtain j where "ts = tasks_of (be_panic E) S j"
    using inv assms(4) by (auto simp: system_inv_def main_fine_def)
  then have "rp_totals (bench_report (be_crate E) ?c ts) = total_counters S"
    by (simp add: bench_report_def tasks_of_def snapshot_def split: prod.splits)
  ultimately show ?thesis using each reported_published [OF inv] by auto
qed


section \<open>A stop request leads to the report\<close>

definition reaches :: "('tcp, 'tls, 'req) bench_env \<Rightarrow> bench_system \<Rightarrow> bench_system \<Rightarrow> bool" where
  "reaches E S T \<longleftrightarrow> (\<exists>ls. steps (system_step E) S ls T)"

lemma reaches_refl: "reaches E S S"
  unfolding reaches_def by (blast intro: steps_nil)

lemma reaches_step: "system_turn E l S = Some T \<Longrightarrow> reaches E T U \<Longrightarrow> reaches E S U"
  unfolding reaches_def by (metis steps_cons system_step_def)

lemma reaches_one: "system_turn E l S = Some T \<Longrightarrow> reaches E S T"
  by (rule reaches_step [OF _ reaches_refl])

lemma reaches_trans [trans]: "reaches E S T \<Longrightarrow> reaches E T U \<Longrightarrow> reaches E S U"
  unfolding reaches_def by (blast intro: steps_append)

lemma reaches_inv: "reaches E S T \<Longrightarrow> system_inv E S \<Longrightarrow> system_inv E T"
  unfolding reaches_def using bench.steps_inv by blast

lemma reaches_tick: "\<not> main_over S \<Longrightarrow> bs_now S \<le> n \<Longrightarrow> reaches E S (S\<lparr>bs_now := n\<rparr>)"
  by (rule reaches_one [where l = "Tick (n - bs_now S)"]) (simp add: system_turn_def)

text \<open>The moves of one write side, between which the clock is moved on, are moves of the system.\<close>

lemma own_moves_lift:
  assumes "steps (publisher_step (be_crate E) x) s ls t" "own_moves (bs_now S) ls"
    and "i < length (bs_publishers S)" "bs_publishers S ! i = Running x s" "\<not> main_over S"
  shows "\<exists>n. reaches E S (S\<lparr>bs_now := n, bs_publishers := (bs_publishers S)[i := Running x t]\<rparr>)"
  using assms
proof (induction arbitrary: S rule: steps.induct)
  case (steps_nil s)
  have "S\<lparr>bs_now := bs_now S, bs_publishers := (bs_publishers S)[i := Running x s]\<rparr> = S"
    using steps_nil by (simp add: list_update_same_conv)
  then show ?case using reaches_refl by metis
next
  case (steps_cons s l u ls t)
  let ?n = "instant_of l"
  let ?S1 = "S\<lparr>bs_now := ?n\<rparr>"
  let ?S2 = "?S1\<lparr>bs_publishers := (bs_publishers S)[i := Running x u]\<rparr>"
  have l: "own_move l" "bs_now S \<le> ?n" "own_moves ?n ls" using steps_cons.prems(1) by (auto simp: own_moves_simps)
  have over: "main_over ?S1 = main_over S" "main_over ?S2 = main_over S" by (simp_all add: main_over_def)
  have "pub_turn_due ?S1 l" using l(1) by (cases l) (auto simp: pub_turn_due_def)
  then have "system_turn E (Pub_Turn i l) ?S1 = Some ?S2"
    using steps_cons.hyps(1) steps_cons.prems(2-4) over publisher_step_exec by (simp add: system_turn_def)
  then have "reaches E S ?S2"
    using reaches_trans [OF reaches_tick [OF steps_cons.prems(4) l(2)] reaches_one] by blast
  moreover obtain n where "reaches E ?S2 (?S2\<lparr>bs_now := n, bs_publishers := (bs_publishers ?S2)[i := Running x t]\<rparr>)"
    using steps_cons.IH [of ?S2] l(3) steps_cons.prems(2-4) over by auto
  ultimately show ?case using reaches_trans by (auto intro!: exI [of _ n])
qed

lemma publisher_brought_to_end:
  assumes "system_inv E S" "bs_stop S" "\<not> main_over S" "i < length (bs_publishers S)" "bs_publishers S ! i \<noteq> Spawned"
  shows "\<exists>n t. reaches E S (S\<lparr>bs_now := n, bs_publishers := (bs_publishers S)[i := t]\<rparr>)
     \<and> pub_handle (be_panic E) t \<noteq> None"
proof (cases "pub_handle (be_panic E) (bs_publishers S ! i)")
  case None
  then obtain x s where t: "bs_publishers S ! i = Running x s" "pb_phase s \<noteq> Write_Panicked"
    using assms(5) by (cases "bs_publishers S ! i") (auto simp: pub_handle_def split: write_phase.splits)
  have "pb_stop s" using inv_pub [OF assms(1,4)] t(1) assms(2) by (simp add: pub_fine_def)
  then obtain ls u where "steps (publisher_step (be_crate E) x) s ls u" "own_moves (bs_now S) ls"
    and over: "finished (pb_phase u) \<or> pb_phase u = Write_Panicked"
    using stopped_can_finish [OF t(2), of "be_crate E" x "bs_now S"] unfolding can_finish_def by blast
  from own_moves_lift [OF this(1,2) assms(4) t(1) assms(3)] obtain n
    where "reaches E S (S\<lparr>bs_now := n, bs_publishers := (bs_publishers S)[i := Running x u]\<rparr>)" by blast
  moreover have "pub_handle (be_panic E) (Running x u) \<noteq> None"
    using over by (cases "pb_phase u") (auto simp: pub_handle_def)
  ultimately show ?thesis by blast
next
  case (Some h)
  moreover have "S\<lparr>bs_now := bs_now S, bs_publishers := (bs_publishers S)[i := bs_publishers S ! i]\<rparr> = S" by simp
  ultimately show ?thesis using reaches_refl by (metis option.distinct(1))
qed

text \<open>One task after the other is brought to its end.\<close>

lemma publishers_brought_to_end:
  assumes "system_inv E S" "bs_stop S" "\<not> main_over S" "\<forall>t \<in> set (bs_publishers S). t \<noteq> Spawned"
    and "k \<le> length (bs_publishers S)"
  shows "\<exists>n ts. reaches E S (S\<lparr>bs_now := n, bs_publishers := ts\<rparr>) \<and> length ts = length (bs_publishers S)
     \<and> (\<forall>i < k. pub_handle (be_panic E) (ts ! i) \<noteq> None) \<and> (\<forall>t \<in> set ts. t \<noteq> Spawned)"
  using assms(5)
proof (induction k)
  case 0
  show ?case using assms(4) reaches_refl [of E S]
    by (intro exI [of _ "bs_now S"] exI [of _ "bs_publishers S"]) simp
next
  case (Suc k)
  then obtain n ts where T: "reaches E S (S\<lparr>bs_now := n, bs_publishers := ts\<rparr>)" (is "reaches E S ?T")
    and len: "length ts = length (bs_publishers S)" and ended: "\<forall>i < k. pub_handle (be_panic E) (ts ! i) \<noteq> None"
    and up: "\<forall>t \<in> set ts. t \<noteq> Spawned" by auto
  have "system_inv E ?T" by (rule reaches_inv [OF T assms(1)])
  moreover have "bs_stop ?T" "\<not> main_over ?T" "k < length (bs_publishers ?T)" "bs_publishers ?T ! k \<noteq> Spawned"
    using assms(2,3) Suc.prems len up by (auto simp: main_over_def)
  ultimately obtain m t where U: "reaches E ?T (?T\<lparr>bs_now := m, bs_publishers := (bs_publishers ?T)[k := t]\<rparr>)"
    and t: "pub_handle (be_panic E) t \<noteq> None" using publisher_brought_to_end by blast
  have "reaches E S (S\<lparr>bs_now := m, bs_publishers := ts[k := t]\<rparr>)" using reaches_trans [OF T U] by simp
  moreover have "\<forall>u \<in> set (ts[k := t]). u \<noteq> Spawned"
    using up t set_update_subset_insert [of ts k t] by (auto simp: pub_handle_def)
  moreover have "\<forall>i < Suc k. pub_handle (be_panic E) (ts[k := t] ! i) \<noteq> None"
    using ended t len Suc.prems by (auto simp: less_Suc_eq)
  ultimately show ?case using len by (intro exI [of _ m] exI [of _ "ts[k := t]"]) simp
qed

lemma subscribers_brought_to_end:
  assumes "bs_stop S" "\<not> main_over S" "\<forall>t \<in> set (bs_subscribers S). t \<noteq> Spawned" "k \<le> length (bs_subscribers S)"
  shows "\<exists>ts. reaches E S (S\<lparr>bs_subscribers := ts\<rparr>) \<and> length ts = length (bs_subscribers S)
     \<and> (\<forall>i < k. sub_handle (ts ! i) \<noteq> None) \<and> (\<forall>t \<in> set ts. t \<noteq> Spawned)"
  using assms(4)
proof (induction k)
  case 0
  show ?case using assms(3) reaches_refl [of E S] by (intro exI [of _ "bs_subscribers S"]) simp
next
  case (Suc k)
  then obtain ts where T: "reaches E S (S\<lparr>bs_subscribers := ts\<rparr>)" (is "reaches E S ?T")
    and len: "length ts = length (bs_subscribers S)" and ended: "\<forall>i < k. sub_handle (ts ! i) \<noteq> None"
    and up: "\<forall>t \<in> set ts. t \<noteq> Spawned" by auto
  have k: "k < length ts" using Suc.prems len by simp
  obtain t where U: "reaches E ?T (S\<lparr>bs_subscribers := ts[k := t]\<rparr>)" and t: "sub_handle t \<noteq> None"
  proof (cases "sub_handle (ts ! k)")
    case None
    then obtain x s where s: "ts ! k = Running x s" using up k by (cases "ts ! k") (auto simp: sub_handle_def)
    let ?t = "s\<lparr>sb_phase := Sub_Done (Inr (sb_samples s))\<rparr>"
    have "subscriber_turn (be_crate E) x Stop_Seen s = Some ?t"
      using None s by (cases "sb_phase s") (auto simp: sub_handle_def subscriber_turn_def)
    then have "system_turn E (Sub_Turn k Stop_Seen) ?T = Some (S\<lparr>bs_subscribers := ts[k := Running x ?t]\<rparr>)"
      using s k assms(1,2) by (simp add: system_turn_def sub_turn_due_def main_over_def)
    then show ?thesis by (intro that [of "Running x ?t"] reaches_one) (simp_all add: sub_handle_def)
  next
    case (Some h)
    then show ?thesis using that [of "ts ! k"] reaches_refl [of E ?T] by simp
  qed
  have "\<forall>u \<in> set (ts[k := t]). u \<noteq> Spawned"
    using up t set_update_subset_insert [of ts k t] by (auto simp: sub_handle_def)
  moreover have "\<forall>i < Suc k. sub_handle (ts[k := t] ! i) \<noteq> None"
    using ended t k by (auto simp: less_Suc_eq)
  ultimately show ?case using reaches_trans [OF T U] len by (intro exI [of _ "ts[k := t]"]) simp
qed

text \<open>Once all tasks are over, the main task reaches the report.\<close>

lemma main_reports:
  assumes "pubs_joined E S" "subs_joined S" "\<forall>wake. bs_main S \<noteq> Main_Settling wake" "\<not> main_over S"
  shows "\<exists>T ts. reaches E S T \<and> bs_main T = Main_Reported ts"
proof -
  have joining: "\<exists>T ts. reaches E S T \<and> bs_main T = Main_Reported ts" if "bs_main S = Main_Joining j" "subs_joined S" for S j
    by (rule exI [of _ "S\<lparr>bs_main := Main_Reported (tasks_of (be_panic E) S j)\<rparr>"], intro exI conjI,
        rule reaches_one [where l = Join_Subscribers])
      (use that in \<open>auto simp: system_turn_def main_over_def subs_joined_def\<close>)
  have draining: "\<exists>T ts. reaches E S T \<and> bs_main T = Main_Reported ts" if m: "bs_main S = Main_Draining j" "subs_joined S" for S j
  proof -
    let ?S1 = "S\<lparr>bs_now := max (bs_now S) (j + cf_drain (be_config E))\<rparr>"
    let ?S2 = "(send_stop ?S1)\<lparr>bs_deadline := Dl_Over, bs_main := Main_Joining j\<rparr>"
    have "reaches E S ?S1" using m by (intro reaches_tick) (auto simp: main_over_def)
    moreover have "reaches E ?S1 ?S2"
      using m by (intro reaches_one [where l = Drain_Over]) (simp add: system_turn_def main_over_def)
    moreover have "\<exists>T ts. reaches E ?S2 T \<and> bs_main T = Main_Reported ts"
      using m(2) by (intro joining [of _ j]) (simp_all add: subs_joined_def send_stop_def)
    ultimately show ?thesis using reaches_trans by metis
  qed
  show ?thesis
  proof (cases "bs_main S")
    case Main_Publishing
    let ?S1 = "S\<lparr>bs_main := Main_Draining (bs_now S)\<rparr>"
    have "reaches E S ?S1"
      using Main_Publishing assms(1) by (intro reaches_one [where l = Join_Publishers])
        (simp add: system_turn_def main_over_def pubs_joined_def)
    moreover have "\<exists>T ts. reaches E ?S1 T \<and> bs_main T = Main_Reported ts"
      using assms(2) by (intro draining [of _ "bs_now S"]) (simp_all add: subs_joined_def)
    ultimately show ?thesis using reaches_trans by metis
  qed (use assms joining draining in \<open>auto simp: main_over_def\<close>)
qed


section \<open>A run to evaluate on\<close>

text \<open>One publisher, two messages of QoS 0, a broker that accepts the connection and closes it at the end.\<close>

definition sample_env :: "(unit, unit, unit) bench_env" where
  "sample_env = \<lparr>be_crate = mqtt_documented, be_pub_network = (\<lambda>_. scripted_network (accepting_broker @ [Closed])),
     be_sub_network = (\<lambda>_. scripted_network []), be_os = bare_os, be_config = sample_config AtMostOnce,
     be_conn = default_connection, be_ctrl_c = None, be_panic = ''overflow''\<rparr>"

definition sample_turns :: "publisher_label list" where
  "sample_turns = [Write_Turn 0, Write_Turn 0, Write_Turn 0, Write_Turn 0, Write_Turn 0, Write_Turn 0, Write_Turn 0,
     Write_Turn 0, Write_Turn 0, Write_Turn 0, Read_Turn 0, Write_Turn 0]"

lemma sample_publisher_run:
  assumes "write_fault st = (\<lambda>_. None)" "inbox st = [Closed]"
  shows "\<exists>s. exec_steps mqtt_documented (sample_setup AtMostOnce) sample_turns (publisher_initial st 1) = Some s
     \<and> pb_phase s = Done_With (Inr samples_new) \<and> ct_refused (pb_counters s) = []
     \<and> ct_publish_errors (pb_counters s) = 0"
proof -
  have two: "\<not> (2 :: u64) \<le> 1" "\<not> (2 :: u64) \<le> 0" by (simp_all add: word_le_nat_alt)
  show ?thesis
    by (simp add: two sample_turns_def exec_step_def write_side_def read_side_def publisher_initial_def
        top_checks_def sample_setup_def quota_for_def schedule_deadline_def proceed_def prepare_def assms write_publish_def
        write_packet_def read_packet_def leave_loop_def instant_add_def INSTANT_MAX_def sample_config_def
        publisher_result_def counters_zero_def Let_def)
qed

text \<open>Turns of one publisher at the present instant are turns of the system.\<close>

lemma turns_lift:
  assumes "exec_steps (be_crate E) x us s = Some t" "\<forall>u \<in> set us. pub_turn_due S u"
    and "i < length (bs_publishers S)" "bs_publishers S ! i = Running x s" "\<not> main_over S"
  shows "steps (system_step E) S (map (Pub_Turn i) us) (S\<lparr>bs_publishers := (bs_publishers S)[i := Running x t]\<rparr>)"
  using assms
proof (induction us arbitrary: s S)
  case Nil
  then have "S\<lparr>bs_publishers := (bs_publishers S)[i := Running x t]\<rparr> = S" by (simp add: list_update_same_conv)
  then show ?case using steps_nil [of "system_step E" S] by simp
next
  case (Cons u us)
  then obtain v where v: "exec_step (be_crate E) x u s = Some v" "exec_steps (be_crate E) x us v = Some t"
    by (auto split: option.splits)
  let ?S = "S\<lparr>bs_publishers := (bs_publishers S)[i := Running x v]\<rparr>"
  have "system_step E S (Pub_Turn i u) ?S"
    using v(1) Cons.prems by (simp add: system_step_def system_turn_def)
  moreover have "pub_turn_due ?S = pub_turn_due S" by (simp add: pub_turn_due_def fun_eq_iff split: publisher_label.splits)
  then have "steps (system_step E) ?S (map (Pub_Turn i) us) (?S\<lparr>bs_publishers := (bs_publishers ?S)[i := Running x t]\<rparr>)"
    using v(2) Cons.prems by (intro Cons.IH) (auto simp: main_over_def)
  ultimately show ?case by (auto intro: steps_cons)
qed

definition sample_labels :: "bench_label list" where
  "sample_labels = [Settle, Pub_Connect 0] @ map (Pub_Turn 0) sample_turns @ [Join_Publishers, Drain_Over]"

lemma sample_run:
  "\<exists>S\<^sub>0 S ts. system_init sample_env S\<^sub>0 \<and> steps (system_step sample_env) S\<^sub>0 sample_labels S
     \<and> bs_stop S \<and> bs_subscribers S = [] \<and> length (bs_publishers S) = 1 \<and> (\<forall>t \<in> set (bs_publishers S). t \<noteq> Spawned)
     \<and> steps (system_step sample_env) S [Join_Subscribers] (S\<lparr>bs_main := Main_Reported ts\<rparr>)
     \<and> success (bench_report mqtt_documented (sample_config AtMostOnce) ts) \<and> bt_baseline ts = 0"
proof -
  obtain st w where st: "publisher_start mqtt_documented (scripted_network (accepting_broker @ [Closed])) bare_os 0
      (sample_config AtMostOnce) default_connection 0 0 0 fresh_world
      = (Return (sample_setup AtMostOnce, publisher_initial st 1), w)" "inbox st = [Closed]" "write_fault st = (\<lambda>_. None)"
    using publisher_start_sample [of "[Closed]" AtMostOnce] by blast
  then obtain s where s: "exec_steps mqtt_documented (sample_setup AtMostOnce) sample_turns (publisher_initial st 1) = Some s"
    "pb_phase s = Done_With (Inr samples_new)" "ct_refused (pb_counters s) = []" "ct_publish_errors (pb_counters s) = 0"
    using sample_publisher_run by blast
  let ?S0 = "\<lparr>bs_now = 0, bs_world = fresh_world, bs_baseline = 0, bs_warmup_until = 0, bs_started = 0, bs_stop = False,
      bs_deadline = Dl_Unborn, bs_subscribers = [], bs_publishers = [], bs_main = Main_Settling 0\<rparr>"
  let ?S1 = "?S0\<lparr>bs_deadline := Dl_Spawned, bs_publishers := [Spawned], bs_main := Main_Publishing\<rparr>"
  let ?S2 = "?S1\<lparr>bs_world := w, bs_publishers := [Running (sample_setup AtMostOnce) (publisher_initial st 1)]\<rparr>"
  let ?S3 = "?S2\<lparr>bs_publishers := [Running (sample_setup AtMostOnce) s]\<rparr>"
  let ?S4 = "?S3\<lparr>bs_main := Main_Draining 0\<rparr>"
  let ?S5 = "?S4\<lparr>bs_stop := True, bs_deadline := Dl_Over, bs_main := Main_Joining 0,
      bs_publishers := [Running (sample_setup AtMostOnce) (s\<lparr>pb_stop := True\<rparr>)]\<rparr>"
  let ?ts = "tasks_of ''overflow'' ?S5 0"
  have c: "cf_warmup (sample_config q) = 0" "cf_subscribers (sample_config q) = 0" "cf_publishers (sample_config q) = 1"
      "cf_drain (sample_config q) = 0" for q by (simp_all add: sample_config_def)
  have env: "be_crate sample_env = mqtt_documented" "be_pub_network sample_env i = scripted_network (accepting_broker @ [Closed])"
    "be_os sample_env = bare_os" "be_config sample_env = sample_config AtMostOnce" "be_conn sample_env = default_connection"
    "be_panic sample_env = ''overflow''" for i
    by (simp_all add: sample_env_def)
  have unset: "(publisher_initial st n)\<lparr>pb_stop := False\<rparr> = publisher_initial st n" for n by (simp add: publisher_initial_def)
  note cons = steps_cons [where step = "system_step sample_env"]
  have init: "system_init sample_env ?S0"
    unfolding system_init_def by (intro exI [of _ 0] exI [of _ fresh_world]) (simp add: system_start_def env c instant_add_def)
  have settle: "system_step sample_env ?S0 Settle ?S1"
    by (simp add: system_step_def system_turn_def main_over_def env c)
  have connect: "system_step sample_env ?S1 (Pub_Connect 0) ?S2"
    using st(1) by (simp add: system_step_def system_turn_def main_over_def pub_connect_def env connected_def unset)
  have turns: "steps (system_step sample_env) ?S2 (map (Pub_Turn 0) sample_turns) ?S3"
    using turns_lift [of sample_env "sample_setup AtMostOnce" sample_turns "publisher_initial st 1" s ?S2 0] s(1)
    by (simp add: env main_over_def sample_turns_def pub_turn_due_def)
  have join: "system_step sample_env ?S3 Join_Publishers ?S4"
    using s(2) by (simp add: system_step_def system_turn_def main_over_def env pub_handle_def)
  have drain: "system_step sample_env ?S4 Drain_Over ?S5"
    by (simp add: system_step_def system_turn_def main_over_def env c send_stop_def)
  have report: "system_step sample_env ?S5 Join_Subscribers (?S5\<lparr>bs_main := Main_Reported ?ts\<rparr>)"
    by (simp add: system_step_def system_turn_def main_over_def env)
  have "success (bench_report mqtt_documented (sample_config AtMostOnce) ?ts)"
    using s by (simp add: bench_report_success tasks_of_def all_well_def pub_handle_def total_counters_def
        counters_add_def counters_zero_def pub_counters_def)
  moreover have "bt_baseline ?ts = 0" by (simp add: tasks_of_def)
  moreover have "steps (system_step sample_env) ?S0 sample_labels ?S5"
    unfolding sample_labels_def
    by (rule steps_append [OF cons [OF settle cons [OF connect steps_nil]]
          steps_append [OF turns cons [OF join cons [OF drain steps_nil]]]])
  ultimately show ?thesis
    using init cons [OF report steps_nil]
    by (intro exI [of _ ?S0] exI [of _ ?S5] exI [of _ ?ts]) simp
qed



section \<open>A broker that never answers\<close>

definition silent :: "nat \<Rightarrow> bench_system \<Rightarrow> bool" where
  "silent i S \<longleftrightarrow> (case bs_main S of
      Main_Settling wake \<Rightarrow> True
    | Main_Publishing \<Rightarrow> i < length (bs_publishers S) \<and> bs_publishers S ! i = Spawned
    | _ \<Rightarrow> False)"

lemma silent_step:
  assumes pending: "\<And>b wu now w. fst (publisher_start (be_crate E) (be_pub_network E i) (be_os E) (of_nat i) (be_config E)
        (be_conn E) b wu now w) = Pending" "i < cf_publishers (be_config E)"
    and "silent i S" "system_step E S l T"
  shows "silent i T"
proof -
  have con: "pub_connect E i S = None"
    using pending(1) [of "bs_baseline S" "bs_warmup_until S" "bs_now S" "bs_world S"]
    by (auto simp: pub_connect_def connected_def split: prod.splits option.splits)
  have "silent i T" if "pub_connect E j S = Some T" "silent i S" for j T
  proof -
    from that(1) have "j \<noteq> i" using con by auto
    with that show ?thesis
      by (auto simp: pub_connect_def silent_def split: prod.splits option.splits main_phase.splits)
  qed
  moreover have "silent i T" if "sub_connect E j S = Some T" "silent i S" for j T
    using that by (auto simp: sub_connect_def silent_def split: prod.splits option.splits main_phase.splits)
  moreover have "silent i (send_stop S)" if "silent i S"
    using that by (auto simp: silent_def send_stop_def split: main_phase.splits)
  moreover have "pub_handle (be_panic E) Spawned = None" by (simp add: pub_handle_def)
  ultimately have connects: "\<And>j T. pub_connect E j S = Some T \<Longrightarrow> silent i T" "\<And>j T. sub_connect E j S = Some T \<Longrightarrow> silent i T"
      "silent i (send_stop S)" "pub_handle (be_panic E) Spawned = None"
    using assms(3) by blast+
  have run: "\<not> main_over S" using assms(4) by (auto simp: system_step_def system_turn_def split: if_splits)
  note turn = assms(4) [unfolded system_step_def system_turn_def if_not_P [OF run]]
  show ?thesis
  proof (cases l)
    case (Sub_Connect j)
    then have "sub_connect E j S = Some T" using turn by (simp split: if_splits)
    then show ?thesis by (rule connects)
  next
    case (Pub_Connect j)
    then have "pub_connect E j S = Some T" using turn by (simp split: if_splits)
    then show ?thesis by (rule connects)
  next
    case Deadline_Fire
    then obtain dl where "T = (send_stop S)\<lparr>bs_deadline := dl\<rparr>" using turn by (auto split: deadline_task.splits if_splits)
    then show ?thesis using connects(3) by (auto simp: silent_def split: main_phase.splits)
  next
    case Settle
    then show ?thesis using turn assms(2) by (auto simp: silent_def split: main_phase.splits if_splits)
  next
    case (Pub_Turn j u)
    then show ?thesis using turn assms(3)
      by (auto simp: silent_def nth_list_update split: main_phase.splits if_splits task.splits option.splits)
  next
    case (Sub_Turn j u)
    then show ?thesis using turn assms(3)
      by (auto simp: silent_def split: main_phase.splits if_splits task.splits option.splits)
  next
    case Join_Publishers
    then show ?thesis using turn assms(3) connects(4)
      by (auto simp: silent_def list_all_length split: main_phase.splits if_splits)
  qed (use turn assms(3) in \<open>auto simp: silent_def split: main_phase.splits deadline_task.splits if_splits\<close>)
qed

text \<open>
  C29: a broker that accepts a connection and never answers keeps the benchmark from ending. Setting up a
  connection has no time limit and does not watch the stop signal, so as long as one publisher waits
  for its CONNACK no report is ever printed: not at \<^verbatim>\<open>--duration\<close>, and not after Ctrl-C, which the run
  has taken over.
\<close>

theorem bench_waits_for_connack:
  assumes "\<And>b wu now w. fst (publisher_start (be_crate E) (be_pub_network E i) (be_os E) (of_nat i) (be_config E)
        (be_conn E) b wu now w) = Pending" "i < cf_publishers (be_config E)"
    and "system_init E S\<^sub>0" "steps (system_step E) S\<^sub>0 ls S"
  shows "bs_main S \<noteq> Main_Reported ts"
proof -
  have "silent i S\<^sub>0" using assms(3) by (auto simp: system_init_def system_start_def silent_def split: option.splits)
  with assms(4) have "silent i S"
    by (induction rule: steps.induct) (use silent_step [OF assms(1,2)] in blast)+
  then show ?thesis by (auto simp: silent_def)
qed

text \<open>The run above with a broker that says nothing, and Ctrl-C pressed at once.\<close>

definition silent_env :: "(unit, unit, unit) bench_env" where
  "silent_env = sample_env\<lparr>be_pub_network := (\<lambda>_. scripted_network []), be_ctrl_c := Some 0\<rparr>"

lemma silent_start:
  "fst (publisher_start mqtt_documented (scripted_network []) bare_os i (sample_config AtMostOnce) default_connection
     b wu now w) = Pending"
  by (simp add: publisher_start_def Let_def bind_io_def return_io_def raise_io_def on_process_def read_password_def
      transport_connect_def dial_def handshake_def will_io_def will_def on_stream_def zoom_io_def lift_mqtt_def
      write_packet_def read_packet_def password_def max_packet_size_def
      default_connection_def DEFAULT_MAX_PACKET_SIZE_def PROTOCOL_MAX_PACKET_SIZE_def
      scripted_defs mqtt_documented_def version_def)

theorem bench_waits_for_connack_witness:
  "\<exists>S\<^sub>0 S. system_init silent_env S\<^sub>0 \<and> steps (system_step silent_env) S\<^sub>0 [Settle, Deadline_Start, Deadline_Fire] S
     \<and> bs_stop S \<and> (\<forall>ts. bs_main S \<noteq> Main_Reported ts)"
proof -
  let ?S0 = "\<lparr>bs_now = 0, bs_world = fresh_world, bs_baseline = 0, bs_warmup_until = 0, bs_started = 0, bs_stop = False,
      bs_deadline = Dl_Unborn, bs_subscribers = [], bs_publishers = [], bs_main = Main_Settling 0\<rparr>"
  let ?S1 = "?S0\<lparr>bs_deadline := Dl_Spawned, bs_publishers := [Spawned], bs_main := Main_Publishing\<rparr>"
  let ?S2 = "?S1\<lparr>bs_deadline := Dl_Waiting None\<rparr>"
  let ?S3 = "?S2\<lparr>bs_deadline := Dl_Over, bs_stop := True\<rparr>"
  note cons = steps_cons [where step = "system_step silent_env"]
  have c: "cf_warmup (sample_config q) = 0" "cf_subscribers (sample_config q) = 0" "cf_publishers (sample_config q) = 1"
      "config_deadline (sample_config q) = None" for q by (simp_all add: sample_config_def config_deadline_def)
  have env: "be_crate silent_env = mqtt_documented" "be_pub_network silent_env i = scripted_network []"
    "be_os silent_env = bare_os" "be_config silent_env = sample_config AtMostOnce" "be_conn silent_env = default_connection"
    "be_ctrl_c silent_env = Some 0" for i
    by (simp_all add: silent_env_def sample_env_def)
  have init: "system_init silent_env ?S0"
    unfolding system_init_def by (intro exI [of _ 0] exI [of _ fresh_world]) (simp add: system_start_def env c instant_add_def)
  have "system_step silent_env ?S0 Settle ?S1" "system_step silent_env ?S1 Deadline_Start ?S2"
    "system_step silent_env ?S2 Deadline_Fire ?S3"
    by (simp_all add: system_step_def system_turn_def main_over_def env c deadline_due_def send_stop_def)
  then have run: "steps (system_step silent_env) ?S0 [Settle, Deadline_Start, Deadline_Fire] ?S3"
    by (rule cons [OF _ cons [OF _ cons [OF _ steps_nil]]])
  have "bs_main ?S3 \<noteq> Main_Reported ts" for ts
    by (rule bench_waits_for_connack [OF _ _ init run, of 0]) (simp_all add: env c silent_start)
  with init run show ?thesis by (intro exI [of _ ?S0] exI [of _ ?S3]) simp
qed

end
