(* ===== verification/Bench_Traffic.thy ===== *)
theory Bench_Traffic
  imports Main_Dispatch Bench_System
begin

text \<open>
  What a benchmark puts on its connections, and what its report says of it: every connection of a run
  announces the packet ceiling it enforces and carries only packets a client may send, and the totals
  of the report are those of the messages that crossed the connections.
\<close>

section \<open>What a task adds to its connection\<close>

definition grows :: "u32 \<Rightarrow> protocol_version \<Rightarrow> stream \<Rightarrow> stream \<Rightarrow> bool" where
  "grows m v st st' \<longleftrightarrow> (\<exists>new. calls st' = calls st @ new \<and> list_all (conforming m v) new)"

interpretation stream_growth: io_preorder "grows m v" for m v
proof
  show "grows m v s s" for s by (simp add: grows_def)
  show "grows m v s t \<Longrightarrow> grows m v t u \<Longrightarrow> grows m v s u" for s t u by (fastforce simp: grows_def)
qed

lemma grows_write: "client_packet_ok p \<Longrightarrow> write_packet p v st = (r, st') \<Longrightarrow> grows m v st st'"
  by (auto simp: grows_def write_packet_def conforming_def split: option.splits)

lemma grows_read: "read_packet m v st = (r, st') \<Longrightarrow> grows m v st st'"
  by (auto simp: grows_def read_packet_def conforming_def split: prod.splits)

lemma announced_grows:
  "announced m v (calls st) \<Longrightarrow> calls st \<noteq> [] \<Longrightarrow> grows m v st st' \<Longrightarrow> calls st' \<noteq> [] \<and> announced m v (calls st')"
  by (auto simp: grows_def intro: announced_append)

subsection \<open>A publisher\<close>

lemma ack_packet_stream [simp]: "pb_stream (ack_packet P x now p sm s) = pb_stream s"
  by (auto simp: ack_packet_def complete_ack_def Let_def split: packet.splits option.splits)

lemma read_side_stream:
  assumes "read_side P x now s = Some t"
  shows "\<exists>r. read_packet (px_max_packet_size x) (px_version x) (pb_stream s) = (r, pb_stream t)"
  using assms by (cases "read_packet (px_max_packet_size x) (px_version x) (pb_stream s)")
    (auto simp: read_side_def split: ack_task.splits outcome.splits read_outcome.splits)

lemma move_stream [simp]:
  "pb_stream (leave_loop now s) = pb_stream s" "pb_stream (top_checks x now s) = pb_stream s"
  "pb_stream (proceed x now s) = pb_stream s" "pb_stream (prepare x now s) = pb_stream s"
  "pb_stream (clean_up pid e s) = pb_stream s"
  by (simp_all add: leave_loop_def top_checks_def proceed_def prepare_def clean_up_def Let_def
      split: option.splits prod.splits)

lemma drain_pubrel_stream:
  "drain_pubrel P x i rest s = (e, t) \<Longrightarrow> grows m (px_version x) (pb_stream s) (pb_stream t)"
  by (cases "write_packet (Pubrel (pub_ack_new i (rc_success P))) (px_version x) (pb_stream s)")
    (auto simp: drain_pubrel_def split: outcome.splits intro!: grows_write)

lemma write_publish_stream:
  assumes "client_packet_ok (Publish (publisher_message x (pb_sent s) pid d))"
  shows "grows m (px_version x) (pb_stream s) (pb_stream (write_publish x pid d s))"
  by (cases "write_packet (Publish (publisher_message x (pb_sent s) pid d)) (px_version x) (pb_stream s)")
    (auto simp: write_publish_def Let_def split: outcome.splits intro!: grows_write [OF assms])

lemma message_id_ok: "client_packet_ok (Publish (publisher_message x n (message_id x k) d))"
proof -
  have "nth_id k \<noteq> 0" using unat_nth_id [of k] by auto
  then show ?thesis by (simp add: publisher_message_def message_id_def)
qed

lemma write_side_stream:
  assumes "write_side P x now s = Some t" "log_inv x s"
  shows "grows m (px_version x) (pb_stream s) (pb_stream t)"
proof -
  note same = stream_growth.le_refl [of m "px_version x" "pb_stream s"]
  have drain: "grows m (px_version x) (pb_stream s) (pb_stream t)"
    if "(case drain_pubrel P x i rest s of (None, u) \<Rightarrow> Some u | (Some e, u) \<Rightarrow> Some (u\<lparr>pb_phase := f e\<rparr>)) = Some t" for i rest f
    using that drain_pubrel_stream [of P x i rest s]
    by (cases "drain_pubrel P x i rest s") (auto split: option.splits)
  show ?thesis
  proof (cases "pb_phase s")
    case (Writing pid d)
    then have "pid = message_id x (length (publishes s))" using assms(2) by (simp add: log_inv_def numbering_def)
    then show ?thesis using assms(1) Writing write_publish_stream [OF message_id_ok] by (auto simp: write_side_def)
  next
    case Closing
    then show ?thesis using assms(1)
      by (cases "write_packet (Disconnect (rc_success P)) (px_version x) (pb_stream s)")
        (auto simp: write_side_def intro: grows_write [rotated])
  next
    case Draining
    then show ?thesis using assms(1) drain same by (cases "pb_channel s") (auto simp: write_side_def)
  next
    case (Tail_Drain d)
    then show ?thesis using assms(1) drain same by (cases "pb_channel s") (auto simp: write_side_def)
  next
    case Last_Drain
    then show ?thesis using assms(1) drain same by (cases "pb_channel s") (auto simp: write_side_def)
  qed (use assms(1) same in \<open>auto simp: write_side_def split: if_splits ack_task.splits\<close>)
qed

definition traffic_inv :: "publisher_setup \<Rightarrow> stream \<Rightarrow> publisher \<Rightarrow> bool" where
  "traffic_inv x st s \<longleftrightarrow> log_inv x s \<and> grows (px_max_packet_size x) (px_version x) st (pb_stream s)"

interpretation publisher_traffic: inductive_invariant "publisher_init x st" "publisher_step P x" "traffic_inv x st" for P x st
proof
  fix s
  assume "publisher_init x st s"
  then show "traffic_inv x st s"
    using publisher_log.inv_init [of x st s] by (auto simp: traffic_inv_def publisher_init_def publisher_initial_def
        intro: stream_growth.le_refl)
next
  fix s l t
  assume inv: "traffic_inv x st s" and step: "publisher_step P x s l t"
  then have log: "log_inv x s" "log_inv x t" using publisher_log.inv_step by (auto simp: traffic_inv_def)
  have "grows (px_max_packet_size x) (px_version x) (pb_stream s) (pb_stream t)"
    using step
  proof (cases rule: publisher_step.cases)
    case (read_turn now)
    then show ?thesis using read_side_stream grows_read by blast
  next
    case (write_turn now)
    then show ?thesis using write_side_stream [OF _ log(1)] by blast
  qed (auto simp: stop_arm_def join_timeout_def stream_growth.le_refl split: if_splits write_phase.splits ack_task.splits)
  then show "traffic_inv x st t" using inv log stream_growth.le_trans by (auto simp: traffic_inv_def)
qed

lemma publisher_start_args:
  assumes "publisher_start P N sys index c a baseline warmup now w = (Return (x, s), w')"
  shows "px_max_packet_size x = ca_max_packet_size a" "px_version x = version a"
proof -
  obtain t u neg w2 m where "handshake P sys a (publisher_client_id sys a index) (u\<lparr>w_stream := framing N t\<rparr>) = (Return neg, w2)"
    and m: "max_packet_size a = Inr m" and x: "px_max_packet_size x = m" "px_version x = neg_version neg"
    using assms by (auto simp: publisher_start_def bind_Return_iff try_io_Return_iff map_sum_Inr_iff Let_def split: option.splits)
  from handshake_Return [OF this(1), of "w_process w"] x
  show "px_version x = version a" by auto
  show "px_max_packet_size x = ca_max_packet_size a" using m x max_packet_size_Inr_iff by blast
qed

lemma publisher_announced:
  assumes "fresh_streams N" "publisher_start P N sys index c a baseline warmup now w = (Return (x, s\<^sub>0), w')"
    and "steps (publisher_step P x) s\<^sub>0 ls s"
  shows "calls (pb_stream s) \<noteq> [] \<and> announced (ca_max_packet_size a) (version a) (calls (pb_stream s))"
proof -
  note start = publisher_start_Return [OF assms(1,2)]
  have "traffic_inv x (pb_stream s\<^sub>0) s"
    using publisher_traffic.steps_inv [OF assms(3)] publisher_traffic.inv_init [OF start(1)] by blast
  moreover have x: "px_max_packet_size x = ca_max_packet_size a" "px_version x = version a"
    using publisher_start_args [OF assms(2)] by auto
  moreover obtain pw wl where "calls (pb_stream s\<^sub>0) = [Wrote (Connect (connect_packet_for P a (publisher_client_id sys a index)
        (ca_max_packet_size a) pw wl)) (version a), Read_with (ca_max_packet_size a) (version a)]"
    using start(5) x by auto
  ultimately show ?thesis
    by (intro announced_grows [of _ _ "pb_stream s\<^sub>0" "pb_stream s"])
      (auto simp: announced_def connect_packet_for_def publisher_client_id_def conforming_def traffic_inv_def)
qed

subsection \<open>A subscriber\<close>

lemma ack_reply_ok: "ack_reply P m = Some p \<Longrightarrow> client_packet_ok p"
  by (auto simp: ack_reply_def Let_def split: option.splits qos.splits)

lemma write_reply_stream:
  assumes "\<And>p. reply = Some p \<Longrightarrow> client_packet_ok p"
  shows "grows m (sx_version x) (sb_stream s) (sb_stream (write_reply x reply s))"
proof (cases reply)
  case (Some p)
  then show ?thesis using assms
    by (cases "write_packet p (sx_version x) (sb_stream s)")
      (auto simp: write_reply_def split: outcome.splits intro!: grows_write)
qed (simp add: write_reply_def stream_growth.le_refl)

lemma receive_packet_stream: "grows m (sx_version x) (sb_stream s) (sb_stream (receive_packet P x now p s))"
proof (cases p)
  case (Publish q)
  then show ?thesis
    using write_reply_stream [where reply = "ack_reply P q" and m = m and x = x and s = "s\<lparr>sb_counters := (sb_counters s)\<lparr>
        ct_received := ct_received (sb_counters s) + 1,
        ct_bytes_received := ct_bytes_received (sb_counters s) + of_nat (length (pub_payload q))\<rparr>,
        sb_samples := time_message x now (pub_payload q) (sb_samples s)\<rparr>",
        OF ack_reply_ok]
    by (simp add: receive_packet_def Let_def)
qed (auto simp: receive_packet_def stream_growth.le_refl intro: write_reply_stream)

lemma subscriber_turn_stream:
  assumes "subscriber_turn P x turn s = Some t"
  shows "grows (sx_max_packet_size x) (sx_version x) (sb_stream s) (sb_stream t)"
proof (cases "\<exists>now. turn = Read_Done now \<and> sb_phase s = Receiving")
  case True
  then obtain now where "turn = Read_Done now" "sb_phase s = Receiving" by blast
  moreover obtain r st where r: "read_packet (sx_max_packet_size x) (sx_version x) (sb_stream s) = (r, st)"
    by (cases "read_packet (sx_max_packet_size x) (sx_version x) (sb_stream s)")
  moreover have "grows (sx_max_packet_size x) (sx_version x) st (sb_stream (receive_packet P x now p (s\<lparr>sb_stream := st\<rparr>)))" for p
    using receive_packet_stream [of _ x "s\<lparr>sb_stream := st\<rparr>"] by simp
  ultimately show ?thesis
    using assms grows_read [OF r] stream_growth.le_trans
    by (auto simp: subscriber_turn_def split: outcome.splits read_outcome.splits)
next
  case False
  then have "sb_stream t = sb_stream s"
    using assms by (auto simp: subscriber_turn_def split: subscriber_phase.splits subscriber_turn.splits)
  then show ?thesis by (simp add: stream_growth.le_refl)
qed

lemma subscriber_loop_stream:
  "subscriber_loop P x turns s = Some t \<Longrightarrow> grows (sx_max_packet_size x) (sx_version x) (sb_stream s) (sb_stream t)"
proof (induction turns arbitrary: s)
  case (Cons turn turns)
  then show ?case using subscriber_turn_stream stream_growth.le_trans by (fastforce split: option.splits)
qed (simp add: stream_growth.le_refl)

lemma await_first_suback_stream:
  "await_first_suback P index m v st = (r, st') \<Longrightarrow> grows m v st st'"
proof (induction "length (inbox st)" arbitrary: st rule: less_induct)
  case less
  obtain q st1 where q: "read_packet m v st = (q, st1)" by (cases "read_packet m v st")
  note g = grows_read [OF q]
  show ?case
  proof (cases "\<exists>p. q = Return (Got p) \<and> (\<forall>ack. p \<noteq> Suback ack)")
    case True
    then obtain p where p: "q = Return (Got p)" "\<forall>ack. p \<noteq> Suback ack" by blast
    then have "await_first_suback P index m v st1 = (r, st')"
      using less(2) q by (subst (asm) await_first_suback.simps) (auto simp: bind_io_def lift_mqtt_def split: packet.splits)
    then show ?thesis using less(1) read_packet_Got q p(1) stream_growth.le_trans [OF g] by blast
  next
    case False
    then have "st' = st1"
      using less(2) q by (subst (asm) await_first_suback.simps)
        (auto simp: bind_io_def lift_mqtt_def raise_io_def return_io_def split: packet.splits outcome.splits read_outcome.splits option.splits)
    then show ?thesis using g by simp
  qed
qed

lemma subscriber_announced:
  assumes "fresh_streams N" "subscriber_start P N sys index c a baseline warmup w = (Return (x, s\<^sub>0), w')"
    and "subscriber_loop P x turns s\<^sub>0 = Some s"
  shows "calls (sb_stream s) \<noteq> [] \<and> announced (ca_max_packet_size a) (version a) (calls (sb_stream s))"
proof -
  obtain t w1 neg w2 st1 st2 where h: "handshake P sys a (subscriber_client_id sys a index) (w1\<lparr>w_stream := framing N t\<rparr>) = (Return neg, w2)"
    and wr: "write_packet (Subscribe (subscriber_subscribe c)) (neg_version neg) (w_stream w2) = (Return (), st1)"
    and aw: "await_first_suback P index (sx_max_packet_size x) (neg_version neg) st1 = (Return (), st2)"
    and s: "sb_stream s\<^sub>0 = st2" "sx_version x = neg_version neg" "max_packet_size a = Inr (sx_max_packet_size x)"
    using assms(2)
    by (auto simp: subscriber_start_def bind_Return_iff try_io_Return_iff on_stream_Return_iff zoom_io_Return_iff map_sum_Inr_iff)
  have m: "sx_max_packet_size x = ca_max_packet_size a" using s(3) max_packet_size_Inr_iff by blast
  have "calls (framing N t) = []" using assms(1) by (simp add: fresh_streams_def)
  then obtain pw wl where con: "calls (w_stream w2) = [Wrote (Connect (connect_packet_for P a (subscriber_client_id sys a index)
        (ca_max_packet_size a) pw wl)) (version a), Read_with (ca_max_packet_size a) (version a)]" "neg_version neg = version a"
    using handshake_Return [OF h, of "w_process w"] by auto
  have "client_packet_ok (Subscribe (subscriber_subscribe c))" by (simp add: subscriber_subscribe_def)
  then have "grows (ca_max_packet_size a) (version a) (w_stream w2) st1" using grows_write [OF _ wr] con(2) by simp
  moreover have "grows (ca_max_packet_size a) (version a) st1 (sb_stream s\<^sub>0)"
    using await_first_suback_stream [OF aw] by (simp add: m s(1) con(2))
  moreover have "grows (ca_max_packet_size a) (version a) (sb_stream s\<^sub>0) (sb_stream s)"
    using subscriber_loop_stream [OF assms(3)] by (simp add: m s(2) con(2))
  ultimately have "grows (ca_max_packet_size a) (version a) (w_stream w2) (sb_stream s)"
    using stream_growth.le_trans by blast
  moreover have "announced (ca_max_packet_size a) (version a) (calls (w_stream w2))"
    by (simp add: con(1) announced_def connect_packet_for_def subscriber_client_id_def conforming_def)
  moreover have "calls (w_stream w2) \<noteq> []" by (simp add: con(1))
  ultimately show ?thesis by (rule announced_grows [rotated -1])
qed

section \<open>What the counters count\<close>

definition payload_bytes :: "publish_packet list \<Rightarrow> nat" where
  "payload_bytes ms = (\<Sum>m\<leftarrow>ms. length (pub_payload m))"

definition bytes_inv :: "publisher \<Rightarrow> bool" where
  "bytes_inv s \<longleftrightarrow> ct_received (pb_counters s) = 0 \<and> ct_bytes_received (pb_counters s) = 0
     \<and> ct_bytes_sent (pb_counters s) = of_nat (payload_bytes (publishes s))"

lemma bytes_inv_keep:
  assumes "bytes_inv s" "publishes t = publishes s" "ct_received (pb_counters t) = ct_received (pb_counters s)"
    and "ct_bytes_received (pb_counters t) = ct_bytes_received (pb_counters s)"
    and "ct_bytes_sent (pb_counters t) = ct_bytes_sent (pb_counters s)"
  shows "bytes_inv t"
  using assms by (simp add: bytes_inv_def)

lemma bytes_inv_read:
  assumes "bytes_inv s" "read_side P x now s = Some t"
  shows "bytes_inv t"
proof -
  have ack: "bytes_inv t" if "t = complete_ack P x now i code sm (s\<lparr>pb_stream := st\<rparr>)" "publishes t = publishes s" for i code sm st
    using that by (intro bytes_inv_keep [OF assms(1)])
      (auto simp: complete_ack_def record_refusal_def Let_def split: option.splits)
  have pubs: "publishes t = publishes s" using written_simps(1) read_side_frame(1) [OF assms(2)] by blast
  from assms(2) show ?thesis
    by (cases rule: read_side_cases) (use pubs ack bytes_inv_keep [OF assms(1), of t] in auto)
qed

lemma bytes_inv_write:
  assumes "bytes_inv s" "write_side P x now s = Some t"
  shows "bytes_inv t"
  using assms(2)
proof (cases rule: write_side_cases)
  case (drained i rest st')
  then show ?thesis using written_simps(3) [of t s] by (intro bytes_inv_keep [OF assms(1)]) auto
next
  case (written pid d)
  from written(2) show ?thesis
  proof (cases rule: write_publish_cases)
    case (ok st')
    then show ?thesis using assms(1) written_simps(2) [of t s]
      by (simp add: bytes_inv_def payload_bytes_def)
  next
    case (fault e st')
    then show ?thesis using written_simps(1) [of t s] by (intro bytes_inv_keep [OF assms(1)]) auto
  qed
next
  case (cleaned pid e)
  then show ?thesis using written_simps(1) [of t s]
    by (intro bytes_inv_keep [OF assms(1)]) (auto simp: clean_up_def Let_def split: option.splits)
next
  case (closing st' r)
  have "publishes t = publishes s"
    by (rule write_packet_cases [of "Disconnect (rc_success P)" "px_version x" "pb_stream s"])
      (use closing written_simps(1,4) [of t s] in auto)
  then show ?thesis using closing by (intro bytes_inv_keep [OF assms(1)]) auto
qed (use written_simps(1) [of t s] in \<open>auto intro!: bytes_inv_keep [OF assms(1)]\<close>)

interpretation publisher_bytes: inductive_invariant "publisher_init x st" "publisher_step P x" bytes_inv for P x st
proof
  fix s
  assume "publisher_init x st s"
  then show "bytes_inv s"
    by (auto simp: publisher_init_def publisher_initial_def bytes_inv_def counters_zero_def publishes_def
        payload_bytes_def List.map_filter_def)
next
  fix s l t
  assume inv: "bytes_inv s" and step: "publisher_step P x s l t"
  from step inv show "bytes_inv t"
    by (rule publisher_step_inv)
      (use bytes_inv_read [OF inv] bytes_inv_write [OF inv] inv in \<open>auto simp: bytes_inv_def publishes_def\<close>)
qed

section \<open>A whole run\<close>

definition connections :: "bench_system \<Rightarrow> stream list" where
  "connections S =
     List.map_filter (\<lambda>t. case t of Running x s \<Rightarrow> Some (pb_stream s) | _ \<Rightarrow> None) (bs_publishers S)
     @ List.map_filter (\<lambda>t. case t of Running x s \<Rightarrow> Some (sb_stream s) | _ \<Rightarrow> None) (bs_subscribers S)"

lemma running_in_map_filter:
  "st \<in> set (List.map_filter (\<lambda>t. case t of Running x s \<Rightarrow> Some (f s) | _ \<Rightarrow> None) ts) \<longleftrightarrow>
     (\<exists>i x s. i < length ts \<and> ts ! i = Running x s \<and> st = f s)"
proof -
  have "st \<in> set (List.map_filter (\<lambda>t. case t of Running x s \<Rightarrow> Some (f s) | _ \<Rightarrow> None) ts) \<longleftrightarrow>
      (\<exists>x s. Running x s \<in> set ts \<and> st = f s)"
    by (induction ts) (auto split: task.splits)
  then show ?thesis by (metis in_set_conv_nth)
qed

text \<open>
  C11: the connections of a benchmark are proper MQTT. In every state a run can reach, each connection that
  has been set up starts with a CONNECT that announces the packet ceiling; after it everything written
  is a packet a client may send, in the version of the connection, with identifiers where they are
  due, and every read enforces the announced ceiling.
\<close>

theorem bench_traffic_conforms:
  assumes "\<forall>i. fresh_streams (be_pub_network E i)" "\<forall>i. fresh_streams (be_sub_network E i)"
    and "system_init E S\<^sub>0" "steps (system_step E) S\<^sub>0 ls S" "st \<in> set (connections S)"
  shows "calls st \<noteq> [] \<and> announced (ca_max_packet_size (be_conn E)) (version (be_conn E)) (calls st)"
proof -
  have inv: "system_inv E S" by (rule run_inv [OF assms(3,4,1)])
  from assms(5) consider (pub) i x s where "i < length (bs_publishers S)" "bs_publishers S ! i = Running x s" "st = pb_stream s"
    | (sub) i x s where "i < length (bs_subscribers S)" "bs_subscribers S ! i = Running x s" "st = sb_stream s"
    by (auto simp: connections_def running_in_map_filter)
  then show ?thesis
  proof cases
    case pub
    then have "pub_traced E (bs_baseline S) (bs_warmup_until S) i x s" using inv_pub [OF inv pub(1)] by (simp add: pub_fine_def)
    then show ?thesis using publisher_announced [OF assms(1) [rule_format]] pub(3) by (auto simp: pub_traced_def)
  next
    case sub
    then have "sub_traced E (bs_baseline S) (bs_warmup_until S) i x s" using inv_sub [OF inv sub(1)] by (simp add: sub_fine_def)
    then show ?thesis using subscriber_announced [OF assms(2) [rule_format]] sub(3) by (auto simp: sub_traced_def)
  qed
qed

lemma sample_connection:
  obtains S\<^sub>0 ls S ts st where "system_init sample_env S\<^sub>0" "steps (system_step sample_env) S\<^sub>0 ls S" "bs_main S = Main_Reported ts"
    "connections S = [st]" "bs_subscribers S = []" "length (bs_publishers S) = 1"
proof -
  obtain S\<^sub>0 S ts where S: "system_init sample_env S\<^sub>0" "steps (system_step sample_env) S\<^sub>0 sample_labels S"
      "bs_subscribers S = []" "length (bs_publishers S) = 1"
      "steps (system_step sample_env) S [Join_Subscribers] (S\<lparr>bs_main := Main_Reported ts\<rparr>)"
      "success (bench_report mqtt_documented (sample_config AtMostOnce) ts)"
    using sample_run by blast
  let ?S = "S\<lparr>bs_main := Main_Reported ts\<rparr>"
  have fresh: "\<forall>i. fresh_streams (be_pub_network sample_env i)" by (simp add: sample_env_def)
  have inv: "system_inv sample_env ?S" by (rule run_inv [OF S(1) steps_append [OF S(2,5)] fresh])
  obtain x s sm where "bs_publishers ?S ! 0 = Running x s" "pb_phase s = Done_With (Inr sm)"
    by (rule reported_success [OF inv, of ts 0]) (use S(6) in \<open>simp_all add: sample_env_def sample_config_def\<close>)
  then have "connections ?S = [pb_stream s]"
    using S(3,4) by (cases "bs_publishers S") (auto simp: connections_def map_filter_simps)
  with that [OF S(1) steps_append [OF S(2,5)]] S(3,4) show ?thesis by simp
qed

theorem bench_traffic_conforms_witness:
  "\<exists>S st. st \<in> set (connections S) \<and> calls st \<noteq> [] \<and> announced 1048576 V5 (calls st)"
proof -
  obtain S\<^sub>0 ls S ts st where S: "system_init sample_env S\<^sub>0" "steps (system_step sample_env) S\<^sub>0 ls S" "connections S = [st]"
    by (rule sample_connection)
  have fresh: "\<forall>i. fresh_streams (be_pub_network sample_env i)" "\<forall>i. fresh_streams (be_sub_network sample_env i)"
    by (simp_all add: sample_env_def)
  have "calls st \<noteq> [] \<and> announced (ca_max_packet_size (be_conn sample_env)) (version (be_conn sample_env)) (calls st)"
    by (rule bench_traffic_conforms [OF fresh S(1,2)]) (simp add: S(3))
  then show ?thesis using S(3)
    by (intro exI [of _ S] exI [of _ st]) (simp add: sample_env_def default_connection_def version_def DEFAULT_MAX_PACKET_SIZE_def)
qed

text \<open>What a subscriber has read since its SUBACK, and what it made of it.\<close>

definition heard :: "('tcp, 'tls, 'req) bench_env \<Rightarrow> nat \<Rightarrow> subscriber_task \<Rightarrow> net_event list \<Rightarrow> bool" where
  "heard E i t es \<longleftrightarrow> (case t of
      Running x s \<Rightarrow> \<exists>d pre ack. inbox (framing (be_sub_network E i) d) = pre @ Arrives (Suback ack) # es @ inbox (sb_stream s)
    | _ \<Rightarrow> es = [])"

definition with_header :: "publish_packet list \<Rightarrow> nat" where
  "with_header ms = length (filter (\<lambda>m. HEADER_LEN \<le> length (pub_payload m)) ms)"

lemma subscriber_heard:
  assumes "sub_fine E S i t" "fresh_streams (be_sub_network E i)"
  shows "\<exists>es. heard E i t es \<and> ct_received (sub_counters t) = of_nat (length (messages es))
     \<and> ct_bytes_received (sub_counters t) = of_nat (payload_bytes (messages es))
     \<and> (\<forall>h. sub_handle t = Some h \<longrightarrow> size (task_samples h) \<le> with_header (messages es))"
proof (cases t)
  case (Running x s)
  then obtain w s\<^sub>0 w' turns where start: "subscriber_start (be_crate E) (be_sub_network E i) (be_os E) (of_nat i) (be_config E)
      (be_conn E) (bs_baseline S) (bs_warmup_until S) w = (Return (x, s\<^sub>0), w')"
    and loop: "subscriber_loop (be_crate E) x turns s\<^sub>0 = Some s" using assms(1) by (auto simp: sub_fine_def sub_traced_def)
  note st = subscriber_start_Return [OF assms(2) start]
  obtain es where es: "account (be_crate E) (sb_stream s\<^sub>0) es s" using account_loop [OF loop st(3)] by blast
  have "heard E i t es" using st(2) es Running by (auto simp: heard_def account_def)
  moreover have "size (task_samples h) \<le> with_header (messages es)" if "sub_handle t = Some h" for h
    using that es Running
    by (auto simp: sub_handle_def task_samples_def account_def with_header_def contents_def split: subscriber_phase.splits sum.splits)
  ultimately show ?thesis using es Running
    by (intro exI [of _ es]) (simp add: account_def sub_counters_def payload_bytes_def)
qed (use assms(1) in \<open>auto simp: heard_def sub_counters_def counters_zero_def payload_bytes_def messages_def sub_handle_def
    sub_fine_def task_samples_def split: joined.splits sum.splits\<close>)

lemma pub_bytes:
  assumes "system_inv E S" "t \<in> set (bs_publishers S)"
  shows "ct_received (pub_counters t) = 0 \<and> ct_bytes_received (pub_counters t) = 0
     \<and> ct_bytes_sent (pub_counters t) = of_nat (payload_bytes (task_messages t))"
proof (cases t)
  case (Running x s)
  obtain i where i: "i < length (bs_publishers S)" "bs_publishers S ! i = t" using assms(2) unfolding in_set_conv_nth by blast
  have "pub_traced E (bs_baseline S) (bs_warmup_until S) i x s" "fresh_streams (be_pub_network E i)"
    using inv_pub [OF assms(1) i(1)] i(2) Running assms(1) by (simp_all add: pub_fine_def system_inv_def)
  then have "bytes_inv s"
    using publisher_start_Return(1) publisher_bytes.inv_init publisher_bytes.steps_inv unfolding pub_traced_def by metis
  then show ?thesis using Running by (simp add: bytes_inv_def pub_counters_def task_messages_def)
qed (simp_all add: pub_counters_def task_messages_def counters_zero_def payload_bytes_def)

lemma sub_sends_nothing:
  assumes "system_inv E S" "t \<in> set (bs_subscribers S)"
  shows "ct_bytes_sent (sub_counters t) = 0"
proof (cases t)
  case (Running x s)
  obtain i where i: "i < length (bs_subscribers S)" "bs_subscribers S ! i = t" using assms(2) unfolding in_set_conv_nth by blast
  have "sub_traced E (bs_baseline S) (bs_warmup_until S) i x s"
    using inv_sub [OF assms(1) i(1)] i(2) Running by (simp add: sub_fine_def)
  then show ?thesis using Running subscriber_publishes_nothing by (auto simp: sub_counters_def)
qed (simp_all add: sub_counters_def counters_zero_def)

lemma sum_list_of_nat: "(\<Sum>t\<leftarrow>ts. of_nat (f t)) = (of_nat (\<Sum>t\<leftarrow>ts. f t) :: 'a :: semiring_1)"
  by (induction ts) simp_all

lemma sum_list_nth: "(\<Sum>t\<leftarrow>ts. f t) = (\<Sum>i < length ts. f (ts ! i))"
  unfolding sum_list_sum_nth by (simp add: atLeast0LessThan)

lemma summary_count: "fst (summarise m) = Some su \<Longrightarrow> su_count su = size (contents m)"
  by (auto simp: summarise_def contents_def Let_def split: if_splits)

text \<open>
  C9: the report adds up. When a benchmark reports, the messages and bytes it says were sent are those its
  publishers wrote; the messages and bytes it says were received are those that reached its
  subscribers after their SUBACK, each once; and it shows at most as many end-to-end latencies as there
  were messages with a header among them. The counts are exact up to the \<^verbatim>\<open>u64\<close> of the counters, and
  hold whether or not the run succeeds.
\<close>

theorem bench_report_adds_up:
  assumes "\<forall>i. fresh_streams (be_pub_network E i)" "\<forall>i. fresh_streams (be_sub_network E i)"
    and "system_init E S\<^sub>0" "steps (system_step E) S\<^sub>0 ls S" "bs_main S = Main_Reported ts"
  defines "r \<equiv> bench_report (be_crate E) (be_config E) ts"
  shows "ct_published (rp_totals r) = of_nat (\<Sum>t\<leftarrow>bs_publishers S. length (task_messages t))
     \<and> ct_bytes_sent (rp_totals r) = of_nat (\<Sum>t\<leftarrow>bs_publishers S. payload_bytes (task_messages t))
     \<and> (\<exists>es. (\<forall>i < cf_subscribers (be_config E). heard E i (bs_subscribers S ! i) (es i))
          \<and> ct_received (rp_totals r) = of_nat (\<Sum>i < cf_subscribers (be_config E). length (messages (es i)))
          \<and> ct_bytes_received (rp_totals r) = of_nat (\<Sum>i < cf_subscribers (be_config E). payload_bytes (messages (es i)))
          \<and> (\<forall>su. rp_end_to_end r = Some su \<longrightarrow>
               su_count su \<le> (\<Sum>i < cf_subscribers (be_config E). with_header (messages (es i)))))"
proof -
  let ?n = "cf_subscribers (be_config E)"
  have inv: "system_inv E S" by (rule run_inv [OF assms(3,4,1)])
  have n: "length (bs_subscribers S) = ?n" using inv by (simp add: system_inv_def)
  obtain j where ts: "ts = tasks_of (be_panic E) S j" and joined: "subs_joined S"
    using inv assms(5) by (auto simp: system_inv_def main_fine_def)
  have totals: "rp_totals r = total_counters S"
    by (simp add: r_def ts bench_report_def tasks_of_def snapshot_def split: prod.splits)
  have "\<forall>i. \<exists>es. i < ?n \<longrightarrow> heard E i (bs_subscribers S ! i) es
      \<and> ct_received (sub_counters (bs_subscribers S ! i)) = of_nat (length (messages es))
      \<and> ct_bytes_received (sub_counters (bs_subscribers S ! i)) = of_nat (payload_bytes (messages es))
      \<and> (\<forall>h. sub_handle (bs_subscribers S ! i) = Some h \<longrightarrow> size (task_samples h) \<le> with_header (messages es))"
    using subscriber_heard [OF inv_sub [OF inv]] assms(2) n by metis
  then obtain es where es: "\<And>i. i < ?n \<Longrightarrow> heard E i (bs_subscribers S ! i) (es i)
      \<and> ct_received (sub_counters (bs_subscribers S ! i)) = of_nat (length (messages (es i)))
      \<and> ct_bytes_received (sub_counters (bs_subscribers S ! i)) = of_nat (payload_bytes (messages (es i)))
      \<and> (\<forall>h. sub_handle (bs_subscribers S ! i) = Some h \<longrightarrow> size (task_samples h) \<le> with_header (messages (es i)))"
    using choice by (metis (no_types, lifting))
  note subs = sum_list_nth [of _ "bs_subscribers S", unfolded n]
  have pub0: "(\<Sum>t\<leftarrow>bs_publishers S. ct_received (pub_counters t)) = 0" "(\<Sum>t\<leftarrow>bs_publishers S. ct_bytes_received (pub_counters t)) = 0"
    using pub_bytes [OF inv] by (simp_all cong: map_cong)
  have received: "ct_received (rp_totals r) = of_nat (\<Sum>i < ?n. length (messages (es i)))"
    "ct_bytes_received (rp_totals r) = of_nat (\<Sum>i < ?n. payload_bytes (messages (es i)))"
    using es by (simp_all add: totals total_sums counters_zero_def counters_add_def pub0 subs)
  have sent: "ct_bytes_sent (rp_totals r) = of_nat (\<Sum>t\<leftarrow>bs_publishers S. payload_bytes (task_messages t))"
    using pub_bytes [OF inv] sub_sends_nothing [OF inv]
    by (simp add: totals total_sums counters_zero_def counters_add_def sum_list_of_nat cong: map_cong)
  have latencies: "su_count su \<le> (\<Sum>i < ?n. with_header (messages (es i)))" if su: "rp_end_to_end r = Some su" for su
  proof -
    obtain m where m: "join_tasks (bt_subscribers ts) = (m, map task_result (bt_subscribers ts))"
      "contents m = (\<Sum>h\<leftarrow>bt_subscribers ts. task_samples h)" by (rule join_tasks_eq)
    have size_sum: "size (sum_list ms) = (\<Sum>x\<leftarrow>ms. size x)" for ms :: "u64 multiset list" by (induction ms) auto
    have "fst (summarise m) = Some su" using su m(1) by (simp add: r_def bench_report_def split: prod.splits)
    then have "su_count su = (\<Sum>t\<leftarrow>bs_subscribers S. size (task_samples (the (sub_handle t))))"
      by (simp add: summary_count m(2) size_sum ts tasks_of_def comp_def)
    also have "\<dots> \<le> (\<Sum>i < ?n. with_header (messages (es i)))"
      unfolding subs
    proof (rule sum_mono)
      fix i
      assume i: "i \<in> {..<?n}"
      then obtain h where "sub_handle (bs_subscribers S ! i) = Some h"
        using joined n by (auto simp: subs_joined_def list_all_length)
      then show "size (task_samples (the (sub_handle (bs_subscribers S ! i)))) \<le> with_header (messages (es i))"
        using es i by simp
    qed
    finally show ?thesis .
  qed
  show ?thesis using received sent latencies es reported_published [OF inv] totals by auto
qed

theorem bench_report_adds_up_witness:
  "\<exists>(S :: bench_system) ts. bs_main S = Main_Reported ts \<and> ct_received (rp_totals (bench_report mqtt_documented (sample_config AtMostOnce) ts)) = 0
     \<and> ct_published (rp_totals (bench_report mqtt_documented (sample_config AtMostOnce) ts))
        = of_nat (\<Sum>t\<leftarrow>bs_publishers S. length (task_messages t))"
proof -
  obtain S\<^sub>0 ls S ts st where S: "system_init sample_env S\<^sub>0" "steps (system_step sample_env) S\<^sub>0 ls S" "bs_main S = Main_Reported ts"
    by (rule sample_connection)
  have env: "\<forall>i. fresh_streams (be_pub_network sample_env i)" "\<forall>i. fresh_streams (be_sub_network sample_env i)"
      "be_crate sample_env = mqtt_documented" "be_config sample_env = sample_config AtMostOnce"
      "cf_subscribers (sample_config AtMostOnce) = 0"
    by (simp_all add: sample_env_def sample_config_def)
  show ?thesis using bench_report_adds_up [OF env(1,2) S] S(3) by (intro exI [of _ S] exI [of _ ts]) (simp add: env)
qed

section \<open>The latency of a message\<close>

lemma publisher_start_baseline:
  "publisher_start P N sys i c a baseline warmup now w = (Return (x, s), w') \<Longrightarrow> px_baseline x = baseline"
  by (auto simp: publisher_start_def bind_Return_iff Let_def split: option.splits)

lemma subscriber_start_baseline:
  "subscriber_start P N sys i c a baseline warmup w = (Return (y, s), w') \<Longrightarrow>
     sx_baseline y = baseline \<and> sx_warmup_until y = warmup"
  by (auto simp: subscriber_start_def bind_Return_iff)

text \<open>
  C22: the end-to-end latency is the time from send to receipt. A publisher writes the instant of sending
  into the payload as the distance from the baseline of the run, a subscriber of the same run reads it
  back: when a message that was sent at \<open>sent\<close> is received at \<open>received\<close>, the sample added is their exact
  difference, and none is added if it was sent before the warm-up was over or, by its header, in the future.
\<close>

theorem latency_measured:
  assumes "publisher_start P N sys i c a baseline warmup now w = (Return (x, s), w')"
    and "subscriber_start P' N' sys' j c' a' baseline warmup v = (Return (y, u), v')"
    and "baseline \<le> sent" "sent - baseline < 2 ^ 64" "sent \<le> INSTANT_MAX"
  shows "sm_values (time_message y received (pub_payload (publisher_message x n pid sent)) sm)
     = sm_values sm @ (if warmup \<le> sent \<and> sent \<le> received then [of_nat (received - sent)] else [])"
proof -
  have x: "px_baseline x = baseline" "sx_baseline y = baseline" "sx_warmup_until y = warmup"
    using publisher_start_baseline [OF assms(1)] subscriber_start_baseline [OF assms(2)] by auto
  have "unat (of_nat (sent - baseline) :: u64) = sent - baseline" using assms(4) by (simp add: unat_of_nat)
  then show ?thesis using assms(3,5)
    by (simp add: time_message_def publisher_message_def decode_build x instant_add_def record_sample_def)
qed

theorem latency_measured_witness:
  "\<exists>x y. sm_values (time_message y 9 (pub_payload (publisher_message x 0 (Some 1) 4)) samples_new) = [5]"
proof -
  obtain st w' where p: "publisher_start mqtt_documented (scripted_network (accepting_broker @ [])) bare_os 0
       (sample_config AtLeastOnce) default_connection 0 0 0 fresh_world
       = (Return (sample_setup AtLeastOnce, publisher_initial st 1), w')"
    using publisher_start_sample [of "[]" AtLeastOnce] by blast
  obtain y u v' where s: "subscriber_start mqtt_documented (scripted_network delivering_broker) bare_os 0 sample_bench
       default_connection 0 0 fresh_world = (Return (y, u), v')" using subscriber_start_sample by blast
  show ?thesis
    using latency_measured [OF p s, of 4 9 0 "Some 1" samples_new]
    by (intro exI [of _ "sample_setup AtLeastOnce"] exI [of _ y]) (simp add: INSTANT_MAX_def samples_new_def)
qed

end
