(* ===== verification/Publisher_Termination.thy ===== *)
theory Publisher_Termination
  imports Publisher_Invariants
begin

text \<open>
  How long a publisher (\<^verbatim>\<open>src/bench/publisher.rs\<close>) can go on once it is told to stop: a measure that every
  step of either of its tasks decreases, as long as the clock does not go back. The wait for
  outstanding acknowledgements is the only loop left; it sleeps ten milliseconds a round and has a
  deadline of five seconds.
\<close>

section \<open>The measure\<close>

text \<open>The rounds of ten milliseconds that fit before a deadline.\<close>

definition rounds :: "nat \<Rightarrow> nat \<Rightarrow> nat" where
  "rounds d now = (d - now + (10 ^ 7 - 1)) div 10 ^ 7"

fun stop_rank :: "nat \<Rightarrow> write_phase \<Rightarrow> nat" where
  "stop_rank T (Pacing d) = 1509"
| "stop_rank T Acquiring = 1508"
| "stop_rank T (Prepared i d) = 1507"
| "stop_rank T (Writing i d) = 1506"
| "stop_rank T Draining = 1505"
| "stop_rank T (Tail_Check d) = 3 * rounds d T + 4"
| "stop_rank T (Tail_Drain d) = 3 * rounds d (T + 10 ^ 7) + 6"
| "stop_rank T (Tail_Sleep d wake) = 3 * rounds d (max wake T) + 5"
| "stop_rank T Last_Drain = 3"
| "stop_rank T Closing = 2"
| "stop_rank T (Joining d) = 1"
| "stop_rank T (Failing i e) = 1"
| "stop_rank T (Done_With r) = 0"
| "stop_rank T Write_Panicked = 0"

definition read_work :: "publisher \<Rightarrow> nat" where
  "read_work s = (case pb_ack s of Reading sm \<Rightarrow> 2 * length (inbox (pb_stream s)) + 1 | _ \<Rightarrow> 0)"

definition stop_work :: "nat \<Rightarrow> publisher \<Rightarrow> nat" where
  "stop_work T s = stop_rank T (pb_phase s) + length (pb_channel s) + read_work s"

lemma rounds_mono: "T \<le> T' \<Longrightarrow> rounds d T' \<le> rounds d T"
  unfolding rounds_def by (intro div_le_mono) simp

lemma rounds_less: "now < d \<Longrightarrow> rounds d (now + 10 ^ 7) < rounds d now"
proof -
  assume "now < d"
  then have "d - (now + 10 ^ 7) + (10 ^ 7 - 1) + 10 ^ 7 \<le> d - now + (10 ^ 7 - 1) \<or> d - (now + 10 ^ 7) = 0 \<and> 1 \<le> d - now" by arith
  then show ?thesis
  proof
    assume le: "d - (now + 10 ^ 7) + (10 ^ 7 - 1) + 10 ^ 7 \<le> d - now + (10 ^ 7 - 1)"
    have "rounds d (now + 10 ^ 7) + 1 = (d - (now + 10 ^ 7) + (10 ^ 7 - 1) + 10 ^ 7) div 10 ^ 7"
      by (simp add: rounds_def)
    also have "\<dots> \<le> rounds d now" unfolding rounds_def by (rule div_le_mono [OF le])
    finally show ?thesis by simp
  next
    assume "d - (now + 10 ^ 7) = 0 \<and> 1 \<le> d - now"
    then have zero: "d - (now + 10 ^ 7) = 0" and one: "10 ^ 7 \<le> d - now + (10 ^ 7 - 1)" by arith+
    have "rounds d (now + 10 ^ 7) = 0" unfolding rounds_def zero by simp
    moreover have "(10 ^ 7 :: nat) div 10 ^ 7 \<le> rounds d now" unfolding rounds_def by (rule div_le_mono [OF one])
    ultimately show ?thesis by simp
  qed
qed

lemma rounds_start: "rounds (now + 5 * 10 ^ 9) now = 500"
  by (simp add: rounds_def)

lemma stop_rank_mono: "T \<le> T' \<Longrightarrow> stop_rank T' ph \<le> stop_rank T ph"
  by (cases ph) (auto intro: rounds_mono)

lemma stop_rank_leave: "stop_rank now (pb_phase (leave_loop now s)) \<le> 1504"
  by (auto simp: leave_loop_def instant_add_def rounds_start [simplified])

section \<open>Every step decreases it\<close>

lemma read_work_cong:
  "pb_ack t = pb_ack s \<Longrightarrow> inbox (pb_stream t) = inbox (pb_stream s) \<Longrightarrow> read_work t = read_work s"
  by (simp add: read_work_def split: ack_task.splits)

lemma stop_work_phase:
  assumes "pb_ack t = pb_ack s" "inbox (pb_stream t) = inbox (pb_stream s)" "pb_channel t = pb_channel s"
    and "stop_rank now (pb_phase t) < stop_rank now (pb_phase s)"
  shows "stop_work now t < stop_work now s"
  using assms read_work_cong [of t s] by (simp add: stop_work_def)

lemma stop_work_leave:
  assumes "1505 \<le> stop_rank now (pb_phase s)"
  shows "stop_work now (leave_loop now s) < stop_work now s"
proof -
  obtain ph where ph: "leave_loop now s = s\<lparr>pb_phase := ph\<rparr>" using leave_loop_moved by metis
  then show ?thesis using stop_rank_leave [of now s] assms by (intro stop_work_phase) simp_all
qed

lemma stop_work_prepare:
  assumes "1508 \<le> stop_rank now (pb_phase s)"
  shows "stop_work now (prepare x now s) < stop_work now s"
  using assms by (intro stop_work_phase) (auto simp: prepare_def split: prod.splits)

lemma stop_work_drain:
  assumes "pb_channel s = i # rest"
    and "(case drain_pubrel P x i rest s of (None, u) \<Rightarrow> Some u | (Some e, u) \<Rightarrow> Some (u\<lparr>pb_phase := ph e\<rparr>)) = Some t"
    and "\<And>e. stop_rank now (ph e) \<le> stop_rank now (pb_phase s)"
  shows "stop_work now t < stop_work now s"
  using assms(2)
proof (cases rule: drain_step_cases)
  case (faulted st' e)
  then show ?thesis using assms(1) assms(3) [of e] by (simp add: stop_work_def read_work_def split: ack_task.splits)
qed (use assms(1) in \<open>simp add: stop_work_def read_work_def split: ack_task.splits\<close>)

lemma stop_work_write:
  assumes w: "write_side P x now s = Some t" and stop: "pb_stop s \<or> pb_phase s \<noteq> Draining"
  shows "stop_work now t < stop_work now s"
proof (cases "pb_phase s")
  case Draining
  have "top_checks x now s = leave_loop now s" using stop Draining by (simp add: top_checks_def split: option.splits)
  then show ?thesis
    using Draining w stop_work_leave [of now s]
      stop_work_drain [where ph = "\<lambda>e. Done_With (Inl (from_mqtt e))" and s = s and t = t and now = now and P = P and x = x]
    by (cases "pb_channel s") (auto simp: write_side_def)
next
  case (Pacing d)
  then show ?thesis using w stop_work_prepare [of now s x]
    by (auto simp: write_side_def proceed_def split: if_splits intro!: stop_work_phase)
next
  case Acquiring
  let ?c = "s\<lparr>pb_window_closed := True\<rparr>" and ?p = "s\<lparr>pb_permits := pb_permits s - 1\<rparr>"
  have "stop_work now ?c = stop_work now s" "stop_work now ?p = stop_work now s"
    using read_work_cong [of ?c s] read_work_cong [of ?p s] by (simp_all add: stop_work_def)
  then show ?thesis using Acquiring w stop_work_prepare [of now ?p x] stop_work_leave [of now ?c]
    by (auto simp: write_side_def split: if_splits)
next
  case (Writing pid d)
  have "stop_work now (write_publish x pid d s) < stop_work now s"
    by (rule write_publish_cases [OF refl, of x pid d s])
      (use Writing in \<open>simp_all add: stop_work_def read_work_def split: ack_task.splits\<close>)
  then show ?thesis using Writing w by (simp add: write_side_def)
next
  case (Tail_Check d)
  then show ?thesis using w rounds_less [of now d]
    by (auto simp: write_side_def intro!: stop_work_phase split: if_splits)
next
  case (Tail_Drain d)
  then show ?thesis
    using w stop_work_drain [where ph = "\<lambda>e. Tail_Sleep d (now + 10 ^ 7)" and s = s and t = t and now = now and P = P and x = x]
    by (cases "pb_channel s") (auto simp: write_side_def intro!: stop_work_phase)
next
  case (Tail_Sleep d wake)
  then show ?thesis using w by (auto simp: write_side_def max_def intro!: stop_work_phase split: if_splits)
next
  case Last_Drain
  then show ?thesis
    using w stop_work_drain [where ph = "\<lambda>e. Closing" and s = s and t = t and now = now and P = P and x = x]
    by (cases "pb_channel s") (auto simp: write_side_def intro!: stop_work_phase)
next
  case Closing
  have "inbox (snd (write_packet (Disconnect (rc_success P)) (px_version x) (pb_stream s))) = inbox (pb_stream s)"
    by (rule write_packet_cases [of "Disconnect (rc_success P)" "px_version x" "pb_stream s"]) simp_all
  then show ?thesis using Closing w by (auto simp: write_side_def intro!: stop_work_phase)
next
  case (Failing pid e)
  then show ?thesis using w
    by (auto simp: write_side_def clean_up_def Let_def intro!: stop_work_phase split: option.splits)
qed (use w in \<open>auto simp: write_side_def intro!: stop_work_phase split: ack_task.splits\<close>)

lemma stop_work_read:
  assumes "read_side P x now s = Some t"
  shows "stop_work T t < stop_work T s"
  using assms
proof (cases rule: read_side_cases)
  case (acked sm p st' i code)
  then have shorter: "length (inbox st') < length (inbox (pb_stream s))" using next_event_Got by metis
  let ?u = "s\<lparr>pb_stream := st'\<rparr>"
  obtain sm' where "pb_ack (complete_ack P x now i code sm ?u) = Reading sm'"
    using acked(1) by (rule_tac complete_ack_cases [of P x now i code sm ?u, OF refl]) auto
  then have "read_work t < read_work s"
    using acked(1,6) shorter by (simp add: read_work_def complete_ack_frame)
  then show ?thesis using acked(6) by (simp add: stop_work_def complete_ack_frame)
next
  case (received sm a st')
  then have "length (inbox st') < length (inbox (pb_stream s))" using next_event_Got by metis
  then show ?thesis using received by (simp add: stop_work_def read_work_def)
next
  case (ignored sm p st')
  then have "length (inbox st') < length (inbox (pb_stream s))" using next_event_Got by metis
  then show ?thesis using ignored by (simp add: stop_work_def read_work_def)
next
  case (ended sm st' e r)
  then show ?thesis by (simp add: stop_work_def read_work_def)
qed

lemma stop_work_step:
  assumes step: "publisher_step P x s l t" and l: "l \<noteq> Stop_Signal" "T \<le> instant_of l" and stop: "pb_stop s"
  shows "stop_work (instant_of l) t < stop_work T s" "pb_stop t"
proof -
  have later: "stop_work (instant_of l) s \<le> stop_work T s"
    using stop_rank_mono [OF l(2)] by (simp add: stop_work_def)
  from step show "stop_work (instant_of l) t < stop_work T s"
  proof cases
    case (read_turn now)
    then show ?thesis using stop_work_read [OF read_turn(2), of now] later by simp
  next
    case (write_turn now)
    then show ?thesis using stop_work_write [OF write_turn(2)] stop later by simp
  next
    case (stop_turn now)
    then have "t = leave_loop now s" "1505 \<le> stop_rank now (pb_phase s)"
      by (auto simp: stop_arm_def split: if_splits write_phase.splits)
    then show ?thesis using stop_work_leave [of now s] later stop_turn(1) by simp
  next
    case (give_up now)
    from give_up(2) obtain d sm e where "pb_phase s = Joining d" "pb_ack s = Reading sm"
      "t = s\<lparr>pb_ack := Crashed ''cancelled'', pb_phase := Done_With (Inl e)\<rparr>" by (rule join_timeout_done)
    then have "stop_work now t < stop_work now s" by (simp add: stop_work_def read_work_def)
    then show ?thesis using later give_up by simp
  qed (use l in simp)
  show "pb_stop t" using publisher_step_stop [OF step] stop by simp
qed

section \<open>Property\<close>



end
