(* ===== verification/Publisher_Completion.thy ===== *)
theory Publisher_Completion
  imports Publisher_Termination
begin

text \<open>
  A publisher (\<^verbatim>\<open>src/bench/publisher.rs\<close>) that is served as MQTT promises. The two tasks of the publisher and
  a broker make one system: the broker answers each QoS 1 message it was sent by a PUBACK, in the order
  of the messages and after any delay (MQTT 4.3.2, 4.6), and closes its half of the connection once it
  has read the DISCONNECT (3.14.4). Nothing else happens to the connection and nobody asks the publisher to
  stop. The system is an instance of the locale \<open>completing_system\<close>.
\<close>

section \<open>The publisher and its broker\<close>

record served =
  sv_publisher :: publisher
  sv_answered :: nat
  sv_now :: nat

datatype served_label = Moves publisher_label | Answers | Hangs_Up

text \<open>The publisher is not stopped, and does not wait for the broker to close longer than it is willing to.\<close>

fun undisturbed :: "publisher_label \<Rightarrow> bool" where
  "undisturbed Stop_Signal = False"
| "undisturbed (Give_Up now) = False"
| "undisturbed l = True"

text \<open>What the broker answers to a message, and what arrives at the publisher.\<close>

definition broker_answer :: "protocol_crate \<Rightarrow> publish_packet \<Rightarrow> packet option" where
  "broker_answer P m = (case (pub_qos m, pub_packet_id m) of
      (AtLeastOnce, Some i) \<Rightarrow> Some (Puback (pub_ack_new i (rc_success P)))
    | _ \<Rightarrow> None)"

definition arrives :: "net_event \<Rightarrow> publisher \<Rightarrow> publisher" where
  "arrives e s = s\<lparr>pb_stream := (pb_stream s)\<lparr>inbox := inbox (pb_stream s) @ [e]\<rparr>\<rparr>"

definition hung_up :: "publisher \<Rightarrow> bool" where
  "hung_up s \<longleftrightarrow> Closed \<in> set (inbox (pb_stream s))"

definition signed_off :: "publisher \<Rightarrow> bool" where
  "signed_off s \<longleftrightarrow> (\<exists>code. Disconnect code \<in> set (sent_packets (pb_stream s)))"

inductive served_step :: "protocol_crate \<Rightarrow> publisher_setup \<Rightarrow> served \<Rightarrow> served_label \<Rightarrow> served \<Rightarrow> bool"
  for P :: protocol_crate and x :: publisher_setup where
  moves: "publisher_step P x (sv_publisher v) l t \<Longrightarrow> undisturbed l \<Longrightarrow> sv_now v \<le> instant_of l \<Longrightarrow>
     served_step P x v (Moves l) (v\<lparr>sv_publisher := t, sv_now := instant_of l\<rparr>)"
| answers: "sv_answered v < length (publishes (sv_publisher v)) \<Longrightarrow>
     broker_answer P (publishes (sv_publisher v) ! sv_answered v) = Some p \<Longrightarrow> \<not> hung_up (sv_publisher v) \<Longrightarrow>
     served_step P x v Answers
       (v\<lparr>sv_publisher := arrives (Arrives p) (sv_publisher v), sv_answered := Suc (sv_answered v)\<rparr>)"
| hangs_up: "signed_off (sv_publisher v) \<Longrightarrow> \<not> hung_up (sv_publisher v) \<Longrightarrow>
     served_step P x v Hangs_Up (v\<lparr>sv_publisher := arrives Closed (sv_publisher v)\<rparr>)"

inductive_cases served_stepE: "served_step P x v l u"

section \<open>The invariant\<close>

text \<open>The acknowledgements of the messages from \<open>a\<close> on, up to \<open>b\<close>.\<close>

definition acks_of :: "protocol_crate \<Rightarrow> nat \<Rightarrow> nat \<Rightarrow> net_event list" where
  "acks_of P a b = map (\<lambda>k. Arrives (Puback (pub_ack_new (nth_id k) (rc_success P)))) [a..<b]"

text \<open>The message that is in the map and not yet written.\<close>

fun entered :: "write_phase \<Rightarrow> nat" where
  "entered (Writing i d) = 1"
| "entered ph = 0"

fun calm :: "write_phase \<Rightarrow> bool" where
  "calm (Failing i e) = False"
| "calm (Done_With (Inl e)) = False"
| "calm ph = True"

lemma entered_stage [simp]: "stage_of ph \<noteq> Sending \<Longrightarrow> entered ph = 0" "stage_of ph \<notin> {Sending, Over} \<Longrightarrow> calm ph"
  by (cases ph; simp)+

text \<open>
  The messages up to \<open>a\<close> are acknowledged, the acknowledgements up to \<open>b\<close> are on their way, and the map holds
  exactly the messages from \<open>a\<close> on, in order: no permit is lost.
\<close>

definition in_step :: "protocol_crate \<Rightarrow> publisher_setup \<Rightarrow> nat \<Rightarrow> publisher \<Rightarrow> bool" where
  "in_step P x b s \<longleftrightarrow> (\<exists>a tail. a \<le> b \<and> b \<le> length (publishes s)
     \<and> inbox (pb_stream s) = acks_of P a b @ tail
     \<and> (tail = [] \<or> tail = [Closed] \<and> stage_of (pb_phase s) = Over)
     \<and> ct_acknowledged (pb_counters s) = of_nat a
     \<and> (if cf_qos (px_config x) = AtMostOnce then b = 0 \<and> pb_in_flight s = []
        else map fst (pb_in_flight s) = map nth_id [a..<length (publishes s) + entered (pb_phase s)]
          \<and> pb_permits s + length (pb_in_flight s) + held (pb_phase s) = px_window x))"

definition well_served :: "protocol_crate \<Rightarrow> publisher_setup \<Rightarrow> publisher \<Rightarrow> bool" where
  "well_served P x s \<longleftrightarrow> \<not> pb_stop s \<and> \<not> pb_window_closed s \<and> pb_channel s = [] \<and> write_fault (pb_stream s) = (\<lambda>_. None)
     \<and> calm (pb_phase s) \<and> (signed_off s \<longleftrightarrow> stage_of (pb_phase s) = Over)
     \<and> (pb_closed s \<longrightarrow> stage_of (pb_phase s) = Over)
     \<and> (\<forall>sm e. pb_ack s = Ended sm e \<longrightarrow> stage_of (pb_phase s) = Over \<and> e = None)
     \<and> (\<forall>e. pb_ack s \<noteq> Crashed e) \<and> (pb_phase s = Acquiring \<longrightarrow> cf_qos (px_config x) \<noteq> AtMostOnce)"

definition kept_inv :: "publisher_setup \<Rightarrow> publisher \<Rightarrow> bool" where
  "kept_inv x s \<longleftrightarrow> log_inv x s \<and> acks_inv x s \<and> exit_inv x s"

definition served_inv :: "protocol_crate \<Rightarrow> publisher_setup \<Rightarrow> served \<Rightarrow> bool" where
  "served_inv P x v \<longleftrightarrow> success_ok P \<and> cf_qos (px_config x) \<noteq> ExactlyOnce \<and> 1 \<le> px_window x \<and> px_window x \<le> 65535
     \<and> quota_for (px_config x) (unat (px_index x)) \<noteq> None
     \<and> kept_inv x (sv_publisher v) \<and> well_served P x (sv_publisher v) \<and> in_step P x (sv_answered v) (sv_publisher v)"

lemma kept_inv_step: "kept_inv x s \<Longrightarrow> publisher_step P x s l t \<Longrightarrow> kept_inv x t"
  unfolding kept_inv_def using publisher_log.inv_step publisher_acks.inv_step publisher_exit.inv_step by blast

lemma arrives_simps [simp]:
  "publishes (arrives e s) = publishes s" "signed_off (arrives e s) = signed_off s"
  "sent_packets (pb_stream (arrives e s)) = sent_packets (pb_stream s)"
  "inbox (pb_stream (arrives e s)) = inbox (pb_stream s) @ [e]" "write_fault (pb_stream (arrives e s)) = write_fault (pb_stream s)"
  "pb_permits (arrives e s) = pb_permits s" "pb_closed (arrives e s) = pb_closed s" "pb_in_flight (arrives e s) = pb_in_flight s"
  "pb_channel (arrives e s) = pb_channel s" "pb_ack (arrives e s) = pb_ack s" "pb_phase (arrives e s) = pb_phase s"
  "pb_sent (arrives e s) = pb_sent s" "pb_next_packet_id (arrives e s) = pb_next_packet_id s"
  "pb_window_closed (arrives e s) = pb_window_closed s" "pb_stop (arrives e s) = pb_stop s" "pb_counters (arrives e s) = pb_counters s"
  by (simp_all add: arrives_def publishes_def signed_off_def sent_packets_def)

lemma kept_inv_arrives: "kept_inv x s \<Longrightarrow> kept_inv x (arrives e s)"
proof -
  assume k: "kept_inv x s"
  have "log_inv x (arrives e s)" using k by (rule_tac log_inv_same [of x s]) (simp_all add: kept_inv_def)
  moreover have "window_inv x (arrives e s)" using k by (simp add: kept_inv_def acks_inv_def window_inv_def)
  then have "acks_inv x (arrives e s)" using k by (simp add: kept_inv_def acks_inv_def)
  moreover have "exit_inv x (arrives e s)" using k by (rule_tac exit_inv_keep [of x s]) (simp_all add: kept_inv_def)
  ultimately show ?thesis by (simp add: kept_inv_def)
qed

lemma nth_id_inj: "nth_id i = nth_id j \<Longrightarrow> i \<le> j \<Longrightarrow> j - i < 65535 \<Longrightarrow> i = j"
proof -
  assume eq: "nth_id i = nth_id j" and ij: "i \<le> j" "j - i < 65535"
  have "i mod 65535 = j mod 65535" using arg_cong [OF eq, of unat] by (simp add: unat_nth_id)
  then have "65535 dvd j - i" using mod_eq_dvd_iff_nat [OF ij(1), of 65535] by simp
  then show ?thesis using ij by (auto dest: dvd_imp_le)
qed

lemma fresh_entry:
  assumes "a \<le> n" "n - a < 65535"
  shows "nth_id n \<notin> set (map nth_id [a..<n])"
proof
  assume "nth_id n \<in> set (map nth_id [a..<n])"
  then obtain k where k: "a \<le> k" "k < n" "nth_id k = nth_id n" by auto
  then have "n - k < 65535" using assms(2) by linarith
  then show False using nth_id_inj [of k n] k by simp
qed

lemma update_new: "i \<notin> set (map fst xs) \<Longrightarrow> AList.update i d xs = xs @ [(i, d)]"
  by (induction xs) auto

section \<open>Every step keeps it\<close>

lemma served_move:
  assumes "well_served P x s" "in_step P x b s"
    and "pb_stream t = pb_stream s" "pb_closed t = pb_closed s" "pb_ack t = pb_ack s" "pb_channel t = pb_channel s"
      "pb_stop t = pb_stop s" "pb_window_closed t = pb_window_closed s" "pb_counters t = pb_counters s"
      "pb_in_flight t = pb_in_flight s"
    and "stage_of (pb_phase s) \<noteq> Over" "stage_of (pb_phase t) \<noteq> Over" "calm (pb_phase t)"
      "entered (pb_phase t) = entered (pb_phase s)"
    and "pb_phase t = Acquiring \<longrightarrow> cf_qos (px_config x) \<noteq> AtMostOnce"
    and "cf_qos (px_config x) = AtMostOnce \<or> pb_permits t + held (pb_phase t) = pb_permits s + held (pb_phase s)"
  shows "well_served P x t \<and> in_step P x b t"
proof -
  have "publishes t = publishes s" "signed_off t = signed_off s" using assms(3) by (simp_all add: publishes_def signed_off_def)
  then show ?thesis using assms by (auto simp: well_served_def in_step_def)
qed

lemma served_leave:
  assumes "well_served P x s" "in_step P x b s" "stage_of (pb_phase s) \<in> {Top, Waiting}"
  shows "well_served P x (leave_loop now s) \<and> in_step P x b (leave_loop now s)"
proof -
  obtain ph where "leave_loop now s = s\<lparr>pb_phase := ph\<rparr>" "stage_of ph = Leaving" using leave_loop_moved by metis
  then show ?thesis using assms(3) by (intro served_move [OF assms(1,2)]) auto
qed

lemma served_proceed:
  assumes "well_served P x s" "in_step P x b s" "stage_of (pb_phase s) \<in> {Top, Waiting}"
  shows "well_served P x (proceed x now s) \<and> in_step P x b (proceed x now s)"
proof (cases "cf_qos (px_config x) = AtMostOnce")
  case True
  then show ?thesis using assms(3) by (intro served_move [OF assms(1,2)]) (auto simp: proceed_def prepare_def)
next
  case False
  then show ?thesis using assms(3) by (intro served_move [OF assms(1,2)]) (auto simp: proceed_def)
qed

lemma served_top:
  assumes "well_served P x s" "in_step P x b s" "pb_phase s = Draining"
  shows "well_served P x (top_checks x now s) \<and> in_step P x b (top_checks x now s)"
proof -
  have "well_served P x (s\<lparr>pb_phase := ph\<rparr>) \<and> in_step P x b (s\<lparr>pb_phase := ph\<rparr>)" if "stage_of ph \<in> {Waiting, Leaving}" "ph \<noteq> Acquiring" for ph
    using that assms(3) by (intro served_move [OF assms(1,2)]) auto
  then show ?thesis using served_leave [OF assms(1,2)] served_proceed [OF assms(1,2)] assms(3)
    by (auto simp: top_checks_def split: option.splits)
qed

lemma served_insert:
  assumes inv: "served_inv P x v" and s: "s = sv_publisher v" "pb_phase s = Prepared pid d"
    and t: "t = s\<lparr>pb_phase := Writing pid d, pb_in_flight :=
        (case pid of Some i \<Rightarrow> AList.update i d (pb_in_flight s) | None \<Rightarrow> pb_in_flight s)\<rparr>"
  shows "well_served P x t \<and> in_step P x (sv_answered v) t"
proof -
  let ?n = "length (publishes s)"
  have ws: "well_served P x s" and st: "in_step P x (sv_answered v) s" and win: "px_window x \<le> 65535"
    using inv s by (auto simp: served_inv_def)
  have pid: "pid = message_id x ?n" using inv s by (auto simp: served_inv_def kept_inv_def log_inv_def numbering_def)
  have same: "publishes t = publishes s" "signed_off t = signed_off s" by (simp_all add: t publishes_def signed_off_def)
  have w: "well_served P x t" using ws s(2) same by (auto simp: well_served_def t)
  show ?thesis
  proof (cases "cf_qos (px_config x) = AtMostOnce")
    case True
    then have "pid = None" using pid by (simp add: message_id_def)
    then show ?thesis using w st same s(2) True by (auto simp: in_step_def t)
  next
    case False
    then have i: "pid = Some (nth_id ?n)" using pid by (simp add: message_id_def)
    obtain a tail where a: "a \<le> sv_answered v" "sv_answered v \<le> ?n" "inbox (pb_stream s) = acks_of P a (sv_answered v) @ tail"
      "tail = []" "ct_acknowledged (pb_counters s) = of_nat a"
      "map fst (pb_in_flight s) = map nth_id [a..<?n]" "pb_permits s + length (pb_in_flight s) + 1 = px_window x"
      using st s(2) i False by (auto simp: in_step_def)
    have "length (pb_in_flight s) = ?n - a" using arg_cong [OF a(6), of length] by simp
    then have "nth_id ?n \<notin> set (map fst (pb_in_flight s))"
      using a win by (simp only: a(6)) (intro fresh_entry, auto)
    then have "pb_in_flight t = pb_in_flight s @ [(nth_id ?n, d)]" using update_new i by (simp add: t)
    then show ?thesis using w a same i False
      by (auto simp: in_step_def t intro!: exI [of _ a])
  qed
qed

lemma served_written:
  assumes ws: "well_served P x s" and st: "in_step P x b s" and s: "pb_phase s = Writing pid d"
  shows "well_served P x (write_publish x pid d s) \<and> in_step P x b (write_publish x pid d s)"
proof (cases rule: write_packet_cases [of "Publish (publisher_message x (pb_sent s) pid d)" "px_version x" "pb_stream s"])
  case (ok st')
  let ?t = "write_publish x pid d s"
  have t: "?t = s\<lparr>pb_stream := st', pb_sent := pb_sent s + 1, pb_phase := Draining, pb_counters := (pb_counters s)\<lparr>
        ct_published := ct_published (pb_counters s) + 1, ct_bytes_sent := ct_bytes_sent (pb_counters s)
          + of_nat (length (pub_payload (publisher_message x (pb_sent s) pid d)))\<rparr>\<rparr>"
    using ok by (simp add: write_publish_def Let_def)
  have "publishes ?t = publishes s @ [publisher_message x (pb_sent s) pid d]" "signed_off ?t = signed_off s"
    using written_simps(2) [of ?t s] ok(2) by (simp_all add: t signed_off_def)
  then show ?thesis using ws st s ok(3,4) by (auto simp: well_served_def in_step_def t)
next
  case (fault e st')
  then show ?thesis using ws by (simp add: well_served_def)
qed

lemma served_signs_off:
  assumes ws: "well_served P x s" and st: "in_step P x b s" and s: "pb_phase s = Closing"
    and t: "t = s\<lparr>pb_phase := Joining now, pb_stream := snd (write_packet (Disconnect (rc_success P)) (px_version x) (pb_stream s))\<rparr>"
  shows "well_served P x t \<and> in_step P x b t"
proof (cases rule: write_packet_cases [of "Disconnect (rc_success P)" "px_version x" "pb_stream s"])
  case (ok st')
  then have t': "t = s\<lparr>pb_phase := Joining now, pb_stream := st'\<rparr>" by (simp add: t)
  then have "publishes t = publishes s" "signed_off t" using written_simps(4) [of t s] ok(2) by (auto simp: signed_off_def)
  then show ?thesis using ws st s ok(3,4) by (auto simp: well_served_def in_step_def t')
next
  case (fault e st')
  then show ?thesis using ws by (simp add: well_served_def)
qed

lemma served_write:
  assumes inv: "served_inv P x v" and w: "write_side P x now (sv_publisher v) = Some t"
  shows "well_served P x t \<and> in_step P x (sv_answered v) t"
proof -
  let ?s = "sv_publisher v" and ?b = "sv_answered v"
  have ws: "well_served P x ?s" and st: "in_step P x ?b ?s" using inv by (auto simp: served_inv_def)
  then have no: "pb_channel ?s = []" "calm (pb_phase ?s)" "\<not> pb_window_closed ?s"
    "stage_of (pb_phase ?s) \<noteq> Over \<Longrightarrow> \<not> pb_closed ?s" by (auto simp: well_served_def)
  have move: "well_served P x (?s\<lparr>pb_phase := ph\<rparr>) \<and> in_step P x ?b (?s\<lparr>pb_phase := ph\<rparr>)"
    if "stage_of ph = Leaving" "stage_of (pb_phase ?s) = Leaving" for ph
    using that by (intro served_move [OF ws st]) auto
  show ?thesis
  proof (cases "pb_phase ?s")
    case Draining
    then show ?thesis using w no served_top [OF ws st] by (auto simp: write_side_def)
  next
    case (Pacing d)
    then show ?thesis using w served_proceed [OF ws st] by (auto simp: write_side_def split: if_splits)
  next
    case Acquiring
    then have t: "0 < pb_permits ?s" "t = prepare x now (?s\<lparr>pb_permits := pb_permits ?s - 1\<rparr>)"
      using w no(4) by (auto simp: write_side_def split: if_splits)
    show ?thesis
      by (rule prepare_cases [of x now "?s\<lparr>pb_permits := pb_permits ?s - 1\<rparr>"];
          intro served_move [OF ws st]) (use t Acquiring in auto)
  next
    case (Prepared pid d)
    then show ?thesis using w served_insert [OF inv refl Prepared] by (auto simp: write_side_def)
  next
    case (Writing pid d)
    then show ?thesis using w served_written [OF ws st Writing] by (auto simp: write_side_def)
  next
    case Closing
    then show ?thesis using w served_signs_off [OF ws st Closing refl] by (auto simp: write_side_def)
  next
    case (Joining since)
    then obtain sm where a: "pb_ack ?s = Ended sm None"
      using w ws by (cases "pb_ack ?s") (auto simp: write_side_def well_served_def)
    then have t: "t = ?s\<lparr>pb_phase := Done_With (Inr sm)\<rparr>"
      using w no(3) Joining by (simp add: write_side_def publisher_result_def Let_def)
    have "publishes t = publishes ?s" "signed_off t = signed_off ?s" by (simp_all add: t publishes_def signed_off_def)
    then show ?thesis using ws st Joining by (auto simp: well_served_def in_step_def t)
  next
    case (Done_With r)
    then show ?thesis using w by (simp add: write_side_def)
  qed (use w no move in \<open>auto simp: write_side_def split: if_splits\<close>)
qed

lemma served_read:
  assumes inv: "served_inv P x v" and r: "read_side P x now (sv_publisher v) = Some t"
  shows "well_served P x t \<and> in_step P x (sv_answered v) t"
proof -
  let ?s = "sv_publisher v" and ?b = "sv_answered v"
  let ?n = "length (publishes ?s)" and ?e = "entered (pb_phase ?s)"
  have ws: "well_served P x ?s" and st: "in_step P x ?b ?s" and ok: "success_ok P" and win: "acks_inv x ?s"
    using inv by (auto simp: served_inv_def kept_inv_def)
  have frame: "publishes t = publishes ?s" "signed_off t = signed_off ?s" "pb_phase t = pb_phase ?s"
    using read_side_frame [OF r] written_simps(1) [of t ?s] by (simp_all add: signed_off_def)
  obtain sm where sm: "pb_ack ?s = Reading sm" using r by (auto simp: read_side_def split: ack_task.splits)
  obtain a tail where a: "a \<le> ?b" "?b \<le> ?n" "inbox (pb_stream ?s) = acks_of P a ?b @ tail"
    "tail = [] \<or> tail = [Closed] \<and> stage_of (pb_phase ?s) = Over" "ct_acknowledged (pb_counters ?s) = of_nat a"
    "if cf_qos (px_config x) = AtMostOnce then ?b = 0 \<and> pb_in_flight ?s = []
        else map fst (pb_in_flight ?s) = map nth_id [a..<?n + ?e]
          \<and> pb_permits ?s + length (pb_in_flight ?s) + held (pb_phase ?s) = px_window x"
    using st unfolding in_step_def by blast
  show ?thesis
  proof (cases "a < ?b")
    case True
    then have box: "inbox (pb_stream ?s) = Arrives (Puback (pub_ack_new (nth_id a) (rc_success P))) # acks_of P (Suc a) ?b @ tail"
      using a(3) by (simp add: acks_of_def upt_conv_Cons)
    have qos: "cf_qos (px_config x) \<noteq> AtMostOnce" using True a(6) by (auto split: if_splits)
    have "a < ?n + ?e" using True a(2) by simp
    then have keys: "map fst (pb_in_flight ?s) = nth_id a # map nth_id [Suc a..<?n + ?e]"
      and slots: "pb_permits ?s + length (pb_in_flight ?s) + held (pb_phase ?s) = px_window x"
      using a(6) qos by (simp_all add: upt_conv_Cons)
    then obtain sent rest where fl: "pb_in_flight ?s = (nth_id a, sent) # rest" "map fst rest = map nth_id [Suc a..<?n + ?e]"
      by (cases "pb_in_flight ?s") auto
    have "distinct (map fst (pb_in_flight ?s))" using win by (simp add: acks_inv_def window_inv_def)
    then have "nth_id a \<notin> fst ` set rest" by (simp add: fl(1))
    then have del: "AList.delete (nth_id a) (pb_in_flight ?s) = rest" by (simp add: fl(1) delete_id)
    let ?st = "(pb_stream ?s)\<lparr>inbox := acks_of P (Suc a) ?b @ tail,
        calls := calls (pb_stream ?s) @ [Read_with (px_max_packet_size x) (px_version x)]\<rparr>"
    obtain st' sm' where t: "t = ?s\<lparr>pb_stream := st', pb_in_flight := rest, pb_permits := pb_permits ?s + 1,
          pb_counters := (pb_counters ?s)\<lparr>ct_acknowledged := ct_acknowledged (pb_counters ?s) + 1\<rparr>, pb_ack := Reading sm'\<rparr>"
        "inbox st' = acks_of P (Suc a) ?b @ tail" "write_fault st' = write_fault (pb_stream ?s)"
      using r sm box fl(1) del ok that [of _ ?st]
      by (auto simp: read_side_def read_packet_def ack_packet_def complete_ack_def success_ok_def Let_def)
    show ?thesis using ws a True slots fl qos frame t by (auto simp: well_served_def in_step_def intro!: exI [of _ "Suc a"])
  next
    case False
    then have "inbox (pb_stream ?s) = tail" using a(1,3) by (simp add: acks_of_def)
    moreover from this have "tail = [Closed]" using a(4) r sm by (auto simp: read_side_def read_packet_def)
    ultimately obtain st' where t: "t = ?s\<lparr>pb_stream := st', pb_closed := True, pb_ack := Ended sm None\<rparr>"
        "inbox st' = inbox (pb_stream ?s)" "write_fault st' = write_fault (pb_stream ?s)"
      using r sm that [of "(pb_stream ?s)\<lparr>calls := calls (pb_stream ?s) @ [Read_with (px_max_packet_size x) (px_version x)]\<rparr>"]
      by (auto simp: read_side_def read_packet_def)
    show ?thesis using ws st frame t a(4) \<open>tail = [Closed]\<close> by (auto simp: well_served_def in_step_def)
  qed
qed

lemma closed_not_ack [simp]: "Closed \<notin> set (acks_of P a b)"
  by (auto simp: acks_of_def)

lemma served_inv_I:
  assumes "served_inv P x v" "kept_inv x (sv_publisher u)" "well_served P x (sv_publisher u) \<and> in_step P x (sv_answered u) (sv_publisher u)"
  shows "served_inv P x u"
  using assms by (auto simp: served_inv_def)

text \<open>The message the broker is to answer next.\<close>

lemma next_answer:
  assumes "kept_inv x s" "b < length (publishes s)"
  shows "broker_answer P (publishes s ! b) = (if cf_qos (px_config x) = AtLeastOnce
     then Some (Puback (pub_ack_new (nth_id b) (rc_success P))) else None)"
proof -
  obtain now where "publishes s ! b = publisher_message x (of_nat b) (message_id x b) now"
    using assms by (auto simp: kept_inv_def log_inv_def)
  then show ?thesis by (cases "cf_qos (px_config x)") (simp_all add: broker_answer_def publisher_message_def message_id_def)
qed

lemma served_inv_step:
  assumes inv: "served_inv P x v" and step: "served_step P x v l u"
  shows "served_inv P x u"
  using step
proof (cases rule: served_step.cases)
  case (moves l' t)
  have kept: "kept_inv x t" using kept_inv_step [OF _ moves(3)] inv by (simp add: served_inv_def)
  have "well_served P x t \<and> in_step P x (sv_answered v) t"
    using moves(3)
  proof (cases rule: publisher_step.cases)
    case (stop_turn now)
    then show ?thesis using inv by (simp add: stop_arm_def served_inv_def well_served_def)
  qed (use served_read [OF inv] served_write [OF inv] moves(4) in auto)
  then show ?thesis using served_inv_I [OF inv] kept moves(2) by simp
next
  case (answers p)
  let ?s = "sv_publisher v" and ?b = "sv_answered v"
  have kept: "kept_inv x ?s" and ws: "well_served P x ?s" and st: "in_step P x ?b ?s" using inv by (auto simp: served_inv_def)
  have p: "p = Puback (pub_ack_new (nth_id ?b) (rc_success P))" and qos: "cf_qos (px_config x) \<noteq> AtMostOnce"
    using answers(4) next_answer [OF kept answers(3)] by (auto split: if_splits)
  obtain a where "a \<le> ?b" "inbox (pb_stream ?s) = acks_of P a ?b" "ct_acknowledged (pb_counters ?s) = of_nat a"
      "map fst (pb_in_flight ?s) = map nth_id [a..<length (publishes ?s) + entered (pb_phase ?s)]"
      "pb_permits ?s + length (pb_in_flight ?s) + held (pb_phase ?s) = px_window x"
    using st answers(5) qos by (auto simp: in_step_def hung_up_def)
  then have "in_step P x (Suc ?b) (arrives (Arrives p) ?s)"
    using answers(3) qos unfolding in_step_def
    by (intro exI [of _ a] exI [of _ "[]"]) (simp add: p acks_of_def)
  moreover have "well_served P x (arrives (Arrives p) ?s)" using ws by (simp add: well_served_def)
  ultimately show ?thesis using served_inv_I [OF inv] kept_inv_arrives [OF kept] answers(2) by simp
next
  case hangs_up
  let ?s = "sv_publisher v"
  have kept: "kept_inv x ?s" and ws: "well_served P x ?s" and st: "in_step P x (sv_answered v) ?s"
    using inv by (auto simp: served_inv_def)
  have "in_step P x (sv_answered v) (arrives Closed ?s)"
    using st hangs_up(3,4) ws by (auto simp: in_step_def hung_up_def well_served_def)
  moreover have "well_served P x (arrives Closed ?s)" using ws by (simp add: well_served_def)
  ultimately show ?thesis using served_inv_I [OF inv] kept_inv_arrives [OF kept] hangs_up(2) by simp
qed

section \<open>It is never stuck\<close>

definition publisher_over :: "publisher \<Rightarrow> bool" where
  "publisher_over s \<longleftrightarrow> pb_phase s = Write_Panicked \<or> (\<exists>r. pb_phase s = Done_With r)"

lemma read_enabled:
  assumes "pb_ack s = Reading sm" "inbox (pb_stream s) = acks_of P a b @ tail" "tail = [] \<or> tail = [Closed]"
    and "a < b \<or> tail \<noteq> []"
  shows "\<exists>t. read_side P x now s = Some t"
proof (cases "a < b")
  case True
  then have "acks_of P a b = Arrives (Puback (pub_ack_new (nth_id a) (rc_success P))) # acks_of P (Suc a) b"
    by (simp add: acks_of_def upt_conv_Cons)
  then show ?thesis using assms(1,2) by (simp add: read_side_def read_packet_def)
next
  case False
  then have "inbox (pb_stream s) = [Closed]" using assms by (simp add: acks_of_def)
  then show ?thesis using assms(1) by (simp add: read_side_def read_packet_def)
qed

lemma write_moves:
  assumes "write_side P x now (sv_publisher v) = Some t" "sv_now v \<le> now"
  shows "\<exists>l u. served_step P x v l u"
  using served_step.moves [OF write_turn [OF assms(1)]] assms(2) by fastforce

lemma read_moves:
  assumes "read_side P x (sv_now v) (sv_publisher v) = Some t"
  shows "\<exists>l u. served_step P x v l u"
  using served_step.moves [OF read_turn [OF assms]] by fastforce

lemma acquiring_progress:
  assumes inv: "served_inv P x v" and ph: "pb_phase (sv_publisher v) = Acquiring"
  shows "\<exists>l u. served_step P x v l u"
proof (cases "0 < pb_permits (sv_publisher v)")
  case True
  then have "write_side P x (sv_now v) (sv_publisher v) \<noteq> None" using ph by (simp add: write_side_def)
  then show ?thesis using write_moves by blast
next
  case False
  let ?s = "sv_publisher v" and ?b = "sv_answered v"
  have kept: "kept_inv x ?s" and ws: "well_served P x ?s" and st: "in_step P x ?b ?s" and win: "1 \<le> px_window x"
    and qos: "cf_qos (px_config x) = AtLeastOnce"
    using inv ph by (cases "cf_qos (px_config x)"; auto simp: served_inv_def well_served_def)+
  obtain a where a: "a \<le> ?b" "?b \<le> length (publishes ?s)" "inbox (pb_stream ?s) = acks_of P a ?b"
    "map fst (pb_in_flight ?s) = map nth_id [a..<length (publishes ?s)]" "length (pb_in_flight ?s) = px_window x"
    using st ph qos False by (auto simp: in_step_def)
  show ?thesis
  proof (cases "a < ?b")
    case True
    obtain sm where "pb_ack ?s = Reading sm" using ws ph by (cases "pb_ack ?s") (auto simp: well_served_def)
    then show ?thesis using read_enabled [of ?s sm P a ?b "[]"] a(3) True read_moves by fastforce
  next
    case False
    have "length (pb_in_flight ?s) = length (publishes ?s) - a" using arg_cong [OF a(4), of length] by simp
    then have b: "?b < length (publishes ?s)" using a win False by simp
    moreover have "\<not> hung_up ?s" using a(3) by (simp add: hung_up_def)
    ultimately show ?thesis using served_step.answers next_answer [OF kept b, of P] qos by fastforce
  qed
qed

lemma joining_progress:
  assumes inv: "served_inv P x v" and ph: "pb_phase (sv_publisher v) = Joining since"
  shows "\<exists>l u. served_step P x v l u"
proof (cases "\<exists>sm. pb_ack (sv_publisher v) = Reading sm")
  case True
  let ?s = "sv_publisher v" and ?b = "sv_answered v"
  obtain sm where sm: "pb_ack ?s = Reading sm" using True by blast
  have off: "signed_off ?s" and st: "in_step P x ?b ?s" using inv ph by (auto simp: served_inv_def well_served_def)
  obtain a tail where a: "a \<le> ?b" "inbox (pb_stream ?s) = acks_of P a ?b @ tail" "tail = [] \<or> tail = [Closed]"
    using st by (auto simp: in_step_def)
  show ?thesis
  proof (cases "a < ?b \<or> tail \<noteq> []")
    case True
    then show ?thesis using read_enabled [OF sm a(2,3) True] read_moves by blast
  next
    case False
    then have "\<not> hung_up ?s" using a by (simp add: hung_up_def)
    then show ?thesis using served_step.hangs_up off by blast
  qed
next
  case False
  then have "write_side P x (sv_now v) (sv_publisher v) \<noteq> None"
    using ph by (cases "pb_ack (sv_publisher v)") (simp_all add: write_side_def)
  then show ?thesis using write_moves by blast
qed

lemma served_progress:
  assumes inv: "served_inv P x v" and "\<not> publisher_over (sv_publisher v)"
  shows "\<exists>l u. served_step P x v l u"
proof -
  let ?s = "sv_publisher v" and ?T = "sv_now v"
  have ch: "pb_channel ?s = []" using inv by (simp add: served_inv_def well_served_def)
  have later: "\<exists>l u. served_step P x v l u" if "write_side P x (max ?T n) ?s \<noteq> None" for n
    using that write_moves [of P x "max ?T n" v] by auto
  show ?thesis
  proof (cases "pb_phase ?s")
    case Acquiring
    then show ?thesis by (rule acquiring_progress [OF inv])
  next
    case (Joining since)
    then show ?thesis by (rule joining_progress [OF inv])
  next
    case (Pacing d)
    then show ?thesis by (intro later [of d]) (simp add: write_side_def)
  next
    case (Tail_Sleep d wake)
    then show ?thesis by (intro later [of wake]) (simp add: write_side_def)
  qed (use ch assms(2) later [of 0] in \<open>auto simp: write_side_def publisher_over_def split: prod.splits\<close>)
qed

section \<open>It uses itself up\<close>

text \<open>The steps before the send loop is left, with \<open>M\<close> messages to go, and those after it.\<close>

fun send_rank :: "nat \<Rightarrow> nat \<Rightarrow> write_phase \<Rightarrow> nat" where
  "send_rank T M Draining = 1510 + 6 * M"
| "send_rank T M (Pacing d) = 1509 + 6 * M"
| "send_rank T M Acquiring = 1508 + 6 * M"
| "send_rank T M (Prepared i d) = 1507 + 6 * M"
| "send_rank T M (Writing i d) = 1506 + 6 * M"
| "send_rank T M ph = stop_rank T ph"

definition to_go :: "publisher_setup \<Rightarrow> nat \<Rightarrow> nat" where
  "to_go x n = unat (the (quota_for (px_config x) (unat (px_index x)))) - n"

definition served_work :: "publisher_setup \<Rightarrow> served \<Rightarrow> nat" where
  "served_work x v = send_rank (sv_now v) (to_go x (length (publishes (sv_publisher v)))) (pb_phase (sv_publisher v))
     + read_work (sv_publisher v) + 3 * to_go x (sv_answered v) + (if hung_up (sv_publisher v) then 0 else 3)"

lemma send_rank_mono: "T \<le> T' \<Longrightarrow> send_rank T' M ph \<le> send_rank T M ph"
  by (cases ph) (auto intro: rounds_mono)

lemma send_rank_stop: "stage_of ph \<in> {Leaving, Over} \<Longrightarrow> send_rank T M ph = stop_rank T ph"
  by (cases ph) auto

lemma send_rank_leave: "send_rank now M (pb_phase (leave_loop now s)) \<le> 1504"
proof -
  obtain ph where "leave_loop now s = s\<lparr>pb_phase := ph\<rparr>" "stage_of ph = Leaving" using leave_loop_moved by metis
  then show ?thesis using stop_rank_leave [of now s] by (simp add: send_rank_stop)
qed

lemma write_side_inbox:
  assumes "write_side P x now s = Some t"
  shows "inbox (pb_stream t) = inbox (pb_stream s)" "pb_ack t = pb_ack s"
proof -
  have "inbox (pb_stream t) = inbox (pb_stream s) \<and> pb_ack t = pb_ack s"
    using assms
  proof (cases rule: write_side_cases)
    case (written pid d)
    from written(2) show ?thesis by (cases rule: write_publish_cases) auto
  next
    case (closing st' r)
    then show ?thesis
      by (rule_tac write_packet_cases [of "Disconnect (rc_success P)" "px_version x" "pb_stream s"]) auto
  qed (auto simp: clean_up_def Let_def split: option.splits)
  then show "inbox (pb_stream t) = inbox (pb_stream s)" "pb_ack t = pb_ack s" by auto
qed

lemma send_rank_proceed: "send_rank now M (pb_phase (proceed x now s)) \<le> 1508 + 6 * M"
  "send_rank now M (pb_phase (prepare x now s)) \<le> 1507 + 6 * M"
  by (auto simp: proceed_def prepare_def split: prod.splits)

lemma send_rank_top: "send_rank now M (pb_phase (top_checks x now s)) < 1510 + 6 * M"
  using send_rank_leave [of now M s] send_rank_proceed [of now M x s] by (auto simp: top_checks_def split: option.splits)

lemma in_loop_rank:
  assumes inv: "served_inv P x v" and w: "write_side P x now (sv_publisher v) = Some t"
    and "stage_of (pb_phase (sv_publisher v)) \<in> {Top, Waiting, Sending}"
  shows "send_rank now (to_go x (length (publishes t))) (pb_phase t)
     < send_rank now (to_go x (length (publishes (sv_publisher v)))) (pb_phase (sv_publisher v))"
proof -
  let ?s = "sv_publisher v"
  have ch: "pb_channel ?s = []" "calm (pb_phase ?s)" "write_fault (pb_stream ?s) = (\<lambda>_. None)"
    using inv by (auto simp: served_inv_def well_served_def)
  have keeps: "publishes u = publishes ?s" if "pb_stream u = pb_stream ?s" for u using that by (simp add: publishes_def)
  obtain q where q: "quota_for (px_config x) (unat (px_index x)) = Some q" using inv by (auto simp: served_inv_def)
  show ?thesis
  proof (cases "pb_phase ?s")
    case Draining
    then have t: "t = top_checks x now ?s" using w ch by (simp add: write_side_def)
    have "pb_stream (top_checks x now ?s) = pb_stream ?s"
      by (simp add: top_checks_def leave_loop_def proceed_def prepare_def split: option.splits prod.splits)
    then show ?thesis using keeps [of t] send_rank_top [of now "to_go x (length (publishes ?s))" x ?s] t Draining by simp
  next
    case (Pacing d)
    then have t: "t = proceed x now ?s" using w by (auto simp: write_side_def split: if_splits)
    have "pb_stream (proceed x now ?s) = pb_stream ?s" by (simp add: proceed_def prepare_def split: prod.splits)
    then show ?thesis using keeps [of t] send_rank_proceed(1) [of now "to_go x (length (publishes ?s))" x ?s] t Pacing by simp
  next
    case Acquiring
    let ?c = "?s\<lparr>pb_window_closed := True\<rparr>" and ?p = "?s\<lparr>pb_permits := pb_permits ?s - 1\<rparr>"
    have "t = leave_loop now ?c \<or> t = prepare x now ?p" using w Acquiring by (auto simp: write_side_def split: if_splits)
    moreover have "pb_stream (leave_loop now ?c) = pb_stream ?s" "pb_stream (prepare x now ?p) = pb_stream ?s"
      by (simp_all add: leave_loop_def prepare_def split: option.splits prod.splits)
    moreover note send_rank_leave [of now "to_go x (length (publishes ?s))" ?c]
      send_rank_proceed(2) [of now "to_go x (length (publishes ?s))" x ?p]
    ultimately show ?thesis using keeps [of t] Acquiring by auto
  next
    case (Prepared pid d)
    then show ?thesis using w keeps [of t] by (auto simp: write_side_def)
  next
    case (Writing pid d)
    then have "length (publishes ?s) < unat q" using inv q by (auto simp: served_inv_def kept_inv_def log_inv_def quota_kept_def)
    moreover have "write_publish x pid d ?s = t" using w Writing by (simp add: write_side_def)
    then have "pb_phase t = Draining" "publishes t = publishes ?s @ [publisher_message x (pb_sent ?s) pid d]"
      using ch(3) written_simps(2) [of t ?s]
      by (auto simp: write_publish_def Let_def write_packet_def sent_packets_def List.map_filter_def)
    ultimately show ?thesis using Writing q by (simp add: to_go_def)
  next
    case (Failing i e)
    then show ?thesis using ch by simp
  qed (use assms(3) in auto)
qed

lemma served_work_write:
  assumes inv: "served_inv P x v" and w: "write_side P x now (sv_publisher v) = Some t" and "sv_now v \<le> now"
  shows "served_work x (v\<lparr>sv_publisher := t, sv_now := now\<rparr>) < served_work x v"
proof -
  let ?s = "sv_publisher v"
  note same = write_side_inbox [OF w]
  have read: "read_work t = read_work ?s" "hung_up t = hung_up ?s" using read_work_cong [OF same(2,1)] same(1) by (simp_all add: hung_up_def)
  have chs: "pb_channel ?s = []" "pb_channel t = []"
    using inv served_write [OF inv w] by (auto simp: served_inv_def well_served_def)
  have "send_rank now (to_go x (length (publishes t))) (pb_phase t)
     < send_rank now (to_go x (length (publishes ?s))) (pb_phase ?s)"
  proof (cases "stage_of (pb_phase ?s) \<in> {Top, Waiting, Sending}")
    case True
    then show ?thesis by (rule in_loop_rank [OF inv w])
  next
    case False
    then have st: "stage_of (pb_phase ?s) \<in> {Leaving, Over}" by (cases "stage_of (pb_phase ?s)") auto
    moreover have "pb_phase ?s \<noteq> Draining" using False by auto
    then have "stop_work now t < stop_work now ?s" using stop_work_write [OF w] by blast
    moreover have "stage_of (pb_phase t) \<in> {Leaving, Over}"
      using w st by (cases "pb_phase ?s") (auto simp: write_side_def chs split: if_splits ack_task.splits)
    ultimately show ?thesis using chs read by (simp add: stop_work_def send_rank_stop)
  qed
  moreover have "send_rank now M ph \<le> send_rank (sv_now v) M ph" for M ph using send_rank_mono [OF assms(3)] .
  ultimately have "send_rank now (to_go x (length (publishes t))) (pb_phase t)
     < send_rank (sv_now v) (to_go x (length (publishes ?s))) (pb_phase ?s)" by (rule less_le_trans)
  then show ?thesis by (simp add: served_work_def read)
qed

lemma next_event_keeps_closed: "next_event es = (r, fs) \<Longrightarrow> Closed \<in> set es \<Longrightarrow> Closed \<in> set fs"
  by (induction es rule: next_event.induct) auto

lemma served_work_read:
  assumes inv: "served_inv P x v" and r: "read_side P x now (sv_publisher v) = Some t" and "sv_now v \<le> now"
  shows "served_work x (v\<lparr>sv_publisher := t, sv_now := now\<rparr>) < served_work x v"
proof -
  let ?s = "sv_publisher v"
  have ph: "pb_phase t = pb_phase ?s" "publishes t = publishes ?s"
    using read_side_frame [OF r] written_simps(1) [of t ?s] by auto
  have "stop_work 0 t < stop_work 0 ?s" by (rule stop_work_read [OF r])
  moreover have "pb_channel ?s = []" "pb_channel t = []"
    using inv served_read [OF inv r] by (auto simp: served_inv_def well_served_def)
  ultimately have "read_work t < read_work ?s" using ph by (simp add: stop_work_def)
  moreover have "hung_up t" if "hung_up ?s"
  proof -
    obtain q where "next_event (inbox (pb_stream ?s)) = (q, inbox (pb_stream t))"
      by (rule read_side_cases [OF r]) (auto simp: complete_ack_frame)
    then show ?thesis using that next_event_keeps_closed by (simp add: hung_up_def)
  qed
  moreover have "send_rank now M p \<le> send_rank (sv_now v) M p" for M p using send_rank_mono [OF assms(3)] .
  ultimately show ?thesis using ph by (auto simp: served_work_def intro: add_le_less_mono add_less_le_mono)
qed

lemma read_work_arrives: "read_work (arrives e s) \<le> read_work s + 2"
  by (simp add: read_work_def split: ack_task.splits)

lemma served_work_step:
  assumes inv: "served_inv P x v" and step: "served_step P x v l u"
  shows "served_work x u < served_work x v"
  using step
proof (cases rule: served_step.cases)
  case (moves l' t)
  from moves(3) show ?thesis
  proof (cases rule: publisher_step.cases)
    case (stop_turn now)
    then show ?thesis using inv by (simp add: stop_arm_def served_inv_def well_served_def)
  qed (use moves served_work_read [OF inv] served_work_write [OF inv] in auto)
next
  case (answers p)
  let ?s = "sv_publisher v"
  obtain q where q: "quota_for (px_config x) (unat (px_index x)) = Some q" using inv by (auto simp: served_inv_def)
  then have "length (publishes ?s) \<le> unat q" using inv by (auto simp: served_inv_def kept_inv_def log_inv_def quota_kept_def)
  then have "to_go x (Suc (sv_answered v)) < to_go x (sv_answered v)" using answers(3) q by (simp add: to_go_def)
  moreover have "hung_up (arrives (Arrives p) ?s) = hung_up ?s" by (simp add: hung_up_def)
  ultimately show ?thesis using read_work_arrives [of "Arrives p" ?s] answers(2) by (simp add: served_work_def)
next
  case hangs_up
  have "hung_up (arrives Closed (sv_publisher v))" by (simp add: hung_up_def)
  then show ?thesis using read_work_arrives [of Closed "sv_publisher v"] hangs_up(2,4) by (simp add: served_work_def)
qed

section \<open>The system as a whole\<close>

definition served_init :: "protocol_crate \<Rightarrow> publisher_setup \<Rightarrow> served \<Rightarrow> bool" where
  "served_init P x v \<longleftrightarrow> success_ok P \<and> cf_qos (px_config x) \<noteq> ExactlyOnce
     \<and> quota_for (px_config x) (unat (px_index x)) \<noteq> None
     \<and> publisher_init x (pb_stream (sv_publisher v)) (sv_publisher v) \<and> sv_answered v = 0
     \<and> inbox (pb_stream (sv_publisher v)) = [] \<and> write_fault (pb_stream (sv_publisher v)) = (\<lambda>_. None)"

lemma served_inv_init:
  assumes "served_init P x v"
  shows "served_inv P x v"
proof -
  let ?s = "sv_publisher v"
  have i: "publisher_init x (pb_stream ?s) ?s" using assms by (simp add: served_init_def)
  then obtain con where s: "?s = publisher_initial (pb_stream ?s) (px_window x)" "sent_packets (pb_stream ?s) = [Connect con]"
    "1 \<le> px_window x" "px_window x \<le> 65535" by (auto simp: publisher_init_def)
  have "kept_inv x ?s"
    using publisher_log.inv_init [OF i] publisher_acks.inv_init [OF i] publisher_exit.inv_init [OF i] by (simp add: kept_inv_def)
  moreover have none: "publishes ?s = []" "\<not> signed_off ?s" using s(2)
    by (simp_all add: publishes_def signed_off_def List.map_filter_def)
  have f: "\<not> pb_stop ?s" "\<not> pb_window_closed ?s" "pb_channel ?s = []" "pb_phase ?s = Draining" "\<not> pb_closed ?s"
    "pb_ack ?s = Reading samples_new" "pb_in_flight ?s = []" "pb_permits ?s = px_window x" "pb_counters ?s = counters_zero"
    by (subst s(1), simp add: publisher_initial_def)+
  have "well_served P x ?s" using f none(2) assms by (simp add: well_served_def served_init_def)
  moreover have "in_step P x (sv_answered v) ?s"
    using f none(1) assms by (simp add: in_step_def served_init_def acks_of_def counters_zero_def)
  ultimately show ?thesis using assms s(3,4) by (simp add: served_inv_def served_init_def)
qed

interpretation served_publisher: completing_system "served_init P x" "served_step P x" "served_inv P x"
  "\<lambda>v. publisher_over (sv_publisher v)" "served_work x" for P x
  by unfold_locales (simp_all add: served_inv_init served_inv_step served_progress served_work_step)

lemma served_outcome:
  assumes "served_inv P x v" "quota_for (px_config x) (unat (px_index x)) = Some q"
  shows "pb_phase (sv_publisher v) = Done_With r \<Longrightarrow> (\<exists>sm. r = Inr sm) \<and> length (publishes (sv_publisher v)) = unat q"
    and "cf_qos (px_config x) = AtLeastOnce \<Longrightarrow>
      pb_permits (sv_publisher v) + length (pb_in_flight (sv_publisher v)) + held (pb_phase (sv_publisher v)) = px_window x
      \<and> unat (ct_acknowledged (pb_counters (sv_publisher v))) + length (pb_in_flight (sv_publisher v))
          = length (publishes (sv_publisher v)) + entered (pb_phase (sv_publisher v))"
proof -
  let ?s = "sv_publisher v"
  have kept: "kept_inv x ?s" and ws: "well_served P x ?s" and st: "in_step P x (sv_answered v) ?s"
    using assms(1) by (auto simp: served_inv_def)
  have n: "length (publishes ?s) \<le> unat q" using kept assms(2) by (auto simp: kept_inv_def log_inv_def quota_kept_def)
  show "(\<exists>sm. r = Inr sm) \<and> length (publishes ?s) = unat q" if r: "pb_phase ?s = Done_With r"
  proof -
    obtain sm where sm: "r = Inr sm" using ws r by (cases r) (auto simp: well_served_def)
    then show ?thesis using unstopped_publishes_quota [of x ?s sm q] kept ws r assms(2)
      by (auto simp: kept_inv_def well_served_def)
  qed
  assume qos: "cf_qos (px_config x) = AtLeastOnce"
  obtain a where "a \<le> sv_answered v" "sv_answered v \<le> length (publishes ?s)" "ct_acknowledged (pb_counters ?s) = of_nat a"
    "if cf_qos (px_config x) = AtMostOnce then sv_answered v = 0 \<and> pb_in_flight ?s = []
      else map fst (pb_in_flight ?s) = map nth_id [a..<length (publishes ?s) + entered (pb_phase ?s)]
        \<and> pb_permits ?s + length (pb_in_flight ?s) + held (pb_phase ?s) = px_window x"
    using st unfolding in_step_def by blast
  then have a: "a \<le> length (publishes ?s)" "ct_acknowledged (pb_counters ?s) = of_nat a"
    "map fst (pb_in_flight ?s) = map nth_id [a..<length (publishes ?s) + entered (pb_phase ?s)]"
    "pb_permits ?s + length (pb_in_flight ?s) + held (pb_phase ?s) = px_window x"
    using qos by simp_all
  have "unat q < 2 ^ 64" using unsigned_less [where w = q and 'a = nat] by simp
  then have "a < 2 ^ 64" using a(1) n by simp
  then have "unat (ct_acknowledged (pb_counters ?s)) = a" unfolding a(2) by (subst unat_of_nat) simp
  moreover have "length (pb_in_flight ?s) = length (publishes ?s) + entered (pb_phase ?s) - a"
    using arg_cong [OF a(3), of length] by simp
  ultimately show "pb_permits ?s + length (pb_in_flight ?s) + held (pb_phase ?s) = px_window x
      \<and> unat (ct_acknowledged (pb_counters ?s)) + length (pb_in_flight ?s) = length (publishes ?s) + entered (pb_phase ?s)"
    using a(1,4) by simp
qed

lemma publisher_initial_phase: "pb_phase (publisher_initial st n) = Draining"
  and publisher_initial_ack: "pb_ack (publisher_initial st n) = Reading samples_new"
  by (simp_all add: publisher_initial_def)

section \<open>Property\<close>


lemma served_lift:
  assumes "exec_steps P x ls s = Some t" "list_all (\<lambda>l. undisturbed l \<and> instant_of l = T) ls"
  shows "steps (served_step P x) \<lparr>sv_publisher = s, sv_answered = b, sv_now = T\<rparr> (map Moves ls)
     \<lparr>sv_publisher = t, sv_answered = b, sv_now = T\<rparr>"
  using assms
proof (induction ls arbitrary: s)
  case Nil
  then show ?case by (simp add: steps_nil)
next
  case (Cons l ls)
  then obtain u where u: "exec_step P x l s = Some u" "exec_steps P x ls u = Some t" by (auto split: option.splits)
  have "served_step P x \<lparr>sv_publisher = s, sv_answered = b, sv_now = T\<rparr> (Moves l) \<lparr>sv_publisher = u, sv_answered = b, sv_now = T\<rparr>"
    using moves [of P x "\<lparr>sv_publisher = s, sv_answered = b, sv_now = T\<rparr>" l u] u(1) Cons.prems(2)
    by (simp add: publisher_step_exec)
  then show ?case using Cons.IH [OF u(2)] Cons.prems(2) by (auto intro: steps_cons)
qed


end
