(* ===== verification/Spec2Isabelle.thy ===== *)
theory Spec2Isabelle
  imports Bench_Traffic Publisher_Completion
begin

text \<open>
  A verification of \<^verbatim>\<open>wispmq-cli\<close>, an MQTT 3.1.1/5 command-line client written in Rust. The program has
  four subcommands over one connection layer: \<^verbatim>\<open>pub\<close> publishes a payload or the lines of standard input,
  \<^verbatim>\<open>sub\<close> prints what arrives on its filters, \<^verbatim>\<open>request\<close> publishes one message and prints the replies, and
  \<^verbatim>\<open>bench\<close> runs publishers and subscribers against a broker and reports throughput and latency. All
  paths below are relative to \<^verbatim>\<open>src/\<close>, the root of the repository.

  \<^bold>\<open>The parts and their interaction.\<close> \<^verbatim>\<open>src/main.rs\<close> parses the arguments (\<^verbatim>\<open>src/cli.rs\<close>) and runs one
  subcommand (\<^verbatim>\<open>src/publish.rs\<close>, \<^verbatim>\<open>src/subscribe.rs\<close>, \<^verbatim>\<open>src/request.rs\<close>, \<^verbatim>\<open>src/bench/mod.rs\<close>). Every
  subcommand connects through \<^verbatim>\<open>src/client.rs\<close>, which dials through \<^verbatim>\<open>src/transport.rs\<close>: TCP, TLS as
  \<^verbatim>\<open>src/transport/tls.rs\<close> configures it, and WebSocket as \<^verbatim>\<open>src/transport/ws.rs\<close> adapts it to a byte
  stream. Packets are read and written by the crate \<^verbatim>\<open>wispmq-protocol\<close>, which is not in the repository.
  A benchmark (\<^verbatim>\<open>src/bench/\<close>) spawns a task per subscriber, two tasks per publisher that share an
  in-flight map, a semaphore and a channel, and one that ends the run.

  \<^bold>\<open>How the program is represented.\<close> An \<^verbatim>\<open>async\<close> function returning \<^verbatim>\<open>Result\<close> is a function from its state to
  an outcome and the next state; the outcome is a value, an error, a panic, or waiting forever
  (\<^typ>\<open>('e, 'a) outcome\<close>). \<^verbatim>\<open>?\<close> and sequencing are \<^const>\<open>bind_io\<close>. The stream to the broker is
  the script of what \<^verbatim>\<open>read_packet\<close> and \<^verbatim>\<open>write_packet\<close> answer, together with the list of packets written,
  so a theorem for every stream is a theorem for every broker. Integers are words of their Rust
  width; an \<^verbatim>\<open>f64\<close> is an exact rational rounded after every operation; a \<^verbatim>\<open>Duration\<close> and an
  \<^verbatim>\<open>Instant\<close> are nanoseconds.

  \<^item> \<^verbatim>\<open>Wisp_Prelude\<close>: machine integers, the outcome type, rendering of numbers, big-endian bytes, reachable
    states; the locales \<open>inductive_invariant\<close> (an invariant of every step holds in every reachable
    state), \<open>completing_system\<close> (one whose steps also decrease a measure and are never stuck before the end) and \<open>io_preorder\<close> (what every action of a composed program keeps of its state).
  \<^item> \<^verbatim>\<open>Wisp_Float\<close>: binary64 rounding and arithmetic, with the error bounds the schedule needs.
  \<^item> \<^verbatim>\<open>Protocol_Types\<close>: the data of the protocol crate and, as the record \<^typ>\<open>protocol_crate\<close>, the
    functions of it the sources call. \<^verbatim>\<open>Client_Error\<close>: \<^verbatim>\<open>src/error.rs\<close>.
  \<^item> \<^verbatim>\<open>Cli_Args\<close>: \<^verbatim>\<open>src/cli.rs\<close>. The argument structures are records; \<^const>\<open>password\<close>,
    \<^const>\<open>max_packet_size\<close>, \<^const>\<open>effective_limit\<close>, \<^const>\<open>parse_user_property\<close>, \<^const>\<open>parse_protocol\<close> and
    the warnings are its methods, with the process environment as a record. Shown: where the password
    comes from, that debug output does not depend on it, the ranges of the resolved values, that
    each warning is printed at most once, and that a user property is parsed back from its text.
  \<^item> \<^verbatim>\<open>Tls_Config\<close>, \<^verbatim>\<open>Ws_Stream\<close>, \<^verbatim>\<open>Transport\<close>: \<^verbatim>\<open>src/transport/tls.rs\<close>, \<^verbatim>\<open>src/transport/ws.rs\<close>,
    \<^verbatim>\<open>src/transport.rs\<close>. Shown: a connection is made without verifying the server only when
    \<^verbatim>\<open>--insecure\<close> asks for it; \<^const>\<open>ws_poll_read\<close> is a byte source (locale \<open>byte_source\<close>) over the
    concatenation of the data frames; a write followed by a completed flush sends one frame
    with exactly those bytes.
  \<^item> \<^verbatim>\<open>Packet_Ids\<close>, \<^verbatim>\<open>Mqtt_Client\<close>: \<^verbatim>\<open>src/client.rs\<close>. \<^const>\<open>connect\<close> and \<^const>\<open>handshake\<close>, and the operations
    of \<^verbatim>\<open>Client\<close>. Shown: when \<^const>\<open>connect\<close> succeeds and what the client then holds, that nothing is
    dialled before the arguments are valid, that 65535 identifiers in a row are distinct and never
    zero (locale \<open>id_allocator\<close>, also for the publisher's copy), and that a keep-alive wait pings at
    every silent interval.
  \<^item> \<^verbatim>\<open>Cmd_Publish\<close>, \<^verbatim>\<open>Cmd_Subscribe\<close>, \<^verbatim>\<open>Cmd_Request\<close>: the three subcommands, from their arguments to the
    last packet. Shown: the result of one publish for every QoS and every answer; the packets a
    \<^verbatim>\<open>pub\<close> run writes; that \<^verbatim>\<open>sub\<close> and \<^verbatim>\<open>request\<close> acknowledge and print each message once and in order, up to
    their limit (locale \<open>receive_loop\<close>, an abstract receive loop both implement); that nothing but
    printable text reaches a terminal; and that a request is published only after its reply topic
    is subscribed.
  \<^item> \<^verbatim>\<open>Bench_Payload\<close>, \<^verbatim>\<open>Bench_Stats\<close>, \<^verbatim>\<open>Bench_Config\<close>, \<^verbatim>\<open>Bench_Schedule\<close>: the files of the same names under
    \<^verbatim>\<open>src/bench/\<close> (the configuration is in \<^verbatim>\<open>mod.rs\<close>). Shown: the measurement header round trip, the
    percentiles are nearest-rank, a summary of merged samples is that of their union (locale
    \<open>sample_sink\<close>), the quotas of the publishers add up to the count, the window is in 1..65535, and
    how far the deadlines of a schedule can be from the requested rate.
  \<^item> \<^verbatim>\<open>Bench_Publisher\<close>, \<^verbatim>\<open>Publisher_Invariants\<close>: \<^verbatim>\<open>src/bench/publisher.rs\<close>. Both tasks as the step relation
    \<^const>\<open>publisher_step\<close>, interleaved freely. Shown as invariants: permits and in-flight entries never
    exceed the window; the messages written are numbered in sequence and at most the quota; a PUBREL is
    written or owed exactly for the PUBRECs read that accept their message; and that once a stop is
    requested the write side can run to its end by its own moves, unless it has panicked.
  \<^item> \<^verbatim>\<open>Publisher_Termination\<close>: a measure every step of a stopped publisher decreases (the phases of the send
    loop and of the wait for outstanding acknowledgements, the PUBRELs owed, the events still to be read).
    Shown: every interleaving after a stop request is finite, with a bound.
  \<^item> \<^verbatim>\<open>Publisher_Completion\<close>: the two tasks of a publisher with a broker that does what MQTT asks of it: it
    acknowledges QoS 1 messages in order and closes the connection after DISCONNECT. Shown: for QoS 0 and 1 and
    a quota, every interleaving ends within a number of steps given by the quota, none is ever stuck, and the
    publisher returns success with its whole quota written; under QoS 1 no permit is lost on the way, and every
    message written is acknowledged or in flight.
  \<^item> \<^verbatim>\<open>Bench_Subscriber\<close>, \<^verbatim>\<open>Bench_Run\<close>: \<^verbatim>\<open>src/bench/subscriber.rs\<close> and \<^verbatim>\<open>run\<close> of \<^verbatim>\<open>src/bench/mod.rs\<close>. Shown: a subscriber
    counts every message it received once, times only messages that carry a header, and acknowledges
    each as its QoS requires; a run reports success only if every task ended well, and its report is
    made of what the tasks returned (\<^typ>\<open>bench_tasks\<close>).
  \<^item> \<^verbatim>\<open>Bench_System\<close>: the tasks of \<^verbatim>\<open>run\<close> together. The state \<^typ>\<open>bench_system\<close> is the clock, the stop flag,
    the main task (\<^typ>\<open>main_phase\<close>), the deadline task and a \<^typ>\<open>('x, 's) task\<close> per connection;
    \<^const>\<open>system_turn\<close> is one step of any of them, and the publishers and subscribers in it move by
    \<^const>\<open>exec_step\<close> and \<^const>\<open>subscriber_turn\<close>. The record \<^typ>\<open>bench_tasks\<close> a report is made of is what
    \<^const>\<open>tasks_of\<close> reads off the last state. Shown: the stop signal comes only when it is due; from a
    stop signal on, every run can reach its report; but no report comes while a broker leaves one
    CONNECT unanswered.
  \<^item> \<^verbatim>\<open>Main_Dispatch\<close>: \<^verbatim>\<open>src/main.rs\<close>. Shown: \<^verbatim>\<open>pub\<close>, \<^verbatim>\<open>sub\<close> and \<^verbatim>\<open>request\<close> never panic, and the packet-size ceiling
    announced in the CONNECT is the one every later read enforces; what they write is one
    CONNECT and well-formed client packets after it.
  \<^item> \<^verbatim>\<open>Bench_Traffic\<close>: what a run puts on its connections and what its report says of it. Shown: every connection
    of a benchmark keeps to the announced ceiling and carries only well-formed client packets; the totals
    of a report are those of the messages written and delivered; and a latency sample is the time from the
    sending of a message to its receipt.
  \<^item> This theory: a count-limited benchmark never publishes more than the count over all its publishers, and
    exactly the count when the program exits with success.

  \<^bold>\<open>Bounds.\<close> No definition takes fuel: loops over the script of the stream end with the script, and the
  others have a measure. Percentiles are proved for fewer than \<open>2 ^ 40\<close> samples, where the index
  computed in \<^verbatim>\<open>f64\<close> is exact enough; the schedule for intervals up to \<open>2 ^ 53\<close> seconds and indices up
  to \<open>2 ^ 53\<close>, where a message number is an exact \<^verbatim>\<open>f64\<close>; the total over publishers for at most
  \<open>2 ^ 32\<close> of them, since their index is a \<^verbatim>\<open>u32\<close>. These are far beyond what a run can hold or take.

  \<^bold>\<open>Assumptions of the model.\<close> Every feature of the crate is enabled. A read that a timeout or a
  \<^verbatim>\<open>select!\<close> abandons leaves the stream as it was. Standard output accepts all bytes. The
  \<^verbatim>\<open>u64\<close> counters wrap. The counters of a benchmark task are its own contributions to the shared
  ones, which only add. Reading an acknowledgement and completing it is one step of a publisher,
  since the read commutes with everything the write side does. The seconds of an
  \<^verbatim>\<open>Instant\<close> are a non-negative \<^verbatim>\<open>i64\<close>, as on Linux. What the crates outside the repository promise is
  stated as hypotheses (\<^const>\<open>fresh_streams\<close>, for example) of the theorems that use it.

  In \<^verbatim>\<open>Bench_System\<close> a connection is set up in one step, as no other task sees anything of it before; every
  receiver sees the stop flag as soon as it is sent; a publisher that panics while its schedule is
  computed has added nothing to the counters. Ctrl-C counts from when the deadline task waits for
  it; before that it ends the process. Nothing moves after the report, since the
  runtime is dropped with the tasks in it.

  In \<^verbatim>\<open>Publisher_Completion\<close> the broker is an assumption about the environment: it models no code of the repository.
  It may delay an answer for any time, but it loses, repeats and reorders none.

  \<^bold>\<open>Not modelled.\<close> \<^verbatim>\<open>src/lib.rs\<close> declares modules only. The parsing of the command line is \<^verbatim>\<open>clap\<close>'s: its
  result, with the constraints its attributes declare, is where the model starts. Creating the
  \<^verbatim>\<open>tokio\<close> runtime is not represented, and its scheduler only as the free choice of the next step. Sockets,
  TLS sessions, the WebSocket codec and the printer of \<^verbatim>\<open>serde_json\<close> are parameters. The unit tests, which
  are more than half of several files, are not modelled.

  A publisher reuses an identifier after 65535 messages even if it is still in flight. With acknowledgements in
  order this cannot happen, since the window is at most 65535 (\<^verbatim>\<open>Publisher_Completion\<close>). It takes a broker that leaves
  one message unacknowledged while it acknowledges the 65534 after it; for such a broker only the invariants
  that hold for every broker are shown (\<^verbatim>\<open>Publisher_Invariants\<close>). No theorem bounds how far the rate of a run that was cut short is from the
  requested one, as that depends on the scheduler.
\<close>

section \<open>Across components\<close>

text \<open>One publisher of a run with \<open>p\<close> publishers, started and interleaved in some way.\<close>

definition ran_publisher ::
  "protocol_crate \<Rightarrow> ('tcp, 'tls, 'req) network \<Rightarrow> os \<Rightarrow> config \<Rightarrow> connection_args \<Rightarrow> nat \<Rightarrow> publisher \<Rightarrow> bool" where
  "ran_publisher P N sys c a i s \<longleftrightarrow> (\<exists>baseline warmup now w x s\<^sub>0 w' ls.
     publisher_start P N sys (of_nat i) c a baseline warmup now w = (Return (x, s\<^sub>0), w')
     \<and> steps (publisher_step P x) s\<^sub>0 ls s)"

lemma ran_publisher_quota:
  assumes "fresh_streams N" "ran_publisher P N sys c a i s" "i < 2 ^ 32" "quota_for c i = Some q"
  shows "length (publishes s) \<le> unat q"
proof -
  obtain baseline warmup now w x s\<^sub>0 w' ls
    where start: "publisher_start P N sys (of_nat i) c a baseline warmup now w = (Return (x, s\<^sub>0), w')"
      and run: "steps (publisher_step P x) s\<^sub>0 ls s"
    using assms(2) by (auto simp: ran_publisher_def)
  have i: "unat (of_nat i :: u32) = i" using assms(3) by (simp add: unat_of_nat)
  note x = publisher_start_Return [OF assms(1) start]
  have "log_inv x s" using publisher_log.steps_inv [OF run] publisher_log.inv_init [OF x(1)] by blast
  then show ?thesis using assms(4) i by (simp add: log_inv_def quota_kept_def x(3,4))
qed

text \<open>
  C14: a count-limited benchmark never publishes more than it was asked for. However its publishers run,
  fail or are stopped, and whatever the broker does, the messages all of them have written are at most
  the requested count.
\<close>

theorem bench_publishes_at_most:
  assumes "fresh_streams N" "0 < cf_publishers c" "cf_publishers c \<le> 2 ^ 32"
    and "cf_stop c = Stop_Count n \<or> cf_stop c = Stop_CountWithin n d"
    and "\<And>i. i < cf_publishers c \<Longrightarrow> ran_publisher P N sys c a i (s i)"
  shows "(\<Sum>i < cf_publishers c. length (publishes (s i))) \<le> unat n"
proof -
  let ?q = "\<lambda>i. unat n div cf_publishers c + (if i < unat n mod cf_publishers c then 1 else 0)"
  have "length (publishes (s i)) \<le> ?q i" if i: "i < cf_publishers c" for i
  proof -
    obtain q where q: "quota_for c i = Some q" "unat q = ?q i" using quota_value [OF assms(2,4)] by blast
    then show ?thesis using ran_publisher_quota [OF assms(1) assms(5) [OF i] _ q(1)] assms(3) i by simp
  qed
  then have "(\<Sum>i < cf_publishers c. length (publishes (s i))) \<le> (\<Sum>i < cf_publishers c. ?q i)"
    by (intro sum_mono) simp
  then show ?thesis using sum_quota [OF assms(2), of "unat n"] by simp
qed

theorem bench_publishes_at_most_witness:
  "\<exists>s. ran_publisher mqtt_documented (scripted_network (accepting_broker @ [])) bare_os (sample_config AtLeastOnce)
      default_connection 0 s \<and> pb_in_flight s = [(1, 0)] \<and> length (publishes s) \<le> 2"
proof -
  obtain st w' where st: "publisher_start mqtt_documented (scripted_network (accepting_broker @ [])) bare_os 0
       (sample_config AtLeastOnce) default_connection 0 0 0 fresh_world
       = (Return (sample_setup AtLeastOnce, publisher_initial st 1), w')" "write_fault st = (\<lambda>_. None)"
    using publisher_start_sample [of "[]" AtLeastOnce] by blast
  then obtain s where s: "exec_steps mqtt_documented (sample_setup AtLeastOnce) first_message (publisher_initial st 1) = Some s"
    "pb_in_flight s = [(1, 0)]" using first_message_steps [of st AtLeastOnce] by blast
  have "(of_nat 0 :: u32) = 0" by simp
  then have ran: "ran_publisher mqtt_documented (scripted_network (accepting_broker @ [])) bare_os (sample_config AtLeastOnce)
      default_connection 0 s"
    unfolding ran_publisher_def using st(1) exec_steps_steps [OF s(1)] by metis
  have "(\<Sum>i < cf_publishers (sample_config AtLeastOnce). length (publishes s)) \<le> unat (2 :: u64)"
    by (rule bench_publishes_at_most [OF fresh_streams_scripted]) (use ran in \<open>auto simp: sample_config_def\<close>)
  then have "length (publishes s) \<le> 2" by (simp add: sample_config_def)
  with ran s(2) show ?thesis by blast
qed

text \<open>What the arguments of a run decide about its publishers.\<close>

lemma from_args_Inr:
  "from_args P a = Inr c \<Longrightarrow> cf_publishers c = ba_publishers a \<and> 0 < ba_publishers a \<and> cf_stop c = stop_of_args a"
  by (auto simp: from_args_def split: if_splits option.splits sum.splits)

text \<open>
  C6: exit status 0 of \<^verbatim>\<open>bench --count n\<close> means that exactly \<open>n\<close> messages were published. If the program,
  given arguments with a count and no duration and not interrupted by Ctrl-C, exits with success, then
  however its tasks interleaved, the publishers wrote \<open>n\<close> messages in all, each publisher its share, and
  \<open>n\<close> is the number in the report.
\<close>

theorem bench_publishes_count:
  assumes "\<forall>i. fresh_streams (be_pub_network E i)" "system_init E S\<^sub>0" "steps (system_step E) S\<^sub>0 ls S"
    and "bs_main S = Main_Reported ts" "from_args (be_crate E) a = Inr (be_config E)"
    and "fst (main_program (be_crate E) N sys pretty ts (Cmd_Bench a) w) = Some Exit_Success"
    and "ba_count a = Some n" "ba_duration a = None" "be_ctrl_c E = None" "ba_publishers a \<le> 2 ^ 32"
  shows "(\<Sum>t\<leftarrow>bs_publishers S. length (task_messages t)) = unat n
     \<and> (\<forall>i < ba_publishers a. \<exists>q. quota_for (be_config E) i = Some q
          \<and> length (task_messages (bs_publishers S ! i)) = unat q)
     \<and> ct_published (rp_totals (bench_report (be_crate E) (be_config E) ts)) = n"
proof -
  have c: "cf_publishers (be_config E) = ba_publishers a" "0 < ba_publishers a" "cf_stop (be_config E) = Stop_Count n"
    using from_args_Inr [OF assms(5)] assms(7,8) by (auto simp: stop_of_args_def)
  have "success (bench_report (be_crate E) (be_config E) ts)"
    using assms(5,6) by (auto simp: main_program_def main_exit_def run_command_def bench_run_def Let_def
        split: prod.splits outcome.splits option.splits if_splits)
  from reported_count [OF assms(1-4) this c(3) assms(9)] c(1,2) assms(10) show ?thesis by simp
qed

definition sample_bench_args :: bench_args where
  "sample_bench_args = \<lparr>ba_conn = default_connection, ba_publishers = 1, ba_subscribers = 0, ba_topic_prefix = ''b'', ba_qos = 0,
     ba_payload_size = 16, ba_count = Some 2, ba_duration = None, ba_rate = None, ba_inflight = 1, ba_warmup = 0,
     ba_drain = 0, ba_json = False\<rparr>"

theorem bench_publishes_count_witness:
  "\<exists>S ts. fst (main_program mqtt_documented (scripted_network []) bare_os (\<lambda>_. []) ts (Cmd_Bench sample_bench_args) fresh_world)
       = Some Exit_Success
     \<and> bs_main S = Main_Reported ts \<and> (\<Sum>t\<leftarrow>bs_publishers (S :: bench_system). length (task_messages t)) = 2"
proof -
  obtain S\<^sub>0 S ts where S: "system_init sample_env S\<^sub>0" "steps (system_step sample_env) S\<^sub>0 sample_labels S"
      "steps (system_step sample_env) S [Join_Subscribers] (S\<lparr>bs_main := Main_Reported ts\<rparr>)"
      "success (bench_report mqtt_documented (sample_config AtMostOnce) ts)" "bt_baseline ts = 0"
    using sample_run by blast
  let ?S = "S\<lparr>bs_main := Main_Reported ts\<rparr>"
  have args: "from_args mqtt_documented sample_bench_args = Inr (sample_config AtMostOnce)"
    by (simp add: from_args_def sample_bench_args_def sample_config_def stop_of_args_def documented_simps from_secs_def)
  have exit: "fst (main_program mqtt_documented (scripted_network []) bare_os (\<lambda>_. []) ts (Cmd_Bench sample_bench_args) fresh_world)
       = Some Exit_Success"
    using S(4,5) by (simp add: main_program_def main_exit_def run_command_def bench_run_def args Let_def instant_add_def
        sample_config_def)
  have env: "\<forall>i. fresh_streams (be_pub_network sample_env i)" "be_crate sample_env = mqtt_documented"
      "be_config sample_env = sample_config AtMostOnce" "be_ctrl_c sample_env = None"
    by (simp_all add: sample_env_def)
  have "(\<Sum>t\<leftarrow>bs_publishers ?S. length (task_messages t)) = unat (2 :: u64)"
    by (rule bench_publishes_count [THEN conjunct1, OF env(1) S(1) steps_append [OF S(2,3)], of ts sample_bench_args])
      (use exit args env in \<open>simp_all add: sample_bench_args_def\<close>)
  with exit show ?thesis by (intro exI [of _ ?S] exI [of _ ts]) simp
qed

end
